(* ===== verification/C_Lib.thy ===== *)
theory C_Lib
  imports Main "HOL-Library.Word" "HOL-Library.Monad_Syntax"
begin

text \<open>
  The prelude of the development: the part of C and of the C library that the sources of
  webdis use, and the generic lemmas the components share.

  A byte buffer of the program is a \<^typ>\<open>string\<close> (a list of 8-bit characters) and its size is
  the length of the list. A buffer is followed by a NUL: \<open>at_c\<close> reads the byte at an offset
  and gives NUL behind the end, as \<open>calloc(sz + 1, 1)\<close> and \<open>path[path_sz] = 0\<close> arrange it.
  A pointer into a buffer is the offset from its start. The fields of a struct that hold a
  pointer and a size are one \<^typ>\<open>string option\<close>, \<^term>\<open>None\<close> for the null pointer.
\<close>

section \<open>Collections of rewrite rules\<close>

named_theorems c_str \<open>characterisations of the string functions of the C library\<close>
named_theorems c_num \<open>printing and reading numbers\<close>

section \<open>Characters and buffers\<close>

abbreviation NUL :: char where "NUL \<equiv> CHR 0x00"
abbreviation CR :: char where "CR \<equiv> CHR 0x0D"
abbreviation LF :: char where "LF \<equiv> CHR 0x0A"
abbreviation CRLF :: string where "CRLF \<equiv> [CR, LF]"
abbreviation DQUOTE :: char where "DQUOTE \<equiv> CHR 0x22"

definition code :: "char \<Rightarrow> nat" where
  "code c = of_char c"

text \<open>The code on bits works on bytes as words.\<close>

type_synonym byte = "8 word"

definition char_of_byte :: "byte \<Rightarrow> char" where
  "char_of_byte b = char_of (unat b)"

definition byte_of_char :: "char \<Rightarrow> byte" where
  "byte_of_char c = word_of_nat (code c)"

definition tolower :: "char \<Rightarrow> char" where
  "tolower c = (if 65 \<le> code c \<and> code c \<le> 90 then char_of (code c + 32) else c)"

definition toupper :: "char \<Rightarrow> char" where
  "toupper c = (if 97 \<le> code c \<and> code c \<le> 122 then char_of (code c - 32) else c)"

definition isdigit :: "char \<Rightarrow> bool" where
  "isdigit c = (48 \<le> code c \<and> code c \<le> 57)"

definition isxdigit :: "char \<Rightarrow> bool" where
  "isxdigit c = (isdigit c \<or> (65 \<le> code c \<and> code c \<le> 70) \<or> (97 \<le> code c \<and> code c \<le> 102))"

text \<open>The value of a hexadecimal digit, as \<open>strtol(_, NULL, 16)\<close> reads it.\<close>

definition xval :: "char \<Rightarrow> nat" where
  "xval c = (if isdigit c then code c - 48 else if code c \<le> 70 then code c - 55 else code c - 87)"

definition at_c :: "string \<Rightarrow> nat \<Rightarrow> char" where
  "at_c s i = (if i < length s then s ! i else NUL)"

text \<open>The C string that starts at a buffer: everything before the first NUL.\<close>

definition cstr :: "string \<Rightarrow> string" where
  "cstr s = takeWhile (\<lambda>c. c \<noteq> NUL) s"

definition strlen :: "string \<Rightarrow> nat" where
  "strlen s = length (cstr s)"

text \<open>\<open>p[0]\<close> and \<open>p + 1\<close> of a string pointer.\<close>

fun hd_c :: "string \<Rightarrow> char" where
  "hd_c [] = NUL"
| "hd_c (c # _) = c"

section \<open>Comparisons\<close>

text \<open>
  \<open>strncmp\<close> and \<open>strncasecmp\<close> compare at most \<open>n\<close> bytes and stop at a NUL in both.
  Only whether the result is 0 is used by the program.
\<close>

fun strncmp :: "string \<Rightarrow> string \<Rightarrow> nat \<Rightarrow> int" where
  "strncmp a b 0 = 0"
| "strncmp a b (Suc n) =
     (if hd_c a \<noteq> hd_c b then int (code (hd_c a)) - int (code (hd_c b))
      else if hd_c a = NUL then 0
      else strncmp (tl a) (tl b) n)"

fun strncasecmp :: "string \<Rightarrow> string \<Rightarrow> nat \<Rightarrow> int" where
  "strncasecmp a b 0 = 0"
| "strncasecmp a b (Suc n) =
     (if tolower (hd_c a) \<noteq> tolower (hd_c b)
      then int (code (tolower (hd_c a))) - int (code (tolower (hd_c b)))
      else if hd_c a = NUL then 0
      else strncasecmp (tl a) (tl b) n)"

definition strcmp :: "string \<Rightarrow> string \<Rightarrow> int" where
  "strcmp a b = strncmp a b (Suc (length a))"

definition strcasecmp :: "string \<Rightarrow> string \<Rightarrow> int" where
  "strcasecmp a b = strncasecmp a b (Suc (length a))"

section \<open>Searching\<close>

text \<open>\<open>memchr(buf + p, c, n)\<close>: the offset of the first \<open>c\<close> among \<open>n\<close> bytes from \<open>p\<close>.\<close>

fun memchr :: "string \<Rightarrow> nat \<Rightarrow> char \<Rightarrow> nat \<Rightarrow> nat option" where
  "memchr s p c 0 = None"
| "memchr s p c (Suc n) = (if at_c s p = c then Some p else memchr s (Suc p) c n)"

text \<open>\<open>strchr(buf + p, c)\<close> for a \<open>c\<close> other than NUL: it stops at the end of the C string.\<close>

definition strchr :: "string \<Rightarrow> nat \<Rightarrow> char \<Rightarrow> nat option" where
  "strchr s p c = memchr s p c (strlen (drop p s))"

text \<open>\<open>memcpy\<close> of \<open>n\<close> bytes that start at offset \<open>p\<close>.\<close>

definition slice :: "string \<Rightarrow> nat \<Rightarrow> nat \<Rightarrow> string" where
  "slice s p n = map (at_c s) [p..<p + n]"

section \<open>Numbers\<close>

definition digit :: "nat \<Rightarrow> char" where
  "digit d = char_of (48 + d)"

definition xdigit :: "nat \<Rightarrow> char" where
  "xdigit d = (if d < 10 then char_of (48 + d) else char_of (87 + d))"

text \<open>\<open>%zd\<close>, \<open>%zu\<close>, \<open>%d\<close>, \<open>%lld\<close> and \<open>%x\<close> of \<open>printf\<close>.\<close>

fun show_nat :: "nat \<Rightarrow> string" where
  "show_nat n = (if n < 10 then [digit n] else show_nat (n div 10) @ [digit (n mod 10)])"

fun show_hex :: "nat \<Rightarrow> string" where
  "show_hex n = (if n < 16 then [xdigit n] else show_hex (n div 16) @ [xdigit (n mod 16)])"

definition show_int :: "int \<Rightarrow> string" where
  "show_int i = (if i < 0 then CHR ''-'' # show_nat (nat (- i)) else show_nat (nat i))"

text \<open>The value of a run of digits, and what \<open>atoi\<close> computes of the digits it reads.\<close>

definition read_digits :: "string \<Rightarrow> nat" where
  "read_digits s = foldl (\<lambda>n c. 10 * n + (code c - 48)) 0 s"

definition read_hex :: "string \<Rightarrow> nat" where
  "read_hex s = foldl (\<lambda>n c. 16 * n + xval c) 0 s"

text \<open>Conversion of an integer to \<open>int\<close>, two's complement on 32 bits.\<close>

definition to_int32 :: "int \<Rightarrow> int" where
  "to_int32 i = (i + 2 ^ 31) mod 2 ^ 32 - 2 ^ 31"

definition isspace :: "char \<Rightarrow> bool" where
  "isspace c = (c = CHR '' '' \<or> (9 \<le> code c \<and> code c \<le> 13))"

text \<open>
  \<open>atoi\<close>: leading white space, an optional sign, then digits. A value that does not fit is
  undefined in C; glibc computes \<open>(int)strtol(s, NULL, 10)\<close> on 64 bits.
\<close>

definition atoi :: "string \<Rightarrow> int" where
  "atoi s =
     (let t = dropWhile isspace (cstr s);
          neg = (hd_c t = CHR ''-'');
          u = (if hd_c t = CHR ''-'' \<or> hd_c t = CHR ''+'' then tl t else t);
          v = int (read_digits (takeWhile isdigit u))
      in to_int32 (max (- (2 ^ 63)) (min (2 ^ 63 - 1) (if neg then - v else v))))"

section \<open>Lemmas: characters\<close>

lemma code_bound [simp]: "code c < 256"
  by (simp add: code_def)

lemma code_eq_iff: "code a = code b \<longleftrightarrow> a = b"
  by (simp add: code_def)

lemma code_char_of [simp]: "n < 256 \<Longrightarrow> code (char_of n) = n"
  by (simp add: code_def)

lemma char_of_code [simp]: "char_of (code c) = c"
  by (simp add: code_def)

lemma code_NUL [simp]: "code NUL = 0"
  by (simp add: code_def)

lemma code_0_iff [simp]: "code c = 0 \<longleftrightarrow> c = NUL"
  using code_eq_iff [of c NUL] by simp

lemma code_gr_0_iff [simp]: "0 < code c \<longleftrightarrow> c \<noteq> NUL"
  using code_0_iff [of c] by (simp del: code_0_iff add: neq0_conv [symmetric])

lemma tolower_NUL_iff [simp]: "tolower c = NUL \<longleftrightarrow> c = NUL"
proof (cases "65 \<le> code c \<and> code c \<le> 90")
  case True
  then have "code (tolower c) = code c + 32"
    by (simp add: tolower_def)
  with True have "code (tolower c) \<noteq> 0" "code c \<noteq> 0" by (linarith, linarith)
  then show ?thesis by simp
next
  case False
  then show ?thesis by (auto simp: tolower_def)
qed

lemma tolower_NUL [simp]: "tolower NUL = NUL"
  by simp

lemma NUL_eq_tolower_iff [simp]: "NUL = tolower c \<longleftrightarrow> c = NUL"
  using tolower_NUL_iff [of c] by (simp only: eq_commute)

lemma tolower_idem [simp]: "tolower (tolower c) = tolower c"
  by (simp add: tolower_def)

lemma hd_c_eq: "hd_c s = at_c s 0"
  by (cases s) (auto simp: at_c_def)

lemma cstr_Nil [simp]: "cstr [] = []"
  by (simp add: cstr_def)

lemma cstr_Cons: "cstr (c # s) = (if c = NUL then [] else c # cstr s)"
  by (simp add: cstr_def)

lemma cstr_no_NUL: "NUL \<notin> set s \<Longrightarrow> cstr s = s"
  by (induction s) (auto simp: cstr_Cons)

lemma NUL_notin_cstr [simp]: "NUL \<notin> set (cstr s)"
  by (induction s) (auto simp: cstr_Cons)

lemma cstr_idem [simp]: "cstr (cstr s) = cstr s"
  by (simp add: cstr_no_NUL)

lemma length_cstr_le: "length (cstr s) \<le> length s"
  by (simp add: cstr_def length_takeWhile_le)

section \<open>Lemmas: comparisons\<close>

text \<open>
  The two comparisons accept exactly when the C strings agree on their first \<open>n\<close> bytes,
  up to case for \<open>strncasecmp\<close>.
\<close>

lemma strncmp_eq_0 [c_str]: "strncmp a b n = 0 \<longleftrightarrow> take n (cstr a) = take n (cstr b)"
proof (induction a b n rule: strncmp.induct)
  case (1 a b)
  then show ?case by simp
next
  case (2 a b n)
  then show ?case
    by (cases a; cases b) (auto simp: cstr_Cons code_eq_iff)
qed

lemma strncasecmp_eq_0 [c_str]:
  "strncasecmp a b n = 0 \<longleftrightarrow> map tolower (take n (cstr a)) = map tolower (take n (cstr b))"
proof (induction a b n rule: strncasecmp.induct)
  case (1 a b)
  then show ?case by simp
next
  case (2 a b n)
  show ?case
  proof (cases "a = [] \<or> b = []")
    case True
    then show ?thesis
      by (cases a; cases b) (auto simp: cstr_Cons)
  next
    case False
    then obtain x xs y ys where ab: "a = x # xs" "b = y # ys"
      by (meson list.exhaust)
    show ?thesis
    proof (cases "tolower x = tolower y")
      case True
      then have "x = NUL \<longleftrightarrow> y = NUL" by (metis tolower_NUL_iff)
      with True "2.IH" show ?thesis
        by (simp add: ab cstr_Cons)
    next
      case False
      then have "code (tolower x) \<noteq> code (tolower y)"
        by (simp add: code_eq_iff)
      with False show ?thesis
        by (auto simp: ab cstr_Cons)
    qed
  qed
qed

lemma take_cstr [simp]: "length s \<le> n \<Longrightarrow> take n (cstr s) = cstr s"
  by (meson le_trans length_cstr_le take_all)

lemma take_Suc_eq: "take (Suc n) ys = xs \<Longrightarrow> length xs \<le> n \<Longrightarrow> ys = xs"
  by (auto simp: min_def split: if_splits)

lemma strcmp_eq_0 [c_str]: "strcmp a b = 0 \<longleftrightarrow> cstr a = cstr b"
  using length_cstr_le [of a] take_Suc_eq [of "length a" "cstr b" "cstr a"]
  by (auto simp: strcmp_def strncmp_eq_0 simp del: strncmp.simps)

lemma strcasecmp_eq_0 [c_str]:
  "strcasecmp a b = 0 \<longleftrightarrow> map tolower (cstr a) = map tolower (cstr b)"
  using length_cstr_le [of a]
    take_Suc_eq [of "length a" "map tolower (cstr b)" "map tolower (cstr a)"]
    take_all [of "map tolower (cstr b)" "Suc (length a)"] map_eq_imp_length_eq [of tolower "cstr a" tolower "cstr b"]
  by (auto simp: strcasecmp_def strncasecmp_eq_0 take_map simp del: strncasecmp.simps)

section \<open>Lemmas: searching and copying\<close>

lemma memchr_Some [c_str]:
  "memchr s p c n = Some q \<longleftrightarrow>
     p \<le> q \<and> q < p + n \<and> at_c s q = c \<and> (\<forall>i. p \<le> i \<and> i < q \<longrightarrow> at_c s i \<noteq> c)"
proof (induction s p c n rule: memchr.induct)
  case (1 s p c)
  then show ?case by auto
next
  case (2 s p c n)
  show ?case
  proof (cases "at_c s p = c")
    case True
    then show ?thesis by (auto simp: le_less)
  next
    case False
    have "(\<forall>i. Suc p \<le> i \<and> i < q \<longrightarrow> at_c s i \<noteq> c) \<longleftrightarrow> (\<forall>i. p \<le> i \<and> i < q \<longrightarrow> at_c s i \<noteq> c)"
      by (metis False Suc_le_eq le_neq_implies_less less_imp_le)
    moreover have "at_c s q = c \<Longrightarrow> p \<le> q \<longleftrightarrow> Suc p \<le> q"
      using False by (auto simp: Suc_le_eq le_less)
    ultimately show ?thesis
      using False "2.IH" by auto
  qed
qed

lemma memchr_None [c_str]:
  "memchr s p c n = None \<longleftrightarrow> (\<forall>i. p \<le> i \<and> i < p + n \<longrightarrow> at_c s i \<noteq> c)"
proof (induction s p c n rule: memchr.induct)
  case (1 s p c)
  then show ?case by auto
next
  case (2 s p c n)
  have "(\<forall>i. p \<le> i \<and> i < Suc (p + n) \<longrightarrow> at_c s i \<noteq> c) \<longleftrightarrow>
      at_c s p \<noteq> c \<and> (\<forall>i. Suc p \<le> i \<and> i < Suc (p + n) \<longrightarrow> at_c s i \<noteq> c)"
    by (metis Suc_le_eq le_add1 le_imp_less_Suc le_neq_implies_less less_imp_le order_refl)
  with 2 show ?case by auto
qed

lemma length_slice [simp]: "length (slice s p n) = n"
  by (simp add: slice_def)

lemma slice_0 [simp]: "slice s p 0 = []"
  by (simp add: slice_def)

lemma nth_slice [simp]: "i < n \<Longrightarrow> slice s p n ! i = at_c s (p + i)"
  by (simp add: slice_def)

text \<open>A copy that stays inside the buffer is the sublist.\<close>

lemma slice_eq_take_drop: "p + n \<le> length s \<Longrightarrow> slice s p n = take n (drop p s)"
  by (rule nth_equalityI) (auto simp: at_c_def)

lemma slice_all [simp]: "slice s 0 (length s) = s"
  by (simp add: slice_eq_take_drop)

lemma at_c_drop: "at_c (drop p s) i = at_c s (p + i)"
  by (auto simp: at_c_def)

lemma at_c_append1: "i < length s \<Longrightarrow> at_c (s @ t) i = at_c s i"
  by (simp add: at_c_def nth_append)

section \<open>Splitting at a separator\<close>

text \<open>The list of the fields of a string that a separator character delimits.\<close>

fun split_on :: "char \<Rightarrow> string \<Rightarrow> string list" where
  "split_on c [] = [[]]"
| "split_on c (x # xs) =
     (if x = c then [] # split_on c xs else (x # hd (split_on c xs)) # tl (split_on c xs))"

lemma split_on_nonempty [simp]: "split_on c s \<noteq> []"
  by (cases s) auto

lemma length_split_on: "length (split_on c s) = Suc (count_list s c)"
  by (induction s) (auto simp: Suc_diff_Suc)

lemma split_on_no_sep: "c \<notin> set s \<Longrightarrow> split_on c s = [s]"
  by (induction s) auto

lemma split_on_append: "c \<notin> set s \<Longrightarrow> split_on c (s @ c # t) = s # split_on c t"
  by (induction s) auto

lemma sep_notin_split_on: "f \<in> set (split_on c s) \<Longrightarrow> c \<notin> set f"
proof (induction s arbitrary: f)
  case Nil
  then show ?case by simp
next
  case (Cons x xs)
  then show ?case
    by (auto split: if_splits) (metis list.set_sel split_on_nonempty)+
qed

section \<open>Lemmas: numbers\<close>

declare show_nat.simps [simp del] show_hex.simps [simp del]

lemma code_digit [simp]: "d < 10 \<Longrightarrow> code (digit d) = 48 + d"
  by (simp add: digit_def)

lemma isdigit_digit [simp]: "d < 10 \<Longrightarrow> isdigit (digit d)"
  by (simp add: isdigit_def)

lemma read_digits_snoc: "read_digits (s @ [c]) = 10 * read_digits s + (code c - 48)"
  by (simp add: read_digits_def)

lemma read_digits_Nil [simp]: "read_digits [] = 0"
  by (simp add: read_digits_def)

lemma show_nat_digits [c_num]: "c \<in> set (show_nat n) \<Longrightarrow> isdigit c"
  by (induction n rule: show_nat.induct) (subst (asm) (2) show_nat.simps, auto split: if_splits)

lemma read_show_nat [c_num, simp]: "read_digits (show_nat n) = n"
proof (induction n rule: show_nat.induct)
  case (1 n)
  show ?case
  proof (cases "n < 10")
    case True
    then show ?thesis
      using read_digits_snoc [of "[]" "digit n"] by (simp add: show_nat.simps)
  next
    case False
    with 1 show ?thesis
      by (subst show_nat.simps) (simp add: read_digits_snoc)
  qed
qed

lemma show_nat_nonempty [simp]: "show_nat n \<noteq> []"
  by (subst show_nat.simps) simp

lemma show_nat_inj: "show_nat m = show_nat n \<longleftrightarrow> m = n"
  by (metis read_show_nat)

lemma length_show_nat_le: "n < 10 ^ k \<Longrightarrow> 0 < k \<Longrightarrow> length (show_nat n) \<le> k"
proof (induction n arbitrary: k rule: show_nat.induct)
  case (1 n)
  show ?case
  proof (cases "n < 10")
    case True
    then show ?thesis using "1.prems" by (subst show_nat.simps) simp
  next
    case False
    with "1.prems" obtain j where k: "k = Suc j" "0 < j"
      by (cases k) (fastforce intro: gr0I)+
    with "1.prems" have "n div 10 < 10 ^ j" by (simp add: less_mult_imp_div_less)
    with False "1.IH" k have "length (show_nat (n div 10)) \<le> j" by blast
    with False k show ?thesis by (subst show_nat.simps) simp
  qed
qed

lemma to_int32_id: "- (2 ^ 31) \<le> i \<Longrightarrow> i < 2 ^ 31 \<Longrightarrow> to_int32 i = i"
  by (simp add: to_int32_def)

lemma to_int32_range: "- (2 ^ 31) \<le> to_int32 i \<and> to_int32 i < 2 ^ 31"
proof -
  have "0 \<le> (i + 2 ^ 31) mod 2 ^ 32" "(i + 2 ^ 31) mod 2 ^ 32 < (2 ^ 32 :: int)"
    by simp_all
  then show ?thesis by (simp add: to_int32_def)
qed

lemma xval_xdigit [simp]: "d < 16 \<Longrightarrow> xval (xdigit d) = d"
  by (auto simp: xval_def xdigit_def isdigit_def)

lemma isxdigit_xdigit [simp]: "d < 16 \<Longrightarrow> isxdigit (xdigit d)"
  by (auto simp: isxdigit_def xdigit_def isdigit_def)

lemma read_hex_snoc: "read_hex (s @ [c]) = 16 * read_hex s + xval c"
  by (simp add: read_hex_def)

lemma show_hex_digits [c_num]: "c \<in> set (show_hex n) \<Longrightarrow> isxdigit c"
  by (induction n rule: show_hex.induct) (subst (asm) (2) show_hex.simps, auto split: if_splits)

lemma read_show_hex [c_num, simp]: "read_hex (show_hex n) = n"
proof (induction n rule: show_hex.induct)
  case (1 n)
  show ?case
  proof (cases "n < 16")
    case True
    then show ?thesis
      using read_hex_snoc [of "[]" "xdigit n"] by (simp add: show_hex.simps read_hex_def)
  next
    case False
    with 1 show ?thesis
      by (subst show_hex.simps) (simp add: read_hex_snoc)
  qed
qed

lemma hd_show_nat: "hd_c (show_nat n) = CHR ''0'' \<longleftrightarrow> n = 0"
proof (induction n rule: show_nat.induct)
  case (1 n)
  have code_0: "code (CHR ''0'') = 48" by (simp add: code_def)
  show ?case
  proof (cases "n < 10")
    case True
    then have "digit n = CHR ''0'' \<longleftrightarrow> n = 0"
      using code_digit [of n] code_0 code_eq_iff [of "digit n" "CHR ''0''"] by simp
    with True show ?thesis by (simp add: show_nat.simps)
  next
    case False
    then have "hd_c (show_nat n) = hd_c (show_nat (n div 10))"
      by (subst show_nat.simps) (cases "show_nat (n div 10)"; simp)
    moreover have "n div 10 \<noteq> 0" using False by (simp add: div_eq_0_iff)
    ultimately show ?thesis using 1 False by simp
  qed
qed

lemma hd_c_append: "s \<noteq> [] \<Longrightarrow> hd_c (s @ t) = hd_c s"
  by (cases s) simp_all

lemma isdigit_hd_show_nat: "isdigit (hd_c (show_nat n))"
  by (cases "show_nat n") (auto intro: show_nat_digits [of _ n])

lemma show_nat_less: "n < 10 ^ length (show_nat n)"
proof (induction n rule: show_nat.induct)
  case (1 n)
  show ?case
  proof (cases "n < 10")
    case False
    then have "length (show_nat n) = Suc (length (show_nat (n div 10)))" by (simp add: show_nat.simps [of n])
    with 1 False show ?thesis by (simp add: div_less_iff_less_mult mult.commute)
  qed (simp add: show_nat.simps)
qed

end
