(* ===== verification/Jansson.thy ===== *)
theory Jansson
  imports C_Lib
begin

text \<open>
  The part of the embedded JSON library that webdis calls: the value type and its
  constructors (\<open>jansson/src/value.c\<close>), objects that keep the order of insertion
  (\<open>jansson/src/hashtable.c\<close>), the UTF-8 checks (\<open>jansson/src/utf.c\<close>) and the compact
  printer (\<open>jansson/src/dump.c\<close> with the flag \<open>JSON_COMPACT\<close>). Allocation succeeds.
  A \<open>json_t*\<close> that may be null is a \<open>json option\<close>.
\<close>

section \<open>UTF-8\<close>

text \<open>\<open>utf8_encode\<close>: the bytes of a code point, nothing for a number out of range.\<close>

definition utf8_encode :: "nat \<Rightarrow> string option" where
  "utf8_encode cp =
     (if cp < 0x80 then Some [char_of cp]
      else if cp < 0x800 then
        Some [char_of (0xC0 + cp div 64), char_of (0x80 + cp mod 64)]
      else if cp < 0x10000 then
        Some [char_of (0xE0 + cp div 4096), char_of (0x80 + cp div 64 mod 64), char_of (0x80 + cp mod 64)]
      else if cp \<le> 0x10FFFF then
        Some [char_of (0xF0 + cp div 262144), char_of (0x80 + cp div 4096 mod 64),
              char_of (0x80 + cp div 64 mod 64), char_of (0x80 + cp mod 64)]
      else None)"

text \<open>The length of a sequence from its first byte, 0 for a byte that starts none.\<close>

definition utf8_check_first :: "char \<Rightarrow> nat" where
  "utf8_check_first byte =
     (let u = code byte in
      if u < 0x80 then 1
      else if 0x80 \<le> u \<and> u \<le> 0xBF then 0
      else if u = 0xC0 \<or> u = 0xC1 then 0
      else if 0xC2 \<le> u \<and> u \<le> 0xDF then 2
      else if 0xE0 \<le> u \<and> u \<le> 0xEF then 3
      else if 0xF0 \<le> u \<and> u \<le> 0xF4 then 4
      else 0)"

text \<open>The loop of \<open>utf8_check_full\<close> over the continuation bytes.\<close>

fun utf8_cont :: "nat \<Rightarrow> string \<Rightarrow> nat option" where
  "utf8_cont value [] = Some value"
| "utf8_cont value (c # cs) =
     (if code c < 0x80 \<or> code c > 0xBF then None
      else utf8_cont (value * 64 + code c mod 64) cs)"

definition utf8_check_full :: "string \<Rightarrow> nat \<Rightarrow> nat option" where
  "utf8_check_full buffer sz =
     (let u = code (hd_c buffer) in
      if sz < 2 \<or> 4 < sz then None
      else do {
        value \<leftarrow> utf8_cont (if sz = 2 then u mod 32 else if sz = 3 then u mod 16 else u mod 8)
                    (take (sz - 1) (tl buffer));
        (if value > 0x10FFFF then None
         else if 0xD800 \<le> value \<and> value \<le> 0xDFFF then None
         else if (sz = 2 \<and> value < 0x80) \<or> (sz = 3 \<and> value < 0x800) \<or> (sz = 4 \<and> value < 0x10000)
         then None
         else Some value)
      })"

text \<open>\<open>utf8_iterate\<close> on a buffer that is not empty: the code point and how many bytes it takes.\<close>

definition utf8_iterate :: "string \<Rightarrow> (nat \<times> nat) option" where
  "utf8_iterate buffer =
     (let count = utf8_check_first (hd_c buffer) in
      if count = 0 then None
      else if count = 1 then Some (code (hd_c buffer), 1)
      else if count > length buffer then None
      else map_option (\<lambda>value. (value, count)) (utf8_check_full buffer count))"

function utf8_check_string :: "string \<Rightarrow> bool" where
  "utf8_check_string s =
     (if s = [] then True
      else let count = utf8_check_first (hd_c s) in
        if count = 0 then False
        else if count > 1 then
          (if count > length s then False
           else if utf8_check_full s count = None then False
           else utf8_check_string (drop count s))
        else utf8_check_string (tl s))"
  by pat_completeness auto
termination
  by (relation "measure length") auto

declare utf8_check_string.simps [simp del]

section \<open>Values\<close>

text \<open>
  A real number carries the text that \<open>jsonp_dtostr\<close> prints for it; webdis reads reals in a
  configuration file and ignores them, and prints none.
\<close>

datatype json =
    JSON_OBJECT "(string \<times> json) list"
  | JSON_ARRAY "json list"
  | JSON_STRING string
  | JSON_INTEGER int
  | JSON_REAL string
  | JSON_TRUE
  | JSON_FALSE
  | JSON_NULL

text \<open>\<open>json_string\<close> takes a C string and refuses one that is not UTF-8.\<close>

definition json_string :: "string \<Rightarrow> json option" where
  "json_string value =
     (if utf8_check_string (cstr value) then Some (JSON_STRING (cstr value)) else None)"

text \<open>
  \<open>hashtable_set\<close> on the list of pairs in the order of insertion: the value of a key that is
  present is replaced where it stands, a new pair goes to the end. \<open>hashtable_get\<close>.
\<close>

fun hashtable_set :: "(string \<times> json) list \<Rightarrow> string \<Rightarrow> json \<Rightarrow> (string \<times> json) list" where
  "hashtable_set [] key value = [(key, value)]"
| "hashtable_set ((k, v) # ps) key value =
     (if k = key then (k, value) # ps else (k, v) # hashtable_set ps key value)"

fun hashtable_get :: "(string \<times> json) list \<Rightarrow> string \<Rightarrow> json option" where
  "hashtable_get [] key = None"
| "hashtable_get ((k, v) # ps) key = (if k = key then Some v else hashtable_get ps key)"

text \<open>
  \<open>json_object_set_new\<close>: a null value, a key that is not UTF-8 and a target that is no object
  leave the target as it is (the function returns -1, which webdis ignores).
\<close>

definition json_object_set_new :: "json \<Rightarrow> string \<Rightarrow> json option \<Rightarrow> json" where
  "json_object_set_new j key value =
     (case (j, value) of
        (JSON_OBJECT ps, Some v) \<Rightarrow>
          if utf8_check_string (cstr key) then JSON_OBJECT (hashtable_set ps (cstr key) v) else j
      | _ \<Rightarrow> j)"

definition json_object_get :: "json \<Rightarrow> string \<Rightarrow> json option" where
  "json_object_get j key =
     (case j of JSON_OBJECT ps \<Rightarrow> hashtable_get ps (cstr key) | _ \<Rightarrow> None)"

definition json_array_append_new :: "json \<Rightarrow> json option \<Rightarrow> json" where
  "json_array_append_new j value =
     (case (j, value) of (JSON_ARRAY xs, Some v) \<Rightarrow> JSON_ARRAY (xs @ [v]) | _ \<Rightarrow> j)"

text \<open>The members of an array, what \<open>json_array_size\<close> and \<open>json_array_get\<close> give of it.\<close>

fun json_elements :: "json \<Rightarrow> json list" where
  "json_elements (JSON_ARRAY xs) = xs"
| "json_elements _ = []"

text \<open>The pairs of an object in the order \<open>json_object_iter\<close> visits them.\<close>

fun json_object_items :: "json \<Rightarrow> (string \<times> json) list" where
  "json_object_items (JSON_OBJECT ps) = ps"
| "json_object_items _ = []"

fun json_string_value :: "json \<Rightarrow> string option" where
  "json_string_value (JSON_STRING s) = Some s"
| "json_string_value _ = None"

fun json_integer_value :: "json \<Rightarrow> int" where
  "json_integer_value (JSON_INTEGER i) = i"
| "json_integer_value _ = 0"

text \<open>The tests of \<open>json_typeof\<close>.\<close>

fun json_is_object :: "json \<Rightarrow> bool" where
  "json_is_object (JSON_OBJECT _) = True"
| "json_is_object _ = False"

fun json_is_array :: "json \<Rightarrow> bool" where
  "json_is_array (JSON_ARRAY _) = True"
| "json_is_array _ = False"

fun json_is_string :: "json \<Rightarrow> bool" where
  "json_is_string (JSON_STRING _) = True"
| "json_is_string _ = False"

fun json_is_integer :: "json \<Rightarrow> bool" where
  "json_is_integer (JSON_INTEGER _) = True"
| "json_is_integer _ = False"

definition json_is_boolean :: "json \<Rightarrow> bool" where
  "json_is_boolean j = (j = JSON_TRUE \<or> j = JSON_FALSE)"

section \<open>Printing\<close>

text \<open>The escape sequence of a code point that has to be escaped: \<open>\, "\<close> or a control code.\<close>

definition json_escape :: "nat \<Rightarrow> string" where
  "json_escape codepoint =
     (if codepoint = 92 then [CHR 0x5C, CHR 0x5C]
      else if codepoint = 34 then [CHR 0x5C, DQUOTE]
      else if codepoint = 8 then [CHR 0x5C, CHR ''b'']
      else if codepoint = 12 then [CHR 0x5C, CHR ''f'']
      else if codepoint = 10 then [CHR 0x5C, CHR ''n'']
      else if codepoint = 13 then [CHR 0x5C, CHR ''r'']
      else if codepoint = 9 then [CHR 0x5C, CHR ''t'']
      else CHR 0x5C # CHR ''u'' # CHR ''0'' # CHR ''0'' #
        [toupper (xdigit (codepoint div 16)), toupper (xdigit (codepoint mod 16))])"

function dump_text :: "string \<Rightarrow> string option" where
  "dump_text s =
     (if s = [] then Some []
      else case utf8_iterate s of
        None \<Rightarrow> None
      | Some (codepoint, n) \<Rightarrow> do {
          rest \<leftarrow> dump_text (drop (max 1 n) s);
          Some ((if codepoint = 92 \<or> codepoint = 34 \<or> codepoint < 0x20 then json_escape codepoint
                 else take n s) @ rest)
        })"
  by pat_completeness auto
termination
  by (relation "measure length") auto

declare dump_text.simps [simp del]

definition dump_string :: "string \<Rightarrow> string option" where
  "dump_string s = do { t \<leftarrow> dump_text s; Some (DQUOTE # t @ [DQUOTE]) }"

fun join_comma :: "string list \<Rightarrow> string" where
  "join_comma [] = []"
| "join_comma [x] = x"
| "join_comma (x # y # ys) = x @ CHR '','' # join_comma (y # ys)"

fun sequence_opt :: "'a option list \<Rightarrow> 'a list option" where
  "sequence_opt [] = Some []"
| "sequence_opt (x # xs) = do { y \<leftarrow> x; ys \<leftarrow> sequence_opt xs; Some (y # ys) }"

text \<open>
  \<open>do_dump\<close> without indentation. A value is a finite tree, so the check for circular
  references never fails. The keys of an object are UTF-8 (\<open>json_object_set_new\<close> checks them), so
  printing a key never fails either; the code ignores the result of that call.
\<close>

fun do_dump :: "json \<Rightarrow> string option" where
  "do_dump JSON_NULL = Some ''null''"
| "do_dump JSON_TRUE = Some ''true''"
| "do_dump JSON_FALSE = Some ''false''"
| "do_dump (JSON_INTEGER i) = Some (show_int i)"
| "do_dump (JSON_REAL t) = Some t"
| "do_dump (JSON_STRING s) = dump_string s"
| "do_dump (JSON_ARRAY xs) = do {
     ts \<leftarrow> sequence_opt (map do_dump xs);
     Some (CHR ''['' # join_comma ts @ '']'')
   }"
| "do_dump (JSON_OBJECT ps) = do {
     ts \<leftarrow> sequence_opt (map (\<lambda>(k, v). do {
       tk \<leftarrow> dump_string k; tv \<leftarrow> do_dump v; Some (tk @ CHR '':'' # tv) }) ps);
     Some (CHR ''{'' # join_comma ts @ ''}'')
   }"

text \<open>\<open>json_dumps(j, JSON_COMPACT)\<close> prints arrays and objects only.\<close>

definition json_dumps :: "json \<Rightarrow> string option" where
  "json_dumps j =
     (case j of JSON_ARRAY _ \<Rightarrow> do_dump j | JSON_OBJECT _ \<Rightarrow> do_dump j | _ \<Rightarrow> None)"

section \<open>Lemmas: UTF-8\<close>

text \<open>The Unicode scalar values.\<close>

definition scalar_value :: "nat \<Rightarrow> bool" where
  "scalar_value cp \<longleftrightarrow> cp \<le> 0x10FFFF \<and> \<not> (0xD800 \<le> cp \<and> cp \<le> 0xDFFF)"

lemma mod_of_offset: "k * m \<le> u \<Longrightarrow> u < k * m + m \<Longrightarrow> u mod m = u - k * m" for u :: nat
  by (metis add_diff_inverse_nat add_less_cancel_left linorder_not_less mod_less mod_mult_self3)

lemmas utf8_mods =
  mod_of_offset [of 6 32, simplified] mod_of_offset [of 14 16, simplified]
  mod_of_offset [of 30 8, simplified] mod_of_offset [of 2 64, simplified]

text \<open>One sequence of each length, by the values of its bytes.\<close>

lemma utf8_iterate_1: "a < 0x80 \<Longrightarrow> utf8_iterate (char_of a # rest) = Some (a, 1)"
  by (simp add: utf8_iterate_def utf8_check_first_def)

lemma utf8_iterate_2:
  assumes "0xC2 \<le> a" "a \<le> 0xDF" "0x80 \<le> b" "b \<le> 0xBF"
  shows "utf8_iterate (char_of a # char_of b # rest) = Some ((a - 0xC0) * 64 + (b - 0x80), 2)"
proof -
  have "0x80 \<le> (a - 0xC0) * 64 + (b - 0x80)" "(a - 0xC0) * 64 + (b - 0x80) < 0xD800"
    using assms by linarith+
  then show ?thesis
    using assms
    by (simp add: utf8_iterate_def utf8_check_first_def utf8_check_full_def utf8_mods)
qed

lemma utf8_iterate_3:
  assumes "0xE0 \<le> a" "a \<le> 0xEF" "0x80 \<le> b" "b \<le> 0xBF" "0x80 \<le> c" "c \<le> 0xBF"
    and "cp = ((a - 0xE0) * 64 + (b - 0x80)) * 64 + (c - 0x80)" "0x800 \<le> cp" "scalar_value cp"
  shows "utf8_iterate (char_of a # char_of b # char_of c # rest) = Some (cp, 3)"
  using assms
  by (simp add: utf8_iterate_def utf8_check_first_def utf8_check_full_def utf8_mods
      numeral_3_eq_3 scalar_value_def)

lemma utf8_iterate_4:
  assumes "0xF0 \<le> a" "a \<le> 0xF4" "0x80 \<le> b" "b \<le> 0xBF" "0x80 \<le> c" "c \<le> 0xBF" "0x80 \<le> d" "d \<le> 0xBF"
    and "cp = (((a - 0xF0) * 64 + (b - 0x80)) * 64 + (c - 0x80)) * 64 + (d - 0x80)"
    and "0x10000 \<le> cp" "scalar_value cp"
  shows "utf8_iterate (char_of a # char_of b # char_of c # char_of d # rest) = Some (cp, 4)"
  using assms
  by (simp add: utf8_iterate_def utf8_check_first_def utf8_check_full_def utf8_mods
      numeral_3_eq_3 scalar_value_def)

lemma utf8_iterate_encode:
  assumes "scalar_value cp" and "utf8_encode cp = Some bs"
  shows "utf8_iterate (bs @ rest) = Some (cp, length bs)"
proof -
  define q r t where "q = cp div 64" and "r = q div 64" and "t = r div 64"
  have div: "cp div 4096 = r" "cp div 262144 = t"
    by (simp_all add: q_def r_def t_def div_mult2_eq [symmetric])
  have pack: "q * 64 + cp mod 64 = cp" "r * 64 + q mod 64 = q" "t * 64 + r mod 64 = r"
    by (simp_all add: q_def r_def t_def)
  show ?thesis
  proof (cases "cp < 0x80")
    case True
    with assms(2) show ?thesis
      by (auto simp: utf8_encode_def utf8_iterate_1)
  next
    case ge80: False
    show ?thesis
    proof (cases "cp < 0x800")
      case True
      with ge80 have "2 \<le> q" "q < 32" using pack(1) by linarith+
      with True ge80 assms(2) pack(1) show ?thesis
        by (auto simp: utf8_encode_def q_def [symmetric] utf8_iterate_2)
    next
      case ge800: False
      show ?thesis
      proof (cases "cp < 0x10000")
        case True
        then have "r < 16" using pack(1,2) by linarith
        have "bs = [char_of (0xE0 + r), char_of (0x80 + q mod 64), char_of (0x80 + cp mod 64)]"
          using True ge800 assms(2) by (auto simp: utf8_encode_def div q_def [symmetric])
        moreover have "utf8_iterate (char_of (0xE0 + r) # char_of (0x80 + q mod 64) # char_of (0x80 + cp mod 64) # rest)
            = Some (cp, 3)"
          by (rule utf8_iterate_3) (use \<open>r < 16\<close> ge800 assms(1) pack(1,2) in auto)
        ultimately show ?thesis by (simp add: numeral_3_eq_3)
      next
        case False
        have "t < 5" using assms(1) pack unfolding scalar_value_def by linarith
        have "bs = [char_of (0xF0 + t), char_of (0x80 + r mod 64), char_of (0x80 + q mod 64), char_of (0x80 + cp mod 64)]"
          using False ge800 assms by (auto simp: utf8_encode_def div q_def [symmetric] split: if_splits)
        moreover have "utf8_iterate (char_of (0xF0 + t) # char_of (0x80 + r mod 64) # char_of (0x80 + q mod 64)
            # char_of (0x80 + cp mod 64) # rest) = Some (cp, 4)"
          by (rule utf8_iterate_4) (use \<open>t < 5\<close> False assms(1) pack in auto)
        ultimately show ?thesis by simp
      qed
    qed
  qed
qed

lemma utf8_cont_Cons_Some:
  "utf8_cont v (c # cs) = Some w \<longleftrightarrow>
     (\<exists>b<64. c = char_of (0x80 + b) \<and> utf8_cont (v * 64 + b) cs = Some w)"
proof
  assume l: "utf8_cont v (c # cs) = Some w"
  then have b: "0x80 \<le> code c" "code c \<le> 0xBF" by (auto split: if_splits)
  then have m: "code c mod 64 = code c - 0x80" by (simp add: utf8_mods)
  with l b have "utf8_cont (v * 64 + (code c - 0x80)) cs = Some w" by simp
  with b show "\<exists>b<64. c = char_of (0x80 + b) \<and> utf8_cont (v * 64 + b) cs = Some w"
    by (intro exI [of _ "code c - 0x80"]) simp
next
  assume "\<exists>b<64. c = char_of (0x80 + b) \<and> utf8_cont (v * 64 + b) cs = Some w"
  then obtain b where b: "b < 64" "c = char_of (0x80 + b)" "utf8_cont (v * 64 + b) cs = Some w"
    by blast
  then have "code c mod 64 = b" by (simp add: utf8_mods)
  with b show "utf8_cont v (c # cs) = Some w" by simp
qed

declare utf8_cont.simps(2) [simp del]

lemma utf8_check_full_Some:
  "utf8_check_full s sz = Some cp \<longleftrightarrow>
     2 \<le> sz \<and> sz \<le> 4 \<and> scalar_value cp \<and> (if sz = 2 then 0x80 else if sz = 3 then 0x800 else 0x10000) \<le> cp \<and>
     utf8_cont (if sz = 2 then code (hd_c s) mod 32 else if sz = 3 then code (hd_c s) mod 16 else code (hd_c s) mod 8)
       (take (sz - 1) (tl s)) = Some cp"
  by (auto simp: utf8_check_full_def scalar_value_def Let_def not_less not_le bind_eq_Some_conv
      split: if_splits)

lemma pack64: "r < 64 \<Longrightarrow> (q * 64 + r) div 64 = q \<and> (q * 64 + r) mod 64 = r" for r :: nat
  by simp

text \<open>A first byte with its payload bits; the ranges of \<open>utf8_check_first\<close>.\<close>

lemma utf8_first_cases:
  assumes "utf8_check_first x \<noteq> 0"
  obtains (one) a :: nat where "x = char_of a" "a < 0x80" "utf8_check_first x = 1"
  | (two) a where "x = char_of (0xC0 + a)" "a < 32" "code x mod 32 = a" "utf8_check_first x = 2"
  | (three) a where "x = char_of (0xE0 + a)" "a < 16" "code x mod 16 = a" "utf8_check_first x = 3"
  | (four) a where "x = char_of (0xF0 + a)" "a < 5" "code x mod 8 = a" "utf8_check_first x = 4"
proof -
  consider "code x < 0x80" | "0xC2 \<le> code x" "code x \<le> 0xDF"
    | "0xE0 \<le> code x" "code x \<le> 0xEF" | "0xF0 \<le> code x" "code x \<le> 0xF4"
    using assms by (auto simp: utf8_check_first_def Let_def split: if_splits)
  then show thesis
  proof cases
    case 1
    then show ?thesis by (intro one [of "code x"]) (auto simp: utf8_check_first_def)
  next
    case 2
    then show ?thesis by (intro two [of "code x - 0xC0"]) (auto simp: utf8_check_first_def utf8_mods)
  next
    case 3
    then show ?thesis by (intro three [of "code x - 0xE0"]) (auto simp: utf8_check_first_def utf8_mods)
  next
    case 4
    then show ?thesis by (intro four [of "code x - 0xF0"]) (auto simp: utf8_check_first_def utf8_mods)
  qed
qed

text \<open>The continuation bytes of a sequence of each length.\<close>

lemma utf8_cont_1: "utf8_cont v [y] = Some w \<longleftrightarrow> (\<exists>b<64. y = char_of (0x80 + b) \<and> w = v * 64 + b)"
  by (auto simp: utf8_cont_Cons_Some)

lemma utf8_cont_2:
  "utf8_cont v [y, z] = Some w \<longleftrightarrow>
     (\<exists>b<64. \<exists>c<64. y = char_of (0x80 + b) \<and> z = char_of (0x80 + c) \<and> w = (v * 64 + b) * 64 + c)"
  by (simp only: utf8_cont_Cons_Some [of v] utf8_cont_1) blast

lemma utf8_cont_3:
  "utf8_cont v [y, z, x] = Some w \<longleftrightarrow>
     (\<exists>b<64. \<exists>c<64. \<exists>d<64. y = char_of (0x80 + b) \<and> z = char_of (0x80 + c) \<and> x = char_of (0x80 + d) \<and>
        w = ((v * 64 + b) * 64 + c) * 64 + d)"
  by (simp only: utf8_cont_Cons_Some [of v] utf8_cont_2) blast

lemma utf8_iterate_sound:
  assumes "s \<noteq> []" and it: "utf8_iterate s = Some (cp, n)"
  shows "scalar_value cp \<and> utf8_encode cp = Some (take n s) \<and> 0 < n \<and> n \<le> length s"
proof -
  obtain x xs where s: "s = x # xs" using assms(1) by (cases s) auto
  from it s have "utf8_check_first x \<noteq> 0" by (auto simp: utf8_iterate_def Let_def split: if_splits)
  then show ?thesis
  proof (cases rule: utf8_first_cases)
    case (one a)
    with it s have "n = 1" "cp = a" by (auto simp: utf8_iterate_def)
    with one s show ?thesis by (simp add: utf8_encode_def scalar_value_def)
  next
    case (two a)
    with it s have n: "n = 2" "xs \<noteq> []" and full: "utf8_check_full s 2 = Some cp"
      by (auto simp: utf8_iterate_def split: if_splits)
    then obtain y ys where xs: "xs = y # ys" by (cases xs) auto
    with full two s obtain b where b: "b < 64" "y = char_of (0x80 + b)" "cp = a * 64 + b"
      and cp: "scalar_value cp" "0x80 \<le> cp"
      by (auto simp: utf8_check_full_Some utf8_cont_1)
    then have "cp < 0x800" "cp div 64 = a" "cp mod 64 = b" using two by auto
    with cp b n two show ?thesis by (simp add: s xs utf8_encode_def)
  next
    case (three a)
    with it s have n: "n = 3" "2 \<le> length xs" and full: "utf8_check_full s 3 = Some cp"
      by (auto simp: utf8_iterate_def split: if_splits)
    then obtain y z ys where xs: "xs = y # z # ys" by (cases xs; cases "tl xs") auto
    with full three s have cont: "utf8_cont a [y, z] = Some cp" and cp: "scalar_value cp" "0x800 \<le> cp"
      by (simp_all add: utf8_check_full_Some)
    then obtain b c where b: "b < 64" "y = char_of (0x80 + b)" "c < 64" "z = char_of (0x80 + c)"
        "cp = (a * 64 + b) * 64 + c"
      by (auto simp only: utf8_cont_2)
    define q where "q = a * 64 + b"
    have "q < 1024" using b(1) three(2) unfolding q_def by linarith
    moreover have cpq: "cp = q * 64 + c" using b(5) unfolding q_def .
    ultimately have "cp < 0x10000" using b(3) by linarith
    moreover have "cp div 64 = q" "cp mod 64 = c" "q div 64 = a" "q mod 64 = b"
      using pack64 [OF b(3), of q] pack64 [OF b(1), of a] unfolding cpq q_def by blast+
    moreover have "cp div 4096 = cp div 64 div 64" by (simp add: div_mult2_eq [symmetric])
    ultimately show ?thesis
      using cp b(2,4) n three(1) by (simp only: s xs utf8_encode_def) simp
  next
    case (four a)
    with it s have n: "n = 4" "3 \<le> length xs" and full: "utf8_check_full s 4 = Some cp"
      by (auto simp: utf8_iterate_def split: if_splits)
    then obtain y z w ys where xs: "xs = y # z # w # ys"
      by (cases xs; cases "tl xs"; cases "tl (tl xs)") auto
    with full four s have cont: "utf8_cont a [y, z, w] = Some cp" and cp: "scalar_value cp" "0x10000 \<le> cp"
      by (simp_all add: utf8_check_full_Some)
    then obtain b c d where b: "b < 64" "y = char_of (0x80 + b)" "c < 64" "z = char_of (0x80 + c)"
        "d < 64" "w = char_of (0x80 + d)" "cp = ((a * 64 + b) * 64 + c) * 64 + d"
      by (auto simp only: utf8_cont_3)
    define r q where "r = a * 64 + b" and "q = r * 64 + c"
    have cpq: "cp = q * 64 + d" using b(7) unfolding q_def r_def .
    then have "cp div 64 = q" "cp mod 64 = d" "q div 64 = r" "q mod 64 = c" "r div 64 = a" "r mod 64 = b"
      using pack64 [OF b(5), of q] pack64 [OF b(3), of r] pack64 [OF b(1), of a]
      unfolding q_def r_def by blast+
    moreover have "cp div 4096 = cp div 64 div 64" "cp div 262144 = cp div 64 div 64 div 64"
      by (simp_all add: div_mult2_eq [symmetric])
    ultimately show ?thesis
      using cp b(2,4,6) n four(1) by (simp only: s xs utf8_encode_def) (simp add: scalar_value_def)
  qed
qed

lemma utf8_check_string_step:
  "s \<noteq> [] \<Longrightarrow> utf8_check_string s \<longleftrightarrow>
     (\<exists>cp n. utf8_iterate s = Some (cp, n) \<and> utf8_check_string (drop n s))"
  by (simp add: utf8_check_string.simps [of s] utf8_iterate_def Let_def drop_Suc)

lemma utf8_encode_nonempty: "utf8_encode cp = Some bs \<Longrightarrow> bs \<noteq> []"
  by (auto simp: utf8_encode_def split: if_splits)

lemma utf8_encode_scalar: "scalar_value cp \<Longrightarrow> \<exists>bs. utf8_encode cp = Some bs"
  by (simp add: utf8_encode_def scalar_value_def)

lemma utf8_check_string_Nil [simp]: "utf8_check_string []"
  by (simp add: utf8_check_string.simps)

text \<open>The encoding of a sequence of code points.\<close>

definition utf8_of :: "nat list \<Rightarrow> string" where
  "utf8_of cps = concat (map (\<lambda>cp. the (utf8_encode cp)) cps)"

lemma utf8_of_simps [simp]:
  "utf8_of [] = []"
  "utf8_of (cp # cps) = the (utf8_encode cp) @ utf8_of cps"
  by (simp_all add: utf8_of_def)

lemma utf8_check_string_encodings:
  assumes "\<forall>cp \<in> set cps. scalar_value cp"
  shows "utf8_check_string (utf8_of cps)"
  using assms
proof (induction cps)
  case Nil
  then show ?case by simp
next
  case (Cons cp cps)
  then have cp: "scalar_value cp" by simp
  then obtain bs where bs: "utf8_encode cp = Some bs"
    using utf8_encode_scalar by blast
  from cp bs have "utf8_iterate (bs @ utf8_of cps) = Some (cp, length bs)"
    by (rule utf8_iterate_encode)
  with Cons bs show ?case
    by (simp add: utf8_check_string_step [of "bs @ utf8_of cps"] utf8_encode_nonempty)
qed

lemma utf8_check_string_decodes:
  "utf8_check_string s \<Longrightarrow> \<exists>cps. (\<forall>cp \<in> set cps. scalar_value cp) \<and> s = utf8_of cps"
proof (induction s rule: length_induct)
  case (1 s)
  show ?case
  proof (cases "s = []")
    case True
    then show ?thesis by (intro exI [of _ "[]"]) simp
  next
    case False
    with "1.prems" obtain cp n where it: "utf8_iterate s = Some (cp, n)"
      and rest: "utf8_check_string (drop n s)"
      by (auto simp: utf8_check_string_step)
    from utf8_iterate_sound [OF False it] have
      cp: "scalar_value cp" "utf8_encode cp = Some (take n s)" "0 < n" "n \<le> length s"
      by auto
    with False have "length (drop n s) < length s" by simp
    with "1.IH" rest obtain cps where
      cps: "\<forall>cp \<in> set cps. scalar_value cp" "drop n s = utf8_of cps"
      by blast
    have "s = take n s @ utf8_of cps"
      by (simp add: cps(2) [symmetric])
    with cp cps(1) show ?thesis
      by (intro exI [of _ "cp # cps"]) simp
  qed
qed

section \<open>Lemmas: objects\<close>

text \<open>
  The interface of a keyed container: what a lookup returns after an update, and that an
  update keeps the keys distinct.
\<close>

locale keyed_store =
  fixes upd :: "'m \<Rightarrow> 'k \<Rightarrow> 'v \<Rightarrow> 'm"
    and get :: "'m \<Rightarrow> 'k \<Rightarrow> 'v option"
    and keys :: "'m \<Rightarrow> 'k list"
    and empty :: 'm
  assumes get_empty: "get empty k = None"
    and get_upd: "get (upd m k v) k' = (if k' = k then Some v else get m k')"
    and keys_empty: "keys empty = []"
    and keys_upd: "keys (upd m k v) = (if k \<in> set (keys m) then keys m else keys m @ [k])"
begin

fun upd_all :: "'m \<Rightarrow> ('k \<times> 'v) list \<Rightarrow> 'm" where
  "upd_all m [] = m"
| "upd_all m ((k, v) # kvs) = upd_all (upd m k v) kvs"

lemma distinct_upd: "distinct (keys m) \<Longrightarrow> distinct (keys (upd m k v))"
  by (simp add: keys_upd)

lemma distinct_upd_all: "distinct (keys m) \<Longrightarrow> distinct (keys (upd_all m kvs))"
  by (induction m kvs rule: upd_all.induct) (simp_all add: distinct_upd)

text \<open>The last binding of a key wins.\<close>

lemma get_upd_all:
  "get (upd_all m kvs) k = (case map_of (rev kvs) k of Some v \<Rightarrow> Some v | None \<Rightarrow> get m k)"
  by (induction m kvs rule: upd_all.induct)
     (auto simp: get_upd map_add_def map_add_Some_iff split: option.splits)

lemma set_keys_upd_all: "set (keys (upd_all m kvs)) = set (keys m) \<union> fst ` set kvs"
  by (induction m kvs rule: upd_all.induct) (auto simp: keys_upd)

end

lemma hashtable_get_set:
  "hashtable_get (hashtable_set ps k v) k' = (if k' = k then Some v else hashtable_get ps k')"
  by (induction ps k v rule: hashtable_set.induct) auto

lemma keys_hashtable_set:
  "map fst (hashtable_set ps k v) = (if k \<in> set (map fst ps) then map fst ps else map fst ps @ [k])"
  by (induction ps k v rule: hashtable_set.induct) auto

interpretation ht: keyed_store hashtable_set hashtable_get "map fst" "[]"
  by unfold_locales (simp_all add: hashtable_get_set keys_hashtable_set)

section \<open>Lemmas: printing\<close>

text \<open>
  What a JSON reader makes of the text between the quotes: a reference definition of the
  escapes. It refuses a raw quote and a raw control character.
\<close>

fun json_unescape :: "string \<Rightarrow> string option" where
  "json_unescape [] = Some []"
| "json_unescape (c # cs) =
     (if c = CHR 0x5C then
        (case cs of
           [] \<Rightarrow> None
         | d # ds \<Rightarrow>
             if d = CHR ''u'' then
               (case ds of
                  a # b # x # y # rest \<Rightarrow>
                    if a = CHR ''0'' \<and> b = CHR ''0'' \<and> isxdigit x \<and> isxdigit y
                    then map_option (\<lambda>t. char_of (xval x * 16 + xval y) # t) (json_unescape rest)
                    else None
                | _ \<Rightarrow> None)
             else if d = CHR 0x5C \<or> d = DQUOTE then map_option (\<lambda>t. d # t) (json_unescape ds)
             else if d = CHR ''b'' then map_option (\<lambda>t. CHR 0x08 # t) (json_unescape ds)
             else if d = CHR ''f'' then map_option (\<lambda>t. CHR 0x0C # t) (json_unescape ds)
             else if d = CHR ''n'' then map_option (\<lambda>t. LF # t) (json_unescape ds)
             else if d = CHR ''r'' then map_option (\<lambda>t. CR # t) (json_unescape ds)
             else if d = CHR ''t'' then map_option (\<lambda>t. CHR 0x09 # t) (json_unescape ds)
             else None)
      else if c = DQUOTE \<or> code c < 0x20 then None
      else map_option (\<lambda>t. c # t) (json_unescape cs))"

lemma toupper_xdigit [simp]:
  assumes "d < 16"
  shows "xval (toupper (xdigit d)) = d" "isxdigit (toupper (xdigit d))"
  using assms by (auto simp: xval_def xdigit_def toupper_def isdigit_def isxdigit_def)

lemma char_of_escaped [simp]:
  "char_of (92 :: nat) = CHR 0x5C" "char_of (34 :: nat) = DQUOTE" "char_of (8 :: nat) = CHR 0x08"
  "char_of (12 :: nat) = CHR 0x0C" "char_of (10 :: nat) = LF" "char_of (13 :: nat) = CR"
  "char_of (9 :: nat) = CHR 0x09"
  using char_of_code [of "CHR 0x5C"] char_of_code [of DQUOTE] char_of_code [of "CHR 0x08"]
    char_of_code [of "CHR 0x0C"] char_of_code [of LF] char_of_code [of CR] char_of_code [of "CHR 0x09"]
  by (simp_all add: code_def)

lemma code_special: "code (CHR 0x5C) = 92" "code DQUOTE = 34"
  by (simp_all add: code_def)

lemma unescape_escape:
  assumes "cp = 92 \<or> cp = 34 \<or> cp < 0x20"
  shows "json_unescape (json_escape cp @ t) = map_option (\<lambda>r. char_of cp # r) (json_unescape t)"
proof -
  consider "cp = 92" | "cp = 34" | "cp = 8" | "cp = 12" | "cp = 10" | "cp = 13" | "cp = 9"
    | (u) "cp < 0x20" "cp \<noteq> 8" "cp \<noteq> 12" "cp \<noteq> 10" "cp \<noteq> 13" "cp \<noteq> 9"
    using assms by blast
  then show ?thesis
  proof cases
    case u
    then have "cp div 16 < 16" "cp mod 16 < 16" "cp div 16 * 16 + cp mod 16 = cp" by auto
    with u show ?thesis by (simp add: json_escape_def)
  qed (simp_all add: json_escape_def)
qed

lemma unescape_plain:
  "(\<forall>c \<in> set xs. c \<noteq> CHR 0x5C \<and> c \<noteq> DQUOTE \<and> 0x20 \<le> code c) \<Longrightarrow>
   json_unescape (xs @ t) = map_option (\<lambda>r. xs @ r) (json_unescape t)"
proof (induction xs)
  case Nil
  then show ?case by (cases "json_unescape t") simp_all
next
  case (Cons c xs)
  then show ?case by (cases "json_unescape t") auto
qed

lemma utf8_encode_high:
  assumes "0x80 \<le> cp" "utf8_encode cp = Some bs" "c \<in> set bs"
  shows "0x80 \<le> code c"
proof -
  have "cp < 0x800 \<Longrightarrow> cp div 64 < 32" "cp < 0x10000 \<Longrightarrow> cp div 4096 < 16"
    "cp \<le> 0x10FFFF \<Longrightarrow> cp div 262144 < 16"
    using less_mult_imp_div_less [of cp 32 64] less_mult_imp_div_less [of cp 16 4096]
      less_mult_imp_div_less [of cp 16 262144] by simp_all
  moreover have "0x80 + m mod 64 < 256" for m :: nat
    using mod_less_divisor [of 64 m] by simp
  ultimately show ?thesis
    using assms by (auto simp: utf8_encode_def split: if_splits)
qed

text \<open>
  A value that passed the UTF-8 check can be printed, and reading the escapes back gives it.
\<close>

lemma dump_text_unescape:
  "utf8_check_string s \<Longrightarrow> \<exists>t. dump_text s = Some t \<and> json_unescape t = Some s"
proof (induction s rule: length_induct)
  case (1 s)
  show ?case
  proof (cases "s = []")
    case True
    then show ?thesis by (simp add: dump_text.simps)
  next
    case False
    with "1.prems" obtain cp n where it: "utf8_iterate s = Some (cp, n)"
      and rest: "utf8_check_string (drop n s)"
      by (auto simp: utf8_check_string_step)
    from utf8_iterate_sound [OF False it] have
      cp: "scalar_value cp" "utf8_encode cp = Some (take n s)" "0 < n" "n \<le> length s"
      by auto
    with False have "length (drop n s) < length s" by simp
    with "1.IH" rest obtain t where t: "dump_text (drop n s) = Some t" "json_unescape t = Some (drop n s)"
      by blast
    let ?esc = "cp = 92 \<or> cp = 34 \<or> cp < 0x20"
    have "dump_text s = Some ((if ?esc then json_escape cp else take n s) @ t)"
      using False it t cp(3) by (subst dump_text.simps) (simp add: max_def)
    moreover have "json_unescape ((if ?esc then json_escape cp else take n s) @ t) = Some s"
    proof (cases ?esc)
      case True
      then have "utf8_encode cp = Some [char_of cp]" by (auto simp: utf8_encode_def)
      with cp have "char_of cp # drop n s = s"
        by (metis append_Cons append_Nil append_take_drop_id option.inject)
      with True t(2) show ?thesis by (simp add: unescape_escape)
    next
      case False
      have "\<forall>c \<in> set (take n s). c \<noteq> CHR 0x5C \<and> c \<noteq> DQUOTE \<and> 0x20 \<le> code c"
      proof (cases "cp < 0x80")
        case True
        with cp have "take n s = [char_of cp]" by (simp add: utf8_encode_def)
        moreover have "code (char_of cp) = cp" using True by simp
        ultimately show ?thesis using False code_special by (auto simp: not_less)
      next
        case high: False
        have c: "0x80 \<le> code c" if "c \<in> set (take n s)" for c
          using utf8_encode_high [OF _ cp(2) that] high by simp
        with code_special show ?thesis by fastforce
      qed
      with False t show ?thesis by (simp add: unescape_plain)
    qed
    ultimately show ?thesis by blast
  qed
qed

section \<open>Properties\<close>

text \<open>
  C28: \<open>utf8_check_string\<close> accepts exactly the byte strings that are the UTF-8 encoding of a
  sequence of Unicode scalar values.
\<close>

theorem utf8_check_string_iff:
  "utf8_check_string s \<longleftrightarrow> (\<exists>cps. list_all scalar_value cps \<and> s = utf8_of cps)"
  using utf8_check_string_decodes [of s] utf8_check_string_encodings by (auto simp: list_all_iff)

text \<open>
  C29: a string that \<open>json_string\<close> accepted is printed by \<open>dump_string\<close>, between quotes, and a
  reader that undoes the escapes gets the string back.
\<close>

theorem json_string_round_trip:
  assumes "json_string value = Some j"
  shows "\<exists>t. do_dump j = Some (DQUOTE # t @ [DQUOTE]) \<and> json_unescape t = Some (cstr value)"
  using assms dump_text_unescape [of "cstr value"]
  by (auto simp: json_string_def dump_string_def split: if_splits)

theorem json_string_round_trip_witness:
  "\<exists>t. do_dump (JSON_STRING ''a'') = Some (DQUOTE # t @ [DQUOTE]) \<and> json_unescape t = Some ''a''"
proof -
  have "json_string ''a'' = Some (JSON_STRING ''a'')"
    by (simp add: json_string_def cstr_def utf8_check_string.simps utf8_check_first_def code_def)
  from json_string_round_trip [OF this] show ?thesis by (simp add: cstr_def)
qed

text \<open>
  After a sequence of \<open>json_object_set_new\<close> calls the object answers each key with the value
  of the last call that had it, and every key occurs once.
\<close>

theorem json_object_last_set_wins:
  assumes "list_all (\<lambda>(k, v). utf8_check_string (cstr k)) kvs"
  defines "obj \<equiv> foldl (\<lambda>j (k, v). json_object_set_new j k (Some v)) (JSON_OBJECT []) kvs"
  shows "json_object_get obj key = map_of (rev (map (\<lambda>(k, v). (cstr k, v)) kvs)) (cstr key) \<and>
    distinct (map fst (json_object_items obj))"
proof -
  let ?kvs = "map (\<lambda>(k, v). (cstr k, v)) kvs"
  have "foldl (\<lambda>j (k, v). json_object_set_new j k (Some v)) (JSON_OBJECT ps) kvs = JSON_OBJECT (ht.upd_all ps ?kvs)" for ps
    using assms(1) by (induction kvs arbitrary: ps) (auto simp: json_object_set_new_def)
  then have obj: "obj = JSON_OBJECT (ht.upd_all [] ?kvs)" by (simp add: obj_def)
  have "json_object_get obj key = map_of (rev (map (\<lambda>(k, v). (cstr k, v)) kvs)) (cstr key)"
    by (simp add: obj json_object_get_def ht.get_upd_all split: option.split)
  moreover have "distinct (map fst (json_object_items obj))"
    using ht.distinct_upd_all [of "[]" ?kvs] by (simp add: obj)
  ultimately show ?thesis ..
qed

theorem json_object_last_set_wins_witness:
  "json_object_get (foldl (\<lambda>j (k, v). json_object_set_new j k (Some v)) (JSON_OBJECT [])
     [(''a'', JSON_TRUE), (''b'', JSON_NULL), (''a'', JSON_FALSE)]) ''a'' = Some JSON_FALSE"
proof -
  have "list_all (\<lambda>(k, v). utf8_check_string (cstr k)) [(''a'', JSON_TRUE), (''b'', JSON_NULL), (''a'', JSON_FALSE)]"
    by (simp add: cstr_def utf8_check_string.simps utf8_check_first_def code_def)
  from json_object_last_set_wins [OF this, of "''a''"] show ?thesis by (simp add: cstr_def)
qed

end
