(* ===== verification/Base64.thy ===== *)
theory Base64
  imports C_Lib
begin

text \<open>
  The base64 encoder of \<open>b64/cencode.c\<close>. The code is a coroutine: a \<open>switch\<close> into the middle of
  a loop, whose state (\<open>step\<close>, the bits left over in \<open>result\<close>, and \<open>stepcount\<close>) survives
  between calls. The lemmas show that encoding in pieces is encoding at once, that the output
  is the encoding by groups of three bytes, and that decoding gives the input back.
\<close>

unbundle bit_operations_syntax

datatype base64_encodestep = step_A | step_B | step_C

record base64_encodestate =
  step :: base64_encodestep
  result :: byte
  stepcount :: nat

definition CHARS_PER_LINE :: nat where
  "CHARS_PER_LINE = 4096"

definition base64_init_encodestate :: base64_encodestate where
  "base64_init_encodestate = \<lparr>step = step_A, result = 0, stepcount = 0\<rparr>"

definition encoding :: string where
  "encoding = ''ABCDEFGHIJKLMNOPQRSTUVWXYZabcdefghijklmnopqrstuvwxyz0123456789+/''"

definition base64_encode_value :: "byte \<Rightarrow> char" where
  "base64_encode_value value_in =
     (if unat value_in > 63 then CHR ''='' else encoding ! unat value_in)"

fun base64_encode_block :: "byte list \<Rightarrow> base64_encodestate \<Rightarrow> string \<times> base64_encodestate" where
  "base64_encode_block [] st = ([], st)"
| "base64_encode_block (fragment # plain) st =
     (case step st of
        step_A \<Rightarrow>
          (let (out, st') = base64_encode_block plain
                 (st\<lparr>result := push_bit 4 (fragment AND 0x03), step := step_B\<rparr>)
           in (base64_encode_value (drop_bit 2 (fragment AND 0xFC)) # out, st'))
      | step_B \<Rightarrow>
          (let (out, st') = base64_encode_block plain
                 (st\<lparr>result := push_bit 2 (fragment AND 0x0F), step := step_C\<rparr>)
           in (base64_encode_value (result st OR drop_bit 4 (fragment AND 0xF0)) # out, st'))
      | step_C \<Rightarrow>
          (let wrap = (Suc (stepcount st) = CHARS_PER_LINE div 4);
               (out, st') = base64_encode_block plain
                 (st\<lparr>result := fragment AND 0x3F, step := step_A,
                     stepcount := (if wrap then 0 else Suc (stepcount st))\<rparr>)
           in (base64_encode_value (result st OR drop_bit 6 (fragment AND 0xC0)) #
               base64_encode_value (fragment AND 0x3F) # (if wrap then [LF] else []) @ out, st')))"

definition base64_encode_blockend :: "base64_encodestate \<Rightarrow> string" where
  "base64_encode_blockend st =
     (case step st of
        step_B \<Rightarrow> base64_encode_value (result st) # ''==''
      | step_C \<Rightarrow> base64_encode_value (result st) # ''=''
      | step_A \<Rightarrow> []) @ [LF]"

section \<open>Encoding in pieces\<close>

text \<open>The interface of a stream encoder: the output of two calls is the output of one.\<close>

locale stream_encoder =
  fixes enc :: "'a list \<Rightarrow> 's \<Rightarrow> 'b list \<times> 's"
  assumes enc_Nil: "enc [] s = ([], s)"
    and enc_append: "enc (xs @ ys) s =
      (let (o1, s1) = enc xs s; (o2, s2) = enc ys s1 in (o1 @ o2, s2))"
begin

fun enc_pieces :: "'a list list \<Rightarrow> 's \<Rightarrow> 'b list \<times> 's" where
  "enc_pieces [] s = ([], s)"
| "enc_pieces (xs # xss) s =
     (let (o1, s1) = enc xs s; (o2, s2) = enc_pieces xss s1 in (o1 @ o2, s2))"

lemma enc_pieces_concat: "enc_pieces xss s = enc (concat xss) s"
  by (induction xss s rule: enc_pieces.induct) (auto simp: enc_Nil enc_append split: prod.splits)

end

lemma base64_encode_block_append:
  "base64_encode_block (xs @ ys) st =
     (let (o1, s1) = base64_encode_block xs st; (o2, s2) = base64_encode_block ys s1 in (o1 @ o2, s2))"
  by (induction xs st rule: base64_encode_block.induct)
     (auto simp: Let_def split: base64_encodestep.splits prod.splits)

interpretation b64: stream_encoder base64_encode_block
  by unfold_locales (simp_all add: base64_encode_block_append)

section \<open>The encoding by groups\<close>

text \<open>Base64 as RFC 4648 defines it: three bytes give four sextets, with padding at the end.\<close>

fun b64_groups :: "byte list \<Rightarrow> string" where
  "b64_groups (a # b # c # rest) =
     encoding ! (unat a div 4) # encoding ! (unat a mod 4 * 16 + unat b div 16) #
     encoding ! (unat b mod 16 * 4 + unat c div 64) # encoding ! (unat c mod 64) # b64_groups rest"
| "b64_groups [a, b] =
     encoding ! (unat a div 4) # encoding ! (unat a mod 4 * 16 + unat b div 16) #
     encoding ! (unat b mod 16 * 4) # ''=''"
| "b64_groups [a] = encoding ! (unat a div 4) # encoding ! (unat a mod 4 * 16) # ''==''"
| "b64_groups [] = []"

definition base64 :: "byte list \<Rightarrow> string" where
  "base64 xs = (let (out, st) = base64_encode_block xs base64_init_encodestate
                in out @ base64_encode_blockend st)"

text \<open>The bit operations of the code are the arithmetic of the groups.\<close>

declare drop_bit_and [simp del] push_bit_and [simp del]

lemma byte_lt [simp]: "unat (a :: byte) < 256"
  using unsigned_less [of a] by simp

lemma unat_or_disjoint: "x AND y = 0 \<Longrightarrow> unat (x OR y) = unat x + unat y" for x y :: byte
proof -
  assume "x AND y = 0"
  then have "unat x AND unat y = 0"
    by (metis unsigned_and_eq unsigned_0)
  then show ?thesis
    by (simp add: unsigned_or_eq disjunctive_add_eq_or)
qed

lemma byte_masks:
  "a AND 0x03 = take_bit 2 a" "a AND 0x0F = take_bit 4 a" "a AND 0x3F = take_bit 6 a"
  "drop_bit 2 (a AND 0xFC) = drop_bit 2 a" "drop_bit 4 (a AND 0xF0) = drop_bit 4 a"
  "drop_bit 6 (a AND 0xC0) = drop_bit 6 a" for a :: byte
  by (rule bit_word_eqI; auto simp: bit_simps less_Suc_eq numeral_eq_Suc dest: bit_imp_le_length)+

lemmas nat_bit_arith =
  push_bit_eq_mult [where 'a = nat] take_bit_eq_mod [where 'a = nat] drop_bit_eq_div [where 'a = nat]

lemma unat_low_shift:
  "unat (push_bit 4 (take_bit 2 a)) = unat a mod 4 * 16"
  "unat (push_bit 2 (take_bit 4 a)) = unat a mod 16 * 4" for a :: byte
proof -
  have "unat a mod 4 * 16 < 256" "unat a mod 16 * 4 < 256" by simp_all
  then show "unat (push_bit 4 (take_bit 2 a)) = unat a mod 4 * 16"
    "unat (push_bit 2 (take_bit 4 a)) = unat a mod 16 * 4"
    by (simp_all add: unsigned_push_bit_eq unsigned_take_bit_eq nat_bit_arith)
qed

lemma disjoint_shift:
  "push_bit 4 (take_bit 2 a) AND drop_bit 4 b = 0" "push_bit 2 (take_bit 4 a) AND drop_bit 6 b = 0"
  for a b :: byte
  by (rule bit_word_eqI; auto simp: bit_simps dest: bit_imp_le_length)+

lemma sextets:
  "unat (drop_bit 2 (a AND 0xFC)) = unat a div 4"
  "unat (push_bit 4 (a AND 0x03) OR drop_bit 4 (b AND 0xF0)) = unat a mod 4 * 16 + unat b div 16"
  "unat (push_bit 2 (a AND 0x0F) OR drop_bit 6 (b AND 0xC0)) = unat a mod 16 * 4 + unat b div 64"
  "unat (a AND 0x3F) = unat a mod 64"
  "unat (push_bit 4 (a AND 0x03)) = unat a mod 4 * 16"
  "unat (push_bit 2 (a AND 0x0F)) = unat a mod 16 * 4" for a b :: byte
  by (simp_all only: byte_masks unat_or_disjoint disjoint_shift unat_low_shift)
    (simp_all add: unsigned_drop_bit_eq unsigned_take_bit_eq nat_bit_arith mod_less)

lemma sextet_bounds:
  fixes a b :: byte
  shows "unat a div 4 \<le> 63" "unat a mod 4 * 16 + unat b div 16 \<le> 63"
    "unat a mod 16 * 4 + unat b div 64 \<le> 63" "unat a mod 64 \<le> 63"
    "unat a mod 4 * 16 \<le> 63" "unat a mod 16 * 4 \<le> 63"
  using byte_lt [of a] byte_lt [of b] by linarith+

lemma encode_value_sextets:
  "base64_encode_value (drop_bit 2 (a AND 0xFC)) = encoding ! (unat a div 4)"
  "base64_encode_value (push_bit 4 (a AND 0x03) OR drop_bit 4 (b AND 0xF0)) =
     encoding ! (unat a mod 4 * 16 + unat b div 16)"
  "base64_encode_value (push_bit 2 (a AND 0x0F) OR drop_bit 6 (b AND 0xC0)) =
     encoding ! (unat a mod 16 * 4 + unat b div 64)"
  "base64_encode_value (a AND 0x3F) = encoding ! (unat a mod 64)"
  "base64_encode_value (push_bit 4 (a AND 0x03)) = encoding ! (unat a mod 4 * 16)"
  "base64_encode_value (push_bit 2 (a AND 0x0F)) = encoding ! (unat a mod 16 * 4)"
  using sextet_bounds(1,4,5,6) [of a] sextet_bounds(2,3) [of a b]
  by (simp_all add: base64_encode_value_def sextets)

text \<open>
  From the start of a group, on an input too short for a line break, the coroutine emits the
  groups; a line holds 1024 groups.
\<close>

lemma base64_encode_groups:
  assumes "step st = step_A" and "stepcount st + length xs div 3 < 1024"
  shows "(let (out, st') = base64_encode_block xs st in out @ base64_encode_blockend st') =
    b64_groups xs @ [LF]"
  using assms
proof (induction xs arbitrary: st rule: b64_groups.induct)
  case (1 a b c rest)
  let ?st = "st\<lparr>result := c AND 0x3F, step := step_A, stepcount := Suc (stepcount st)\<rparr>"
  have "(let (out, st') = base64_encode_block rest ?st in out @ base64_encode_blockend st') =
      b64_groups rest @ [LF]"
    by (rule "1.IH") (use "1.prems" in simp_all)
  then show ?case
    using "1.prems"
    by (auto simp: encode_value_sextets CHARS_PER_LINE_def Let_def split: prod.splits)
qed (auto simp: encode_value_sextets base64_encode_blockend_def)

lemma base64_eq_groups: "length xs div 3 < 1024 \<Longrightarrow> base64 xs = b64_groups xs @ [LF]"
  using base64_encode_groups [of base64_init_encodestate xs]
  by (simp add: base64_def base64_init_encodestate_def)

section \<open>Decoding\<close>

text \<open>A reference decoder: the position of each character in the alphabet, then whole bytes.\<close>

fun index_of :: "'a list \<Rightarrow> 'a \<Rightarrow> nat option" where
  "index_of [] x = None"
| "index_of (y # ys) x = (if x = y then Some 0 else map_option Suc (index_of ys x))"

definition nat_byte :: "nat \<Rightarrow> byte" where
  "nat_byte n = word_of_nat n"

fun b64_decode :: "string \<Rightarrow> byte list option" where
  "b64_decode [] = Some []"
| "b64_decode [w, x, y, z] =
     do { p \<leftarrow> index_of encoding w; q \<leftarrow> index_of encoding x;
       if y = CHR ''='' then Some [nat_byte (p * 4 + q div 16)]
       else do { r \<leftarrow> index_of encoding y;
         if z = CHR ''='' then Some [nat_byte (p * 4 + q div 16), nat_byte (q mod 16 * 16 + r div 4)]
         else do { s \<leftarrow> index_of encoding z;
           Some [nat_byte (p * 4 + q div 16), nat_byte (q mod 16 * 16 + r div 4),
                 nat_byte (r mod 4 * 64 + s)] } } }"
| "b64_decode (w # x # y # z # rest) =
     do { p \<leftarrow> index_of encoding w; q \<leftarrow> index_of encoding x; r \<leftarrow> index_of encoding y;
       s \<leftarrow> index_of encoding z; bs \<leftarrow> b64_decode rest;
       Some (nat_byte (p * 4 + q div 16) # nat_byte (q mod 16 * 16 + r div 4) #
             nat_byte (r mod 4 * 64 + s) # bs) }"
| "b64_decode _ = None"

lemma index_of_nth: "distinct xs \<Longrightarrow> i < length xs \<Longrightarrow> index_of xs (xs ! i) = Some i"
proof (induction xs arbitrary: i)
  case Nil
  then show ?case by simp
next
  case (Cons x xs)
  then show ?case by (cases i) auto
qed

lemma encoding_facts: "length encoding = 64" "distinct encoding" "CHR ''='' \<notin> set encoding"
  by (simp_all add: encoding_def)

lemma index_of_encoding [simp]: "i \<le> 63 \<Longrightarrow> index_of encoding (encoding ! i) = Some i"
  by (simp add: index_of_nth encoding_facts)

lemma encoding_not_pad [simp]: "i \<le> 63 \<Longrightarrow> encoding ! i \<noteq> CHR ''=''"
proof -
  assume "i \<le> 63"
  then have "encoding ! i \<in> set encoding" by (simp add: encoding_facts(1))
  with encoding_facts(3) show ?thesis by metis
qed

text \<open>The bytes of a group come back from its sextets.\<close>

lemma regroup:
  fixes b c :: byte
  shows "unat b div 16 div 16 = 0" "unat b div 16 mod 16 = unat b div 16"
    "unat c div 64 div 4 = 0" "unat c div 64 mod 4 = unat c div 64"
proof -
  have "unat b div 16 < 16" "unat c div 64 < 4"
    using byte_lt [of b] byte_lt [of c] by (simp_all add: div_less_iff_less_mult)
  then show "unat b div 16 div 16 = 0" "unat b div 16 mod 16 = unat b div 16"
    "unat c div 64 div 4 = 0" "unat c div 64 mod 4 = unat c div 64"
    by simp_all
qed

lemma nat_byte_unat [simp]: "nat_byte (unat a) = a"
  by (simp add: nat_byte_def)

lemma b64_groups_eq_Nil [simp]: "b64_groups xs = [] \<longleftrightarrow> xs = []"
  by (cases xs rule: b64_groups.cases) simp_all

lemma b64_decode_step:
  "rest \<noteq> [] \<Longrightarrow> b64_decode (w # x # y # z # rest) =
     do { p \<leftarrow> index_of encoding w; q \<leftarrow> index_of encoding x; r \<leftarrow> index_of encoding y;
       s \<leftarrow> index_of encoding z; bs \<leftarrow> b64_decode rest;
       Some (nat_byte (p * 4 + q div 16) # nat_byte (q mod 16 * 16 + r div 4) #
             nat_byte (r mod 4 * 64 + s) # bs) }"
  by (cases rest) simp_all

lemma b64_decode_groups: "b64_decode (b64_groups xs) = Some xs"
proof (induction xs rule: b64_groups.induct)
  case (1 a b c rest)
  show ?case
  proof (cases "rest = []")
    case True
    then show ?thesis by (simp add: sextet_bounds regroup)
  next
    case False
    with 1 show ?thesis by (simp add: b64_decode_step sextet_bounds regroup)
  qed
qed (simp_all add: sextet_bounds regroup)

section \<open>Properties\<close>

text \<open>
  C30: whatever the pieces in which the input arrives, the output of the \<open>base64_encode_block\<close> calls
  and of \<open>base64_encode_blockend\<close> is the RFC 4648 encoding of the whole input and a line feed, for
  inputs shorter than the 3072 bytes of a line; and decoding the text gives the input back.
\<close>

theorem base64_pieces:
  assumes "length (concat pieces) < 3072"
  shows "(let (out, st) = b64.enc_pieces pieces base64_init_encodestate
          in out @ base64_encode_blockend st) = b64_groups (concat pieces) @ [LF] \<and>
    b64_decode (b64_groups (concat pieces)) = Some (concat pieces)"
proof -
  have "length (concat pieces) div 3 < 1024" using assms by simp
  then show ?thesis
    using base64_eq_groups [of "concat pieces"] by (simp add: b64.enc_pieces_concat base64_def b64_decode_groups)
qed

theorem base64_pieces_witness:
  "(let (out, st) = b64.enc_pieces [[77], [97, 110], [77]] base64_init_encodestate
    in out @ base64_encode_blockend st) = ''TWFuTQ=='' @ [LF]"
  using base64_pieces [of "[[77], [97, 110], [77]]"] by (simp add: encoding_def)

end
