(* ===== verification/Conf.thy ===== *)
theory Conf
  imports Jansson Base64
begin

text \<open>
  The configuration, \<open>conf.c\<close> and the structs of \<open>conf.h\<close>, \<open>acl.h\<close> and \<open>slog.h\<close>: environment
  variables in values, the parsing of the access rules (\<open>conf_parse_acl\<close>) and the loop of
  \<open>conf_read\<close> over the keys of the configuration file.

  The parsed file is an argument of \<open>conf_read\<close> (\<^term>\<open>None\<close> where \<open>json_load_file\<close> fails). What
  the system answers to \<open>getenv\<close>, \<open>getpwnam\<close>, \<open>getgrnam\<close>, \<open>getuid\<close> and \<open>getgid\<close> is a record of
  functions, with the build flag \<open>HAVE_SSL\<close>. A warning on \<open>stderr\<close> is not modelled, and
  allocations succeed. The process can end inside \<open>conf_parse_acl\<close>: \<open>exit(1)\<close> is \<^term>\<open>None\<close>.
\<close>

section \<open>Structs\<close>

datatype log_level = WEBDIS_ERROR | WEBDIS_WARNING | WEBDIS_NOTICE | WEBDIS_INFO | WEBDIS_DEBUG | WEBDIS_TRACE

text \<open>
  The enumeration's numbers. A verbosity between 5 and 7 has no name in the enumeration, so a
  verbosity is the number.
\<close>

fun level_num :: "log_level \<Rightarrow> int" where
  "level_num WEBDIS_ERROR = 0"
| "level_num WEBDIS_WARNING = 1"
| "level_num WEBDIS_NOTICE = 2"
| "level_num WEBDIS_INFO = 3"
| "level_num WEBDIS_DEBUG = 4"
| "level_num WEBDIS_TRACE = 8"

datatype log_fsync_mode = LOG_FSYNC_AUTO | LOG_FSYNC_MILLIS | LOG_FSYNC_ALL

text \<open>
  An access rule. The commands of \<open>struct acl_commands\<close> are a list, its \<open>count\<close> the length; the
  chain of \<open>next\<close> pointers is a list of rules.
\<close>

record acl =
  cidr_enabled :: bool
  cidr_subnet :: "32 word"
  cidr_mask :: "32 word"
  http_basic_auth :: "string option"
  enabled :: "string list"
  disabled :: "string list"

record auth =
  use_legacy_auth :: bool
  username :: "string option"
  password :: string

record ssl_conf =
  ssl_enabled :: bool
  ca_cert_bundle :: "string option"
  path_to_certs :: "string option"
  client_cert_pem :: "string option"
  client_key_pem :: "string option"
  redis_sni :: "string option"

record conf =
  redis_host :: string
  redis_port :: int
  redis_auth :: "auth option"
  http_host :: string
  http_port :: int
  http_threads :: int
  http_max_request_size :: nat
  pool_size_per_thread :: int
  daemonize :: bool
  pidfile :: string
  websockets :: bool
  database :: int
  perms :: "acl list"
  user :: nat
  group :: nat
  logfile :: string
  verbosity :: int
  log_fsync_mode :: log_fsync_mode
  period_millis :: int
  keep_alive_sec :: int
  ssl :: ssl_conf
  default_root :: "string option"

record system =
  getenv :: "string \<Rightarrow> string option"
  getpwnam :: "string \<Rightarrow> nat option"
  getgrnam :: "string \<Rightarrow> nat option"
  getuid :: nat
  getgid :: nat
  HAVE_SSL :: bool

text \<open>A system without environment variables and without named users.\<close>

definition plain_system :: system where
  "plain_system = \<lparr>getenv = (\<lambda>_. None), getpwnam = (\<lambda>_. None), getgrnam = (\<lambda>_. None),
     getuid = 1000, getgid = 1000, HAVE_SSL = False\<rparr>"

section \<open>Values\<close>

fun conf_str_allcaps :: "string \<Rightarrow> bool" where
  "conf_str_allcaps [] = True"
| "conf_str_allcaps (c # s) = (if c \<noteq> toupper c then False else conf_str_allcaps s)"

definition conf_string_or_envvar :: "system \<Rightarrow> string option \<Rightarrow> string" where
  "conf_string_or_envvar sys val =
     (case val of
        None \<Rightarrow> ''''
      | Some val \<Rightarrow>
          let val_len = strlen val in
          if val_len \<ge> 2 \<and> hd_c val = CHR ''$'' \<and> conf_str_allcaps (drop 1 (cstr val))
          then (case getenv sys (drop 1 (cstr val)) of Some env_val \<Rightarrow> cstr env_val | None \<Rightarrow> cstr val)
          else cstr val)"

text \<open>\<open>atoi_free\<close> and \<open>is_true_free\<close>; what they free is not used again.\<close>

definition atoi_free :: "string \<Rightarrow> int" where
  "atoi_free s = atoi s"

definition is_true_free :: "string \<Rightarrow> bool" where
  "is_true_free s = (strcasecmp s ''true'' = 0)"

definition to_size_t :: "int \<Rightarrow> nat" where
  "to_size_t i = nat (i mod 2 ^ 64)"

section \<open>Addresses\<close>

text \<open>
  \<open>ntohl\<close> on a little-endian machine reverses the four bytes. \<open>inet_addr\<close> of the C library
  reads one to four numbers (decimal, octal after \<open>0\<close>, hexadecimal after \<open>0x\<close>) separated by
  dots; every number but the last is a byte and the last fills the rest of the address. The
  result is in network order and \<open>INADDR_NONE\<close> when the text is no address.
\<close>

definition ntohl :: "32 word \<Rightarrow> 32 word" where
  "ntohl w = push_bit 24 (w AND 0xFF) OR push_bit 8 (w AND 0xFF00) OR
     drop_bit 8 (w AND 0xFF0000) OR drop_bit 24 w"

definition INADDR_NONE :: "32 word" where
  "INADDR_NONE = 0xFFFFFFFF"

definition isoctal :: "char \<Rightarrow> bool" where
  "isoctal c = (48 \<le> code c \<and> code c \<le> 55)"

definition read_octal :: "string \<Rightarrow> nat" where
  "read_octal s = foldl (\<lambda>n c. 8 * n + (code c - 48)) 0 s"

text \<open>\<open>strtoul(s, &end, 0)\<close> on a text that starts with a digit: the number and the rest.\<close>

definition strtoul0 :: "string \<Rightarrow> nat \<times> string" where
  "strtoul0 s =
     (if hd_c s = CHR ''0'' \<and> tolower (at_c s 1) = CHR ''x'' \<and> isxdigit (at_c s 2)
      then (read_hex (takeWhile isxdigit (drop 2 s)), dropWhile isxdigit (drop 2 s))
      else if hd_c s = CHR ''0'' then (read_octal (takeWhile isoctal s), dropWhile isoctal s)
      else (read_digits (takeWhile isdigit s), dropWhile isdigit s))"

text \<open>The numbers read so far, most significant first, in \<open>acc\<close> of \<open>n\<close> bytes.\<close>

fun inet_parts :: "nat \<Rightarrow> nat \<Rightarrow> string \<Rightarrow> nat option" where
  "inet_parts 0 acc s = None"
| "inet_parts (Suc k) acc s =
     (if \<not> isdigit (hd_c s) then None
      else let (val, rest) = strtoul0 s in
        if hd_c rest = CHR ''.'' \<and> rest \<noteq> []
        then (if val > 255 then None else inet_parts k (acc * 256 + val) (tl rest))
        else if (rest = [] \<or> isspace (hd_c rest)) \<and> val < 256 ^ Suc k
        then Some (acc * 256 ^ Suc k + val)
        else None)"

definition inet_addr :: "string \<Rightarrow> 32 word" where
  "inet_addr s =
     (case inet_parts 4 0 (cstr s) of Some v \<Rightarrow> ntohl (word_of_nat v) | None \<Rightarrow> INADDR_NONE)"

section \<open>Access rules\<close>

definition acl_read_commands :: "system \<Rightarrow> json \<Rightarrow> string list" where
  "acl_read_commands sys jlist =
     map (\<lambda>jelem. conf_string_or_envvar sys (json_string_value jelem))
       (filter json_is_string (json_elements jlist))"

text \<open>
  The mask of \<open>n\<close> bits. C leaves the shift undefined for a count outside 0 to 31; the x86
  shift uses the count modulo 32.
\<close>

definition cidr_mask_of :: "nat \<Rightarrow> 32 word" where
  "cidr_mask_of mask_bits =
     (if mask_bits = 0 then 0xFFFFFFFF
      else push_bit (nat ((32 - int mask_bits) mod 32)) 0xFFFFFFFF)"

definition parse_cidr :: "system \<Rightarrow> json \<Rightarrow> acl \<Rightarrow> acl" where
  "parse_cidr sys jcidr a =
     (let s = conf_string_or_envvar sys (json_string_value jcidr);
          (ip, mask_bits) =
            (case strchr s 0 (CHR ''/'') of
               None \<Rightarrow> (s, 0)
             | Some p \<Rightarrow> (slice s 0 p, nat (atoi (drop (p + 1) s) mod 2 ^ 16)))
      in a\<lparr>cidr_enabled := True, cidr_mask := cidr_mask_of mask_bits,
           cidr_subnet := ntohl (inet_addr ip) AND cidr_mask_of mask_bits\<rparr>)"

text \<open>The credentials in base64; \<^term>\<open>None\<close> when nothing was encoded and the process ends.\<close>

definition parse_basic_auth :: "system \<Rightarrow> json \<Rightarrow> acl \<Rightarrow> acl option" where
  "parse_basic_auth sys jbasic a =
     (let plain = conf_string_or_envvar sys (json_string_value jbasic);
          (out, b64) = base64_encode_block (map byte_of_char plain) base64_init_encodestate
      in if length out = 0 then None
         else Some (a\<lparr>http_basic_auth :=
                Some (out @ takeWhile (\<lambda>c. c \<noteq> LF) (base64_encode_blockend b64))\<rparr>))"

definition empty_acl :: acl where
  "empty_acl = \<lparr>cidr_enabled = False, cidr_subnet = 0, cidr_mask = 0, http_basic_auth = None,
     enabled = [], disabled = []\<rparr>"

definition conf_parse_acl :: "system \<Rightarrow> json \<Rightarrow> acl option" where
  "conf_parse_acl sys j =
     do { let a = (case json_object_get j ''ip'' of
            Some jcidr \<Rightarrow> if json_is_string jcidr then parse_cidr sys jcidr empty_acl else empty_acl
          | None \<Rightarrow> empty_acl);
       a \<leftarrow> (case json_object_get j ''http_basic_auth'' of
            Some jbasic \<Rightarrow> if json_is_string jbasic then parse_basic_auth sys jbasic a else Some a
          | None \<Rightarrow> Some a);
       let a = (case json_object_get j ''enabled'' of
            Some jlist \<Rightarrow> if json_is_array jlist then a\<lparr>enabled := acl_read_commands sys jlist\<rparr> else a
          | None \<Rightarrow> a);
       let a = (case json_object_get j ''disabled'' of
            Some jlist \<Rightarrow> if json_is_array jlist then a\<lparr>disabled := acl_read_commands sys jlist\<rparr> else a
          | None \<Rightarrow> a);
       Some a }"

text \<open>\<open>conf_parse_acls\<close> appends each rule at the tail of the chain.\<close>

fun parse_acls_from :: "system \<Rightarrow> acl list \<Rightarrow> json list \<Rightarrow> acl list option" where
  "parse_acls_from sys chain [] = Some chain"
| "parse_acls_from sys chain (val # vals) =
     do { tmp \<leftarrow> conf_parse_acl sys val; parse_acls_from sys (chain @ [tmp]) vals }"

definition conf_parse_acls :: "system \<Rightarrow> json \<Rightarrow> acl list option" where
  "conf_parse_acls sys jtab = parse_acls_from sys [] (json_elements jtab)"

section \<open>The configuration file\<close>

definition conf_auth_legacy :: "string \<Rightarrow> auth" where
  "conf_auth_legacy pw = \<lparr>use_legacy_auth = True, username = None, password = pw\<rparr>"

definition conf_auth_username_password :: "system \<Rightarrow> json \<Rightarrow> auth option" where
  "conf_auth_username_password sys jarray =
     (case json_elements jarray of
        [jusername, jpassword] \<Rightarrow>
          if \<not> json_is_string jusername \<or> \<not> json_is_string jpassword then None
          else Some \<lparr>use_legacy_auth = False,
                     username = Some (conf_string_or_envvar sys (json_string_value jusername)),
                     password = conf_string_or_envvar sys (json_string_value jpassword)\<rparr>
      | _ \<Rightarrow> None)"

definition conf_parse_hiredis :: "conf \<Rightarrow> json \<Rightarrow> conf" where
  "conf_parse_hiredis cfg jhiredis =
     fold (\<lambda>(key, jtmp) cfg.
       if strcmp key ''keep_alive_sec'' = 0 \<and> json_is_integer jtmp
       then cfg\<lparr>keep_alive_sec := to_int32 (json_integer_value jtmp)\<rparr> else cfg)
     (json_object_items jhiredis) cfg"

definition conf_parse_ssl :: "system \<Rightarrow> ssl_conf \<Rightarrow> json \<Rightarrow> ssl_conf" where
  "conf_parse_ssl sys sc jssl =
     fold (\<lambda>(key, jtmp) sc.
       let str = Some (conf_string_or_envvar sys (json_string_value jtmp)) in
       if strcmp key ''enabled'' = 0 \<and> json_is_boolean jtmp then sc\<lparr>ssl_enabled := (jtmp = JSON_TRUE)\<rparr>
       else if strcmp key ''ca_cert_bundle'' = 0 \<and> json_is_string jtmp then sc\<lparr>ca_cert_bundle := str\<rparr>
       else if strcmp key ''path_to_certs'' = 0 \<and> json_is_string jtmp then sc\<lparr>path_to_certs := str\<rparr>
       else if strcmp key ''client_cert'' = 0 \<and> json_is_string jtmp then sc\<lparr>client_cert_pem := str\<rparr>
       else if strcmp key ''client_key'' = 0 \<and> json_is_string jtmp then sc\<lparr>client_key_pem := str\<rparr>
       else if strcmp key ''redis_sni'' = 0 \<and> json_is_string jtmp then sc\<lparr>redis_sni := str\<rparr>
       else sc)
     (json_object_items jssl) sc"

text \<open>The values \<open>conf_read\<close> starts from; \<open>calloc\<close> leaves the other fields zero.\<close>

definition conf_defaults :: "system \<Rightarrow> conf" where
  "conf_defaults sys =
     \<lparr>redis_host = ''127.0.0.1'', redis_port = 6379, redis_auth = None,
      http_host = ''0.0.0.0'', http_port = 7379, http_threads = 4,
      http_max_request_size = 128 * 1024 * 1024, pool_size_per_thread = 2,
      daemonize = False, pidfile = ''webdis.pid'', websockets = False, database = 0, perms = [],
      user = getuid sys, group = getgid sys, logfile = ''webdis.log'',
      verbosity = level_num WEBDIS_NOTICE, log_fsync_mode = LOG_FSYNC_AUTO, period_millis = 0,
      keep_alive_sec = 0,
      ssl = \<lparr>ssl_enabled = False, ca_cert_bundle = None, path_to_certs = None,
             client_cert_pem = None, client_key_pem = None, redis_sni = None\<rparr>,
      default_root = None\<rparr>"

definition read_redis_auth :: "system \<Rightarrow> conf \<Rightarrow> json \<Rightarrow> conf" where
  "read_redis_auth sys cfg jtmp =
     (if json_is_string jtmp
      then cfg\<lparr>redis_auth := Some (conf_auth_legacy (conf_string_or_envvar sys (json_string_value jtmp)))\<rparr>
      else if json_is_array jtmp then cfg\<lparr>redis_auth := conf_auth_username_password sys jtmp\<rparr>
      else cfg)"

definition read_log_fsync :: "conf \<Rightarrow> json \<Rightarrow> conf" where
  "read_log_fsync cfg jtmp =
     (if json_string_value jtmp \<noteq> None \<and> strcmp (the (json_string_value jtmp)) ''auto'' = 0
      then cfg\<lparr>log_fsync_mode := LOG_FSYNC_AUTO\<rparr>
      else if json_string_value jtmp \<noteq> None \<and> strcmp (the (json_string_value jtmp)) ''all'' = 0
      then cfg\<lparr>log_fsync_mode := LOG_FSYNC_ALL\<rparr>
      else if json_is_integer jtmp \<and> json_integer_value jtmp > 0
      then cfg\<lparr>log_fsync_mode := LOG_FSYNC_MILLIS, period_millis := to_int32 (json_integer_value jtmp)\<rparr>
      else cfg)"

definition read_verbosity :: "json \<Rightarrow> int" where
  "read_verbosity jtmp =
     (let tmp = to_int32 (json_integer_value jtmp) in
      if tmp < 0 then level_num WEBDIS_ERROR
      else if tmp > level_num WEBDIS_TRACE then level_num WEBDIS_TRACE else tmp)"

text \<open>The body of the loop of \<open>conf_read\<close>: one key of the file.\<close>

definition conf_read_key :: "system \<Rightarrow> string \<times> json \<Rightarrow> conf \<Rightarrow> conf option" where
  "conf_read_key sys kv cfg =
     (let key = fst kv; jtmp = snd kv;
          str = conf_string_or_envvar sys (json_string_value jtmp);
          num = json_integer_value jtmp in
      if strcmp key ''redis_host'' = 0 \<and> json_is_string jtmp then Some (cfg\<lparr>redis_host := str\<rparr>)
      else if strcmp key ''redis_port'' = 0 \<and> json_is_integer jtmp then Some (cfg\<lparr>redis_port := to_int32 num\<rparr>)
      else if strcmp key ''redis_port'' = 0 \<and> json_is_string jtmp then Some (cfg\<lparr>redis_port := atoi_free str\<rparr>)
      else if strcmp key ''redis_auth'' = 0 then Some (read_redis_auth sys cfg jtmp)
      else if strcmp key ''http_host'' = 0 \<and> json_is_string jtmp then Some (cfg\<lparr>http_host := str\<rparr>)
      else if strcmp key ''http_port'' = 0 \<and> json_is_integer jtmp then Some (cfg\<lparr>http_port := to_int32 num\<rparr>)
      else if strcmp key ''http_port'' = 0 \<and> json_is_string jtmp then Some (cfg\<lparr>http_port := atoi_free str\<rparr>)
      else if strcmp key ''http_max_request_size'' = 0 \<and> json_is_integer jtmp
        then Some (cfg\<lparr>http_max_request_size := to_size_t num\<rparr>)
      else if strcmp key ''http_max_request_size'' = 0 \<and> json_is_string jtmp
        then Some (cfg\<lparr>http_max_request_size := to_size_t (atoi_free str)\<rparr>)
      else if strcmp key ''threads'' = 0 \<and> json_is_integer jtmp then Some (cfg\<lparr>http_threads := to_int32 num\<rparr>)
      else if strcmp key ''threads'' = 0 \<and> json_is_string jtmp then Some (cfg\<lparr>http_threads := atoi_free str\<rparr>)
      else if strcmp key ''acl'' = 0 \<and> json_is_array jtmp
        then do { rules \<leftarrow> conf_parse_acls sys jtmp; Some (cfg\<lparr>perms := rules\<rparr>) }
      else if strcmp key ''user'' = 0 \<and> json_is_string jtmp
        then Some (case getpwnam sys str of Some u \<Rightarrow> cfg\<lparr>user := u\<rparr> | None \<Rightarrow> cfg)
      else if strcmp key ''group'' = 0 \<and> json_is_string jtmp
        then Some (case getgrnam sys str of Some g \<Rightarrow> cfg\<lparr>group := g\<rparr> | None \<Rightarrow> cfg)
      else if strcmp key ''logfile'' = 0 \<and> json_is_string jtmp then Some (cfg\<lparr>logfile := str\<rparr>)
      else if strcmp key ''log_fsync'' = 0 then Some (read_log_fsync cfg jtmp)
      else if strcmp key ''verbosity'' = 0 \<and> json_is_integer jtmp
        then Some (cfg\<lparr>verbosity := read_verbosity jtmp\<rparr>)
      else if strcmp key ''daemonize'' = 0 \<and> json_is_boolean jtmp then Some (cfg\<lparr>daemonize := (jtmp = JSON_TRUE)\<rparr>)
      else if strcmp key ''daemonize'' = 0 \<and> json_is_string jtmp then Some (cfg\<lparr>daemonize := is_true_free str\<rparr>)
      else if strcmp key ''pidfile'' = 0 \<and> json_is_string jtmp then Some (cfg\<lparr>pidfile := str\<rparr>)
      else if strcmp key ''websockets'' = 0 \<and> json_is_boolean jtmp then Some (cfg\<lparr>websockets := (jtmp = JSON_TRUE)\<rparr>)
      else if strcmp key ''websockets'' = 0 \<and> json_is_string jtmp then Some (cfg\<lparr>websockets := is_true_free str\<rparr>)
      else if strcmp key ''database'' = 0 \<and> json_is_integer jtmp then Some (cfg\<lparr>database := to_int32 num\<rparr>)
      else if strcmp key ''database'' = 0 \<and> json_is_string jtmp then Some (cfg\<lparr>database := atoi_free str\<rparr>)
      else if strcmp key ''pool_size'' = 0 \<and> json_is_integer jtmp
        then Some (cfg\<lparr>pool_size_per_thread := to_int32 num\<rparr>)
      else if strcmp key ''pool_size'' = 0 \<and> json_is_string jtmp
        then Some (cfg\<lparr>pool_size_per_thread := atoi_free str\<rparr>)
      else if strcmp key ''default_root'' = 0 \<and> json_is_string jtmp then Some (cfg\<lparr>default_root := Some str\<rparr>)
      else if HAVE_SSL sys \<and> strcmp key ''ssl'' = 0 \<and> json_is_object jtmp
        then Some (cfg\<lparr>ssl := conf_parse_ssl sys (ssl cfg) jtmp\<rparr>)
      else if strcmp key ''hiredis'' = 0 \<and> json_is_object jtmp then Some (conf_parse_hiredis cfg jtmp)
      else Some cfg)"

fun conf_read_keys :: "system \<Rightarrow> (string \<times> json) list \<Rightarrow> conf \<Rightarrow> conf option" where
  "conf_read_keys sys [] cfg = Some cfg"
| "conf_read_keys sys (kv # kvs) cfg =
     do { cfg' \<leftarrow> conf_read_key sys kv cfg; conf_read_keys sys kvs cfg' }"

definition conf_read :: "system \<Rightarrow> json option \<Rightarrow> conf option" where
  "conf_read sys file =
     (case file of
        None \<Rightarrow> Some (conf_defaults sys)
      | Some j \<Rightarrow> conf_read_keys sys (json_object_items j) (conf_defaults sys))"

section \<open>Lemmas: addresses and masks\<close>

lemma bit_ntohl:
  "bit (ntohl w) n \<longleftrightarrow>
     (24 \<le> n \<and> n < 32 \<and> bit w (n - 24)) \<or> (16 \<le> n \<and> n < 24 \<and> bit w (n - 8)) \<or>
     (8 \<le> n \<and> n < 16 \<and> bit w (n + 8)) \<or> (n < 8 \<and> bit w (n + 24))"
proof -
  have masks: "(0xFF :: 32 word) = mask 8" "(0xFF00 :: 32 word) = push_bit 8 (mask 8)"
    "(0xFF0000 :: 32 word) = push_bit 16 (mask 8)"
    by (simp_all add: mask_eq_exp_minus_1 push_bit_eq_mult)
  have high: "bit w m \<Longrightarrow> m < 32" for m
    using bit_imp_le_length [of w m] by simp
  consider "n < 8" | "8 \<le> n" "n < 16" | "16 \<le> n" "n < 24" | "24 \<le> n" "n < 32" | "32 \<le> n"
    by linarith
  then show ?thesis
    unfolding ntohl_def masks
    by cases (simp_all add: bit_simps, auto dest: high simp: add.commute)
qed

lemma ntohl_ntohl [simp]: "ntohl (ntohl w) = w"
proof (rule bit_word_eqI)
  fix n assume "n < LENGTH(32)"
  then consider "n < 8" | "8 \<le> n" "n < 16" | "16 \<le> n" "n < 24" | "24 \<le> n" "n < 32"
    by fastforce
  then show "bit (ntohl (ntohl w)) n = bit w n"
    by cases (simp_all add: bit_ntohl, auto)
qed

lemma cidr_mask_bit:
  "1 \<le> n \<Longrightarrow> n \<le> 32 \<Longrightarrow> bit (cidr_mask_of n) i \<longleftrightarrow> 32 - n \<le> i \<and> i < 32"
proof -
  assume n: "1 \<le> n" "n \<le> 32"
  then have shift: "nat ((32 - int n) mod 32) = 32 - n"
    using mod_pos_pos_trivial [of "32 - int n" 32] by simp
  have ones: "(0xFFFFFFFF :: 32 word) = - 1" by simp
  show ?thesis
    unfolding cidr_mask_of_def shift ones using n by (auto simp: bit_simps)
qed

lemma cidr_mask_match:
  assumes "1 \<le> n" "n \<le> 32"
  shows "w AND cidr_mask_of n = v AND cidr_mask_of n \<longleftrightarrow> drop_bit (32 - n) w = drop_bit (32 - n) v"
proof
  assume eq: "w AND cidr_mask_of n = v AND cidr_mask_of n"
  show "drop_bit (32 - n) w = drop_bit (32 - n) v"
  proof (rule bit_word_eqI)
    fix i assume "i < LENGTH(32)"
    have "bit (w AND cidr_mask_of n) (32 - n + i) = bit (v AND cidr_mask_of n) (32 - n + i)"
      by (simp only: eq)
    then show "bit (drop_bit (32 - n) w) i = bit (drop_bit (32 - n) v) i"
      using assms by (auto simp: bit_simps cidr_mask_bit dest: bit_imp_le_length)
  qed
next
  assume eq: "drop_bit (32 - n) w = drop_bit (32 - n) v"
  show "w AND cidr_mask_of n = v AND cidr_mask_of n"
  proof (rule bit_word_eqI)
    fix i assume "i < LENGTH(32)"
    have "bit (drop_bit (32 - n) w) (i - (32 - n)) = bit (drop_bit (32 - n) v) (i - (32 - n))"
      by (simp only: eq)
    then show "bit (w AND cidr_mask_of n) i = bit (v AND cidr_mask_of n) i"
      using assms by (auto simp: bit_simps cidr_mask_bit)
  qed
qed

text \<open>A dotted quad is read as its four bytes.\<close>

lemma takeWhile_show_nat:
  assumes "rest = [] \<or> \<not> isdigit (hd rest)"
  shows "takeWhile isdigit (show_nat n @ rest) = show_nat n" "dropWhile isdigit (show_nat n @ rest) = rest"
proof -
  have "\<forall>c \<in> set (show_nat n). isdigit c" by (simp add: show_nat_digits)
  moreover have "takeWhile isdigit rest = [] \<and> dropWhile isdigit rest = rest"
    using assms by (cases rest) auto
  ultimately show "takeWhile isdigit (show_nat n @ rest) = show_nat n" "dropWhile isdigit (show_nat n @ rest) = rest"
    by (simp_all add: takeWhile_append2 dropWhile_append2)
qed

lemma show_nat_0: "show_nat 0 = ''0''"
proof -
  have "code (CHR ''0'') = code (digit 0)" by (simp only: code_digit zero_less_numeral) (simp add: code_def)
  then show ?thesis by (subst show_nat.simps) (simp only: code_eq_iff zero_less_numeral if_True)
qed

lemma strtoul0_show_nat:
  assumes "rest = [] \<or> \<not> isdigit (hd rest)" "rest = [] \<or> tolower (hd rest) \<noteq> CHR ''x''"
  shows "strtoul0 (show_nat n @ rest) = (n, rest)"
proof (cases "n = 0")
  case True
  have digit: "isoctal (CHR ''0'')" by (simp add: isoctal_def code_def)
  have rest: "takeWhile isoctal rest = [] \<and> dropWhile isoctal rest = rest"
    using assms(1) by (cases rest) (auto simp: isoctal_def isdigit_def)
  have no_x: "tolower (at_c (CHR ''0'' # rest) 1) \<noteq> CHR ''x''"
    using assms(2) by (cases rest) (simp_all add: at_c_def)
  have "read_octal ''0'' = 0" by (simp add: read_octal_def code_def)
  then show ?thesis
    unfolding strtoul0_def using True digit rest no_x by (simp add: show_nat_0 del: One_nat_def)
next
  case False
  then have "hd_c (show_nat n @ rest) \<noteq> CHR ''0''"
    by (simp add: hd_c_append hd_show_nat)
  then show ?thesis
    unfolding strtoul0_def takeWhile_show_nat [OF assms(1)] by simp
qed

lemma show_nat_chars:
  "c \<in> set (show_nat n) \<Longrightarrow> c \<noteq> NUL \<and> c \<noteq> CHR ''.'' \<and> c \<noteq> CHR ''/'' \<and> c \<noteq> CHR ''$'' \<and>
     c \<noteq> CHR ''-'' \<and> c \<noteq> CHR ''+'' \<and> \<not> isspace c"
  using show_nat_digits [of c n] by (auto simp: isdigit_def isspace_def code_def)

lemma NUL_notin_show_nat: "NUL \<notin> set (show_nat n)"
  using show_nat_chars by blast

lemma hd_c_in_set: "s \<noteq> [] \<Longrightarrow> hd_c s \<in> set s"
  by (cases s) simp_all

lemma atoi_show_nat: "n < 2 ^ 31 \<Longrightarrow> atoi (show_nat n) = int n"
proof -
  assume n: "n < 2 ^ 31"
  have hd: "hd_c (show_nat n) \<in> set (show_nat n)" by (simp add: hd_c_in_set)
  then have space: "dropWhile isspace (show_nat n) = show_nat n"
    using show_nat_chars [OF hd] by (cases "show_nat n") simp_all
  have digits: "takeWhile isdigit (show_nat n) = show_nat n"
    using takeWhile_show_nat(1) [of "[]" n] by (simp only: append_Nil2 simp_thms)
  show ?thesis
    using n show_nat_chars [OF hd]
    by (simp add: atoi_def cstr_no_NUL NUL_notin_show_nat space digits to_int32_id)
qed

lemma strchr_append:
  assumes "c \<notin> set s" "NUL \<notin> set s" "c \<noteq> NUL"
  shows "strchr (s @ c # t) 0 c = Some (length s)"
proof -
  have "takeWhile (\<lambda>c. c \<noteq> NUL) (s @ c # t) = s @ takeWhile (\<lambda>c. c \<noteq> NUL) (c # t)"
    using assms(2) by (intro takeWhile_append2) auto
  then have "length s < strlen (s @ c # t)"
    using assms(3) by (simp add: strlen_def cstr_def)
  then show ?thesis
    using assms by (auto simp: strchr_def memchr_Some at_c_def nth_append)
qed

lemma strchr_notin: "c \<notin> set s \<Longrightarrow> c \<noteq> NUL \<Longrightarrow> strchr s 0 c = None"
  by (auto simp: strchr_def memchr_None at_c_def)

definition dotted :: "nat \<Rightarrow> nat \<Rightarrow> nat \<Rightarrow> nat \<Rightarrow> string" where
  "dotted a b c d = show_nat a @ ''.'' @ show_nat b @ ''.'' @ show_nat c @ ''.'' @ show_nat d"

definition quad :: "nat \<Rightarrow> nat \<Rightarrow> nat \<Rightarrow> nat \<Rightarrow> nat" where
  "quad a b c d = ((a * 256 + b) * 256 + c) * 256 + d"

lemma inet_parts_dot:
  "v < 256 \<Longrightarrow> inet_parts (Suc k) acc (show_nat v @ CHR ''.'' # rest) = inet_parts k (acc * 256 + v) rest"
proof -
  assume v: "v < 256"
  have dot: "\<not> isdigit (CHR ''.'')" "tolower (CHR ''.'') \<noteq> CHR ''x''"
    by (simp_all add: isdigit_def tolower_def code_def)
  have "strtoul0 (show_nat v @ CHR ''.'' # rest) = (v, CHR ''.'' # rest)"
    using dot by (intro strtoul0_show_nat) simp_all
  moreover have "isdigit (hd_c (show_nat v @ CHR ''.'' # rest))"
    by (simp add: hd_c_append isdigit_hd_show_nat)
  ultimately show ?thesis using v by simp
qed

lemma inet_parts_last:
  "v < 256 \<Longrightarrow> inet_parts (Suc 0) acc (show_nat v) = Some (acc * 256 + v)"
  using strtoul0_show_nat [of "[]" v] isdigit_hd_show_nat [of v] by simp

lemma inet_addr_dotted:
  assumes "a < 256" "b < 256" "c < 256" "d < 256"
  shows "inet_addr (dotted a b c d) = ntohl (word_of_nat (quad a b c d))"
proof -
  have "NUL \<notin> set (dotted a b c d)"
    by (simp add: dotted_def NUL_notin_show_nat)
  then have "cstr (dotted a b c d) = dotted a b c d" by (rule cstr_no_NUL)
  moreover have "inet_parts (Suc (Suc (Suc (Suc 0)))) 0 (dotted a b c d) = Some (quad a b c d)"
    using assms by (simp add: dotted_def inet_parts_dot inet_parts_last quad_def del: inet_parts.simps)
  moreover have "Suc (Suc (Suc (Suc 0))) = 4" by simp
  ultimately show ?thesis by (simp only: inet_addr_def option.case)
qed

lemma conf_string_plain:
  "hd_c s \<noteq> CHR ''$'' \<Longrightarrow> NUL \<notin> set s \<Longrightarrow> conf_string_or_envvar sys (Some s) = s"
  by (simp add: conf_string_or_envvar_def Let_def cstr_no_NUL)

text \<open>What a rule says of addresses: \<open>a.b.c.d/n\<close>, and \<open>a.b.c.d\<close> alone.\<close>

lemma dotted_NUL [simp]: "NUL \<notin> set (dotted a b c d)"
  by (simp add: dotted_def NUL_notin_show_nat)

lemma dotted_slash [simp]: "CHR ''/'' \<notin> set (dotted a b c d)"
  using show_nat_chars [of "CHR ''/''"] by (auto simp: dotted_def)

lemma dotted_hd [simp]: "hd_c (dotted a b c d @ t) \<noteq> CHR ''$''" "hd_c (dotted a b c d) \<noteq> CHR ''$''"
  using show_nat_chars [of "hd_c (show_nat a)" a] by (simp_all add: dotted_def hd_c_append hd_c_in_set)

lemma and_all_ones [simp]: "w AND 0xFFFFFFFF = w" for w :: "32 word"
proof -
  have "(0xFFFFFFFF :: 32 word) = - 1" by simp
  then show ?thesis by (simp only: and.right_neutral)
qed

lemma parse_cidr_mask:
  assumes "a < 256" "b < 256" "c < 256" "d < 256" "n < 2 ^ 16"
  shows "parse_cidr sys (JSON_STRING (dotted a b c d @ CHR ''/'' # show_nat n)) acl =
    acl\<lparr>cidr_enabled := True, cidr_mask := cidr_mask_of n,
        cidr_subnet := word_of_nat (quad a b c d) AND cidr_mask_of n\<rparr>"
proof -
  let ?s = "dotted a b c d @ CHR ''/'' # show_nat n"
  have "conf_string_or_envvar sys (Some ?s) = ?s"
    by (rule conf_string_plain) (simp_all add: NUL_notin_show_nat)
  moreover have "strchr ?s 0 (CHR ''/'') = Some (length (dotted a b c d))"
    by (rule strchr_append) simp_all
  moreover have "slice ?s 0 (length (dotted a b c d)) = dotted a b c d"
    by (simp add: slice_eq_take_drop)
  moreover have "nat (atoi (show_nat n) mod 2 ^ 16) = n"
    using assms(5) by (simp add: atoi_show_nat)
  ultimately show ?thesis
    using inet_addr_dotted [OF assms(1-4)] by (simp add: parse_cidr_def)
qed

lemma parse_cidr_host:
  assumes "a < 256" "b < 256" "c < 256" "d < 256"
  shows "parse_cidr sys (JSON_STRING (dotted a b c d)) acl =
    acl\<lparr>cidr_enabled := True, cidr_mask := 0xFFFFFFFF, cidr_subnet := word_of_nat (quad a b c d)\<rparr>"
proof -
  have "conf_string_or_envvar sys (Some (dotted a b c d)) = dotted a b c d"
    by (simp add: conf_string_plain)
  moreover have "strchr (dotted a b c d) 0 (CHR ''/'') = None"
    by (rule strchr_notin) simp_all
  ultimately show ?thesis
    using inet_addr_dotted [OF assms] by (simp add: parse_cidr_def cidr_mask_of_def)
qed

section \<open>Lemmas: credentials and rules\<close>

lemma blockend_LF: "\<exists>body. base64_encode_blockend st = body @ [LF] \<and> LF \<notin> set body"
proof -
  have "LF \<notin> set encoding" by (simp add: encoding_def)
  moreover have "unat v \<le> 63 \<Longrightarrow> encoding ! unat v \<in> set encoding" for v :: byte
    by (simp add: encoding_facts(1))
  ultimately have "unat v \<le> 63 \<Longrightarrow> encoding ! unat v \<noteq> LF" for v :: byte
    by metis
  then have "LF \<noteq> base64_encode_value (result st)"
    unfolding base64_encode_value_def by (simp add: not_less) metis
  then show ?thesis
    by (auto simp: base64_encode_blockend_def split: base64_encodestep.split)
qed

lemma encode_block_eq_Nil: "fst (base64_encode_block xs st) = [] \<longleftrightarrow> xs = []"
  by (cases xs) (auto simp: Let_def split: base64_encodestep.split prod.split)

lemma parse_basic_auth_None:
  "parse_basic_auth sys jbasic a = None \<longleftrightarrow> conf_string_or_envvar sys (json_string_value jbasic) = []"
  using encode_block_eq_Nil
  by (auto simp: parse_basic_auth_def Let_def split: prod.split) (metis fst_conv map_is_Nil_conv)+

lemma takeWhile_LF: "LF \<notin> set body \<Longrightarrow> takeWhile (\<lambda>c. c \<noteq> LF) (body @ [LF]) = body"
  by (subst takeWhile_append2) auto

lemma parse_basic_auth_groups:
  assumes "plain = conf_string_or_envvar sys (json_string_value jbasic)"
    and "plain \<noteq> []" "length plain div 3 < 1024"
  shows "parse_basic_auth sys jbasic a =
    Some (a\<lparr>http_basic_auth := Some (b64_groups (map byte_of_char plain))\<rparr>)"
proof -
  let ?xs = "map byte_of_char plain"
  obtain out st where blk: "base64_encode_block ?xs base64_init_encodestate = (out, st)"
    by (cases "base64_encode_block ?xs base64_init_encodestate")
  obtain body where body: "base64_encode_blockend st = body @ [LF]" "LF \<notin> set body"
    using blockend_LF by blast
  have "out @ body @ [LF] = b64_groups ?xs @ [LF]"
    using base64_eq_groups [of ?xs] assms(3) blk body(1) by (simp add: base64_def)
  moreover have "out \<noteq> []"
    using encode_block_eq_Nil [of ?xs base64_init_encodestate] blk assms(2) by simp
  ultimately show ?thesis
    using blk body by (simp add: parse_basic_auth_def Let_def takeWhile_LF assms(1) [symmetric])
qed

lemma byte_of_char_inj: "char_of_byte (byte_of_char c) = c"
  using code_bound [of c]
  by (simp add: char_of_byte_def byte_of_char_def unat_of_nat take_bit_eq_mod del: code_bound)

lemma conf_parse_acl_None:
  "conf_parse_acl sys j = None \<longleftrightarrow>
     (\<exists>jbasic. json_object_get j ''http_basic_auth'' = Some jbasic \<and> json_is_string jbasic \<and>
       conf_string_or_envvar sys (json_string_value jbasic) = [])"
  by (auto simp: conf_parse_acl_def Let_def parse_basic_auth_None Option.bind_eq_None_conv
      split: option.splits if_splits)

text \<open>The chain of rules is in the order of the file.\<close>

lemma parse_acls_from_eq:
  "parse_acls_from sys chain vals = map_option ((@) chain) (sequence_opt (map (conf_parse_acl sys) vals))"
proof (induction vals arbitrary: chain)
  case Nil
  then show ?case by simp
next
  case (Cons v vals)
  then show ?case
    by (cases "conf_parse_acl sys v"; cases "sequence_opt (map (conf_parse_acl sys) vals)") simp_all
qed

lemma conf_parse_acls_eq:
  "conf_parse_acls sys jtab = sequence_opt (map (conf_parse_acl sys) (json_elements jtab))"
  by (cases "sequence_opt (map (conf_parse_acl sys) (json_elements jtab))")
    (simp_all add: conf_parse_acls_def parse_acls_from_eq)

section \<open>Lemmas: the configuration\<close>

definition int32 :: "int \<Rightarrow> bool" where
  "int32 i = (- (2 ^ 31) \<le> i \<and> i < 2 ^ 31)"

text \<open>Every field is in the range of its C type, and the verbosity in that of the log levels.\<close>

definition conf_wf :: "conf \<Rightarrow> bool" where
  "conf_wf cfg =
     (int32 (redis_port cfg) \<and> int32 (http_port cfg) \<and> int32 (http_threads cfg) \<and>
      http_max_request_size cfg < 2 ^ 64 \<and> int32 (pool_size_per_thread cfg) \<and> int32 (database cfg) \<and>
      0 \<le> verbosity cfg \<and> verbosity cfg \<le> level_num WEBDIS_TRACE \<and>
      int32 (period_millis cfg) \<and> int32 (keep_alive_sec cfg))"

lemma int32_casts [simp]: "int32 (to_int32 i)" "int32 (atoi s)" "int32 (atoi_free s)"
  using to_int32_range by (simp_all add: int32_def atoi_free_def atoi_def Let_def)

lemma to_size_t_bound [simp]: "to_size_t i < 18446744073709551616"
  by (simp add: to_size_t_def nat_less_iff)

lemma read_verbosity_range [simp]: "0 \<le> read_verbosity j" "read_verbosity j \<le> 8"
  by (simp_all add: read_verbosity_def Let_def)

lemma conf_wf_defaults: "conf_wf (conf_defaults sys)"
  by (simp add: conf_wf_def conf_defaults_def int32_def)

lemma conf_wf_updates:
  assumes "conf_wf cfg"
  shows "int32 i \<Longrightarrow> conf_wf (cfg\<lparr>redis_port := i\<rparr>)" "int32 i \<Longrightarrow> conf_wf (cfg\<lparr>http_port := i\<rparr>)"
    "int32 i \<Longrightarrow> conf_wf (cfg\<lparr>http_threads := i\<rparr>)" "int32 i \<Longrightarrow> conf_wf (cfg\<lparr>database := i\<rparr>)"
    "int32 i \<Longrightarrow> conf_wf (cfg\<lparr>pool_size_per_thread := i\<rparr>)"
    "n < 2 ^ 64 \<Longrightarrow> conf_wf (cfg\<lparr>http_max_request_size := n\<rparr>)"
    "0 \<le> i \<Longrightarrow> i \<le> 8 \<Longrightarrow> conf_wf (cfg\<lparr>verbosity := i\<rparr>)"
    "conf_wf (cfg\<lparr>redis_host := s\<rparr>)" "conf_wf (cfg\<lparr>http_host := s\<rparr>)" "conf_wf (cfg\<lparr>perms := rules\<rparr>)"
    "conf_wf (cfg\<lparr>user := u\<rparr>)" "conf_wf (cfg\<lparr>group := u\<rparr>)" "conf_wf (cfg\<lparr>logfile := s\<rparr>)"
    "conf_wf (cfg\<lparr>daemonize := b\<rparr>)" "conf_wf (cfg\<lparr>pidfile := s\<rparr>)" "conf_wf (cfg\<lparr>websockets := b\<rparr>)"
    "conf_wf (cfg\<lparr>default_root := r\<rparr>)" "conf_wf (cfg\<lparr>ssl := sc\<rparr>)"
    "int32 i \<Longrightarrow> conf_wf (cfg\<lparr>keep_alive_sec := i\<rparr>)"
    "conf_wf (read_redis_auth sys cfg j)" "conf_wf (read_log_fsync cfg j)"
  using assms by (simp_all add: read_redis_auth_def read_log_fsync_def conf_wf_def)

lemma conf_wf_hiredis: "conf_wf cfg \<Longrightarrow> conf_wf (conf_parse_hiredis cfg j)"
  unfolding conf_parse_hiredis_def
  by (rule fold_invariant [where Q = "\<lambda>_. True"]) (auto simp: conf_wf_updates)

lemma pred_option_if: "pred_option P x \<Longrightarrow> pred_option P y \<Longrightarrow> pred_option P (if b then x else y)"
  by simp

lemma conf_wf_key: "conf_wf cfg \<Longrightarrow> pred_option conf_wf (conf_read_key sys kv cfg)"
  unfolding conf_read_key_def Let_def
  by (intro pred_option_if)
    (simp_all add: conf_wf_updates conf_wf_hiredis pred_option_def split: bind_splits option.splits)

lemma conf_wf_keys: "conf_wf cfg \<Longrightarrow> pred_option conf_wf (conf_read_keys sys kvs cfg)"
proof (induction kvs arbitrary: cfg)
  case Nil
  then show ?case by simp
next
  case (Cons kv kvs)
  then show ?case
    using conf_wf_key [of cfg sys kv] by (cases "conf_read_key sys kv cfg") simp_all
qed

section \<open>Properties\<close>


text \<open>
  The rules of the \<open>acl\<close> key become the chain of rules in the order of the file, and reading
  ends the process exactly if some rule has credentials that are empty.
\<close>

theorem conf_read_acl:
  "conf_read sys (Some (JSON_OBJECT [(''acl'', JSON_ARRAY rules)])) =
     (if \<exists>j \<in> set rules. \<exists>jbasic. json_object_get j ''http_basic_auth'' = Some jbasic \<and> json_is_string jbasic \<and>
           conf_string_or_envvar sys (json_string_value jbasic) = []
      then None
      else Some ((conf_defaults sys)\<lparr>perms := map (\<lambda>j. the (conf_parse_acl sys j)) rules\<rparr>))"
proof -
  have acl: "conf_read sys (Some (JSON_OBJECT [(''acl'', JSON_ARRAY rules)])) =
      map_option (\<lambda>rs. (conf_defaults sys)\<lparr>perms := rs\<rparr>) (sequence_opt (map (conf_parse_acl sys) rules))"
    by (cases "sequence_opt (map (conf_parse_acl sys) rules)")
      (simp_all add: conf_read_def conf_read_key_def conf_parse_acls_eq strcmp_eq_0 cstr_def)
  have seq: "sequence_opt (map (conf_parse_acl sys) js) =
      (if \<exists>j \<in> set js. conf_parse_acl sys j = None then None
       else Some (map (\<lambda>j. the (conf_parse_acl sys j)) js))" for js
    by (induction js) auto
  show ?thesis unfolding acl seq by (auto simp: conf_parse_acl_None)
qed

end
