(* ===== verification/Http_Parser.thy ===== *)
theory Http_Parser
  imports C_Lib
begin

text \<open>
  The HTTP parser, \<open>http-parser/http_parser.c\<close>, in its strict form.

  \<open>http_parser_execute\<close> is one loop over the bytes with a switch over the state. The model has a
  step for each case of the switch: the list of what the case does to the parser, to the local
  variables and to the marks, in the order of the code. A mark, a pointer to where a piece of
  text begins, is represented by the bytes from there up to the current position.

  The fields \<open>state\<close>, \<open>header_state\<close>, \<open>index\<close> and \<open>nread\<close> of the parser are copied into local variables
  and written back only when all bytes were read. The flags of the parser are one field each.
  Callbacks work on a state of their own; a callback that webdis leaves null returns 0, and
  \<open>on_headers_complete\<close>, which is one of them, is left out. A failed assertion and reading behind
  the end of a string are \<open>ABORT\<close>. The content length wraps around at 64 bits.
\<close>

section \<open>Data\<close>

datatype (plugins only: code) http_method =
    HTTP_DELETE | HTTP_GET | HTTP_HEAD | HTTP_POST | HTTP_PUT | HTTP_CONNECT | HTTP_OPTIONS | HTTP_TRACE
  | HTTP_COPY | HTTP_LOCK | HTTP_MKCOL | HTTP_MOVE | HTTP_PROPFIND | HTTP_PROPPATCH | HTTP_UNLOCK
  | HTTP_REPORT | HTTP_MKACTIVITY | HTTP_CHECKOUT | HTTP_MERGE | HTTP_MSEARCH | HTTP_NOTIFY
  | HTTP_SUBSCRIBE | HTTP_UNSUBSCRIBE

primrec method_string :: "http_method \<Rightarrow> string" where
  "method_string HTTP_DELETE = ''DELETE''"
| "method_string HTTP_GET = ''GET''"
| "method_string HTTP_HEAD = ''HEAD''"
| "method_string HTTP_POST = ''POST''"
| "method_string HTTP_PUT = ''PUT''"
| "method_string HTTP_CONNECT = ''CONNECT''"
| "method_string HTTP_OPTIONS = ''OPTIONS''"
| "method_string HTTP_TRACE = ''TRACE''"
| "method_string HTTP_COPY = ''COPY''"
| "method_string HTTP_LOCK = ''LOCK''"
| "method_string HTTP_MKCOL = ''MKCOL''"
| "method_string HTTP_MOVE = ''MOVE''"
| "method_string HTTP_PROPFIND = ''PROPFIND''"
| "method_string HTTP_PROPPATCH = ''PROPPATCH''"
| "method_string HTTP_UNLOCK = ''UNLOCK''"
| "method_string HTTP_REPORT = ''REPORT''"
| "method_string HTTP_MKACTIVITY = ''MKACTIVITY''"
| "method_string HTTP_CHECKOUT = ''CHECKOUT''"
| "method_string HTTP_MERGE = ''MERGE''"
| "method_string HTTP_MSEARCH = ''M-SEARCH''"
| "method_string HTTP_NOTIFY = ''NOTIFY''"
| "method_string HTTP_SUBSCRIBE = ''SUBSCRIBE''"
| "method_string HTTP_UNSUBSCRIBE = ''UNSUBSCRIBE''"

definition token_table :: string where
  "token_table =
     replicate 32 NUL @
     [CHR '' '', CHR ''!'', DQUOTE, CHR ''#'', CHR ''$'', CHR ''%'', CHR ''&'', CHR 0x27] @
     [NUL, NUL, CHR ''*'', CHR ''+'', NUL, CHR ''-'', CHR ''.'', CHR ''/''] @
     ''0123456789'' @ [NUL, NUL, NUL, NUL, NUL, NUL] @
     [NUL] @ ''abcdefghijklmnopqrstuvwxyz'' @ [NUL, NUL, NUL, CHR ''^'', CHR ''_''] @
     [CHR 0x60] @ ''abcdefghijklmnopqrstuvwxyz'' @ [NUL, CHR ''|'', CHR ''}'', CHR ''~'', NUL] @
     replicate 128 NUL"

definition TOKEN :: "char \<Rightarrow> char" where
  "TOKEN c = token_table ! code c"

unbundle bit_operations_syntax

definition LOWER :: "char \<Rightarrow> char" where
  "LOWER c = char_of (code c OR 0x20)"

definition unhex :: "char \<Rightarrow> int" where
  "unhex c =
     (if 48 \<le> code c \<and> code c \<le> 57 then int (code c) - 48
      else if 65 \<le> code c \<and> code c \<le> 70 then int (code c) - 55
      else if 97 \<le> code c \<and> code c \<le> 102 then int (code c) - 87
      else -1)"

definition normal_url_char :: "char \<Rightarrow> bool" where
  "normal_url_char c = (32 < code c \<and> code c < 127 \<and> c \<noteq> CHR ''#'' \<and> c \<noteq> CHR ''?'')"

datatype (plugins only: code) state =
    s_dead
  | s_start_req_or_res | s_res_or_resp_H | s_start_res | s_res_H | s_res_HT | s_res_HTT | s_res_HTTP
  | s_res_first_http_major | s_res_http_major | s_res_first_http_minor | s_res_http_minor
  | s_res_first_status_code | s_res_status_code | s_res_status | s_res_line_almost_done
  | s_start_req
  | s_req_method | s_req_spaces_before_url | s_req_schema | s_req_schema_slash | s_req_schema_slash_slash
  | s_req_host | s_req_port | s_req_path | s_req_query_string_start | s_req_query_string
  | s_req_fragment_start | s_req_fragment | s_req_http_start | s_req_http_H | s_req_http_HT | s_req_http_HTT
  | s_req_http_HTTP | s_req_first_http_major | s_req_http_major | s_req_first_http_minor | s_req_http_minor
  | s_req_line_almost_done
  | s_header_field_start | s_header_field | s_header_value_start | s_header_value | s_header_almost_done
  | s_headers_almost_done
  | s_chunk_size_start | s_chunk_size | s_chunk_size_almost_done | s_chunk_parameters | s_chunk_data
  | s_chunk_data_almost_done | s_chunk_data_done
  | s_body_identity | s_body_identity_eof

datatype (plugins only: code) header_states =
    h_general | h_C | h_CO | h_CON
  | h_matching_connection | h_matching_proxy_connection | h_matching_content_length
  | h_matching_transfer_encoding | h_matching_upgrade
  | h_connection | h_content_length | h_transfer_encoding | h_upgrade
  | h_matching_transfer_encoding_chunked | h_matching_connection_keep_alive | h_matching_connection_close
  | h_transfer_encoding_chunked | h_connection_keep_alive | h_connection_close

datatype http_parser_type = HTTP_REQUEST | HTTP_RESPONSE | HTTP_BOTH

record http_parser =
  p_type :: http_parser_type
  p_chunked :: bool
  p_connection_keep_alive :: bool
  p_connection_close :: bool
  p_trailing :: bool
  p_upgrade_header :: bool
  p_skipbody :: bool
  p_state :: state
  p_header_state :: header_states
  p_index :: nat
  p_nread :: nat
  p_content_length :: int
  p_http_major :: nat
  p_http_minor :: nat
  p_status_code :: nat
  p_method :: http_method
  p_upgrade :: bool

definition HTTP_MAX_HEADER_SIZE :: nat where
  "HTTP_MAX_HEADER_SIZE = 80 * 1024"

definition to_int64 :: "int \<Rightarrow> int" where
  "to_int64 i = (i + 2 ^ 63) mod 2 ^ 64 - 2 ^ 63"

text \<open>\<open>parser->flags = 0\<close>, and what starts a message.\<close>

definition clear_flags :: "http_parser \<Rightarrow> http_parser" where
  "clear_flags p =
     p\<lparr>p_chunked := False, p_connection_keep_alive := False, p_connection_close := False, p_trailing := False,
       p_upgrade_header := False, p_skipbody := False\<rparr>"

definition start_message :: "http_parser \<Rightarrow> http_parser" where
  "start_message p = (clear_flags p)\<lparr>p_content_length := -1\<rparr>"

definition http_should_keep_alive :: "http_parser \<Rightarrow> bool" where
  "http_should_keep_alive p =
     (if p_http_major p > 0 \<and> p_http_minor p > 0 then \<not> p_connection_close p else p_connection_keep_alive p)"

definition start_state :: "http_parser \<Rightarrow> state" where
  "start_state p = (if p_type p = HTTP_REQUEST then s_start_req else s_start_res)"

definition NEW_MESSAGE :: "http_parser \<Rightarrow> state" where
  "NEW_MESSAGE p = (if http_should_keep_alive p then start_state p else s_dead)"

definition body_state :: "state \<Rightarrow> bool" where
  "body_state st =
     (st \<in> {s_chunk_size_start, s_chunk_size, s_chunk_size_almost_done, s_chunk_parameters, s_chunk_data,
       s_chunk_data_almost_done, s_chunk_data_done, s_body_identity, s_body_identity_eof})"

definition PARSING_HEADER :: "state \<Rightarrow> http_parser \<Rightarrow> bool" where
  "PARSING_HEADER st p = (\<not> body_state st \<and> \<not> p_trailing p)"

section \<open>Steps\<close>

datatype mark = header_field_mark | header_value_mark | fragment_mark | query_string_mark | path_mark | url_mark

datatype notification = message_begin | message_complete

text \<open>What a case of the switch does, one after the other.\<close>

datatype instr =
    MARK mark
  | CALLBACK mark
  | CALLBACK2 notification
  | BODY string
  | GOTO state
  | HEADER header_states
  | INDEX nat
  | NREAD nat
  | SET "http_parser \<Rightarrow> http_parser"
  | RETURN
  | ERROR
  | ABORT

text \<open>A check that ends in \<open>goto error\<close>.\<close>

definition check_or_error :: "bool \<Rightarrow> instr list \<Rightarrow> instr list" where
  "check_or_error ok is = (if ok then is else [ERROR])"

definition assert_or_abort :: "bool \<Rightarrow> instr list \<Rightarrow> instr list" where
  "assert_or_abort ok is = (if ok then is else [ABORT])"

definition digit_of :: "char \<Rightarrow> nat" where
  "digit_of c = code c - 48"

text \<open>The next digit of a number below 1000.\<close>

definition next_digit :: "(http_parser \<Rightarrow> nat) \<Rightarrow> (nat \<Rightarrow> http_parser \<Rightarrow> http_parser) \<Rightarrow> http_parser \<Rightarrow> char \<Rightarrow> instr list" where
  "next_digit get put p ch =
     check_or_error (isdigit ch)
       (let n = get p * 10 + digit_of ch in SET (put n) # check_or_error (n \<le> 999) [])"

abbreviation put_major :: "nat \<Rightarrow> http_parser \<Rightarrow> http_parser" where
  "put_major n p \<equiv> p\<lparr>p_http_major := n\<rparr>"

abbreviation put_minor :: "nat \<Rightarrow> http_parser \<Rightarrow> http_parser" where
  "put_minor n p \<equiv> p\<lparr>p_http_minor := n\<rparr>"

abbreviation put_status :: "nat \<Rightarrow> http_parser \<Rightarrow> http_parser" where
  "put_status n p \<equiv> p\<lparr>p_status_code := n\<rparr>"

definition start_req_method_assign :: "char \<Rightarrow> instr list" where
  "start_req_method_assign ch =
     (let start = (\<lambda>m. [SET (\<lambda>p. p\<lparr>p_method := m\<rparr>), INDEX 1, GOTO s_req_method]) in
      if ch = CHR ''C'' then start HTTP_CONNECT
      else if ch = CHR ''D'' then start HTTP_DELETE
      else if ch = CHR ''G'' then start HTTP_GET
      else if ch = CHR ''H'' then start HTTP_HEAD
      else if ch = CHR ''L'' then start HTTP_LOCK
      else if ch = CHR ''M'' then start HTTP_MKCOL
      else if ch = CHR ''N'' then start HTTP_NOTIFY
      else if ch = CHR ''O'' then start HTTP_OPTIONS
      else if ch = CHR ''P'' then start HTTP_POST
      else if ch = CHR ''R'' then start HTTP_REPORT
      else if ch = CHR ''S'' then start HTTP_SUBSCRIBE
      else if ch = CHR ''T'' then start HTTP_TRACE
      else if ch = CHR ''U'' then start HTTP_UNLOCK
      else [SET (\<lambda>p. p\<lparr>p_method := HTTP_DELETE\<rparr>), INDEX 1, ERROR])"

text \<open>
  \<open>s_req_method\<close>: the method that continues the letters read so far, \<^term>\<open>None\<close> for an error.
  \<open>CONNECT\<close> and \<open>MKCOL\<close> are never an error, whatever the letter.
\<close>

definition next_method :: "http_method \<Rightarrow> nat \<Rightarrow> char \<Rightarrow> http_method option" where
  "next_method m index ch =
     (if m = HTTP_CONNECT
      then Some (if index = 1 \<and> ch = CHR ''H'' then HTTP_CHECKOUT
                 else if index = 2 \<and> ch = CHR ''P'' then HTTP_COPY else m)
      else if m = HTTP_MKCOL
      then Some (if index = 1 \<and> ch = CHR ''O'' then HTTP_MOVE
                 else if index = 1 \<and> ch = CHR ''E'' then HTTP_MERGE
                 else if index = 1 \<and> ch = CHR ''-'' then HTTP_MSEARCH
                 else if index = 2 \<and> ch = CHR ''A'' then HTTP_MKACTIVITY else m)
      else if index = 1 \<and> m = HTTP_POST \<and> ch = CHR ''R'' then Some HTTP_PROPFIND
      else if index = 1 \<and> m = HTTP_POST \<and> ch = CHR ''U'' then Some HTTP_PUT
      else if index = 2 \<and> m = HTTP_UNLOCK \<and> ch = CHR ''S'' then Some HTTP_UNSUBSCRIBE
      else if index = 4 \<and> m = HTTP_PROPFIND \<and> ch = CHR ''P'' then Some HTTP_PROPPATCH
      else None)"

definition req_method :: "http_method \<Rightarrow> nat \<Rightarrow> char \<Rightarrow> instr list" where
  "req_method m index ch =
     (let matcher = method_string m in
      if ch = NUL then [ERROR]
      else if index > length matcher then [ABORT]
      else if ch = CHR '' '' \<and> at_c matcher index = NUL then [GOTO s_req_spaces_before_url, INDEX (index + 1)]
      else if ch = at_c matcher index then [INDEX (index + 1)]
      else case next_method m index ch of
        Some m \<Rightarrow> [SET (\<lambda>p. p\<lparr>p_method := m\<rparr>), INDEX (index + 1)]
      | None \<Rightarrow> [ERROR])"

text \<open>The end of a request line without a version.\<close>

definition http_0_9 :: "state \<Rightarrow> instr list" where
  "http_0_9 st = [SET (\<lambda>p. p\<lparr>p_http_major := 0, p_http_minor := 9\<rparr>), GOTO st]"

definition url_letter :: "char \<Rightarrow> bool" where
  "url_letter ch = (97 \<le> code (LOWER ch) \<and> code (LOWER ch) \<le> 122)"

text \<open>
  The end of a URL: a space, or a line end for a request without a version. The callbacks in \<open>cbs\<close>
  run first.
\<close>

definition url_end :: "mark list \<Rightarrow> char \<Rightarrow> instr list \<Rightarrow> instr list" where
  "url_end cbs ch otherwise =
     (if ch = CHR '' '' then map CALLBACK cbs @ [GOTO s_req_http_start]
      else if ch = CR then map CALLBACK cbs @ http_0_9 s_req_line_almost_done
      else if ch = LF then map CALLBACK cbs @ http_0_9 s_header_field_start
      else otherwise)"

text \<open>The state of the header after the first character of its name.\<close>

definition header_first :: "char \<Rightarrow> header_states" where
  "header_first c =
     (if c = CHR ''c'' then h_C
      else if c = CHR ''p'' then h_matching_proxy_connection
      else if c = CHR ''t'' then h_matching_transfer_encoding
      else if c = CHR ''u'' then h_matching_upgrade
      else h_general)"

text \<open>One more character of a word that is being matched.\<close>

definition match_word :: "string \<Rightarrow> header_states \<Rightarrow> header_states \<Rightarrow> nat \<Rightarrow> char \<Rightarrow> instr list" where
  "match_word word matching found index c =
     (let index = index + 1 in
      if index > length word \<or> c \<noteq> at_c word index then [INDEX index, HEADER h_general]
      else if index = length word - 1 then [INDEX index, HEADER found]
      else [INDEX index, HEADER matching])"

fun header_name :: "header_states \<Rightarrow> nat \<Rightarrow> char \<Rightarrow> char \<Rightarrow> instr list" where
  "header_name h_general index ch c = []"
| "header_name h_C index ch c = [INDEX (index + 1), HEADER (if c = CHR ''o'' then h_CO else h_general)]"
| "header_name h_CO index ch c = [INDEX (index + 1), HEADER (if c = CHR ''n'' then h_CON else h_general)]"
| "header_name h_CON index ch c =
     [INDEX (index + 1), HEADER (if c = CHR ''n'' then h_matching_connection
        else if c = CHR ''t'' then h_matching_content_length else h_general)]"
| "header_name h_matching_connection index ch c = match_word ''connection'' h_matching_connection h_connection index c"
| "header_name h_matching_proxy_connection index ch c =
     match_word ''proxy-connection'' h_matching_proxy_connection h_connection index c"
| "header_name h_matching_content_length index ch c =
     match_word ''content-length'' h_matching_content_length h_content_length index c"
| "header_name h_matching_transfer_encoding index ch c =
     match_word ''transfer-encoding'' h_matching_transfer_encoding h_transfer_encoding index c"
| "header_name h_matching_upgrade index ch c = match_word ''upgrade'' h_matching_upgrade h_upgrade index c"
| "header_name h_connection index ch c = (if ch \<noteq> CHR '' '' then [HEADER h_general] else [])"
| "header_name h_content_length index ch c = (if ch \<noteq> CHR '' '' then [HEADER h_general] else [])"
| "header_name h_transfer_encoding index ch c = (if ch \<noteq> CHR '' '' then [HEADER h_general] else [])"
| "header_name h_upgrade index ch c = (if ch \<noteq> CHR '' '' then [HEADER h_general] else [])"
| "header_name _ index ch c = [ABORT]"

fun value_first :: "header_states \<Rightarrow> char \<Rightarrow> char \<Rightarrow> instr list" where
  "value_first h_upgrade ch c = [SET (\<lambda>p. p\<lparr>p_upgrade_header := True\<rparr>), HEADER h_general]"
| "value_first h_transfer_encoding ch c =
     [HEADER (if c = CHR ''c'' then h_matching_transfer_encoding_chunked else h_general)]"
| "value_first h_content_length ch c =
     check_or_error (isdigit ch) [SET (\<lambda>p. p\<lparr>p_content_length := int (digit_of ch)\<rparr>)]"
| "value_first h_connection ch c =
     [HEADER (if c = CHR ''k'' then h_matching_connection_keep_alive
        else if c = CHR ''c'' then h_matching_connection_close else h_general)]"
| "value_first _ ch c = [HEADER h_general]"

fun header_text :: "header_states \<Rightarrow> nat \<Rightarrow> char \<Rightarrow> char \<Rightarrow> instr list" where
  "header_text h_general index ch c = []"
| "header_text h_connection index ch c = [ABORT]"
| "header_text h_transfer_encoding index ch c = [ABORT]"
| "header_text h_content_length index ch c =
     (if ch = CHR '' '' then []
      else check_or_error (isdigit ch)
        [SET (\<lambda>p. p\<lparr>p_content_length := to_int64 (to_int64 (p_content_length p * 10) + int (digit_of ch))\<rparr>)])"
| "header_text h_matching_transfer_encoding_chunked index ch c =
     match_word ''chunked'' h_matching_transfer_encoding_chunked h_transfer_encoding_chunked index c"
| "header_text h_matching_connection_keep_alive index ch c =
     match_word ''keep-alive'' h_matching_connection_keep_alive h_connection_keep_alive index c"
| "header_text h_matching_connection_close index ch c =
     match_word ''close'' h_matching_connection_close h_connection_close index c"
| "header_text h_transfer_encoding_chunked index ch c = (if ch \<noteq> CHR '' '' then [HEADER h_general] else [])"
| "header_text h_connection_keep_alive index ch c = (if ch \<noteq> CHR '' '' then [HEADER h_general] else [])"
| "header_text h_connection_close index ch c = (if ch \<noteq> CHR '' '' then [HEADER h_general] else [])"
| "header_text _ index ch c = [GOTO s_header_value, HEADER h_general]"

definition header_almost_done :: "header_states \<Rightarrow> char \<Rightarrow> instr list" where
  "header_almost_done hs ch =
     check_or_error (ch = LF)
       (GOTO s_header_field_start #
        (if hs = h_connection_keep_alive then [SET (\<lambda>p. p\<lparr>p_connection_keep_alive := True\<rparr>)]
         else if hs = h_connection_close then [SET (\<lambda>p. p\<lparr>p_connection_close := True\<rparr>)]
         else if hs = h_transfer_encoding_chunked then [SET (\<lambda>p. p\<lparr>p_chunked := True\<rparr>)]
         else []))"

definition finish_message :: "http_parser \<Rightarrow> instr list" where
  "finish_message p = [CALLBACK2 message_complete, GOTO (NEW_MESSAGE p)]"

definition headers_almost_done :: "http_parser \<Rightarrow> char \<Rightarrow> instr list" where
  "headers_almost_done p ch =
     check_or_error (ch = LF)
       (if p_trailing p then finish_message p
        else let upgrade = (p_upgrade p \<or> p_upgrade_header p \<or> p_method p = HTTP_CONNECT) in
          [NREAD 0, SET (\<lambda>p. p\<lparr>p_upgrade := upgrade\<rparr>)] @
          (if upgrade then [CALLBACK2 message_complete, RETURN]
           else if p_skipbody p then finish_message p
           else if p_chunked p then [GOTO s_chunk_size_start]
           else if p_content_length p = 0 then finish_message p
           else if p_content_length p > 0 then [GOTO s_body_identity]
           else if p_type p = HTTP_REQUEST \<or> http_should_keep_alive p then finish_message p
           else [GOTO s_body_identity_eof]))"

text \<open>The longer cases of the switch, for the states that look at one byte.\<close>

definition case_start_req_or_res :: "char \<Rightarrow> instr list" where
  "case_start_req_or_res ch =
     (if ch = CR \<or> ch = LF then []
      else [SET start_message, CALLBACK2 message_begin] @
        (if ch = CHR ''H'' then [GOTO s_res_or_resp_H]
         else SET (\<lambda>p. p\<lparr>p_type := HTTP_REQUEST\<rparr>) # start_req_method_assign ch))"

definition case_res_or_resp_H :: "char \<Rightarrow> instr list" where
  "case_res_or_resp_H ch =
     (if ch = CHR ''T'' then [SET (\<lambda>p. p\<lparr>p_type := HTTP_RESPONSE\<rparr>), GOTO s_res_HT]
      else check_or_error (ch = CHR ''E'')
        [SET (\<lambda>p. p\<lparr>p_type := HTTP_REQUEST, p_method := HTTP_HEAD\<rparr>), INDEX 2, GOTO s_req_method])"

definition case_start_res :: "char \<Rightarrow> instr list" where
  "case_start_res ch =
     [SET start_message, CALLBACK2 message_begin] @
     (if ch = CHR ''H'' then [GOTO s_res_H] else check_or_error (ch = CR \<or> ch = LF) [])"

definition case_res_first_http_major :: "char \<Rightarrow> instr list" where
  "case_res_first_http_major ch =
     check_or_error (isdigit ch \<and> ch \<noteq> CHR ''0'') [SET (put_major (digit_of ch)), GOTO s_res_http_major]"

definition case_res_http_major :: "http_parser \<Rightarrow> char \<Rightarrow> instr list" where
  "case_res_http_major p ch =
     (if ch = CHR ''.'' then [GOTO s_res_first_http_minor] else next_digit p_http_major put_major p ch)"

definition case_res_http_minor :: "http_parser \<Rightarrow> char \<Rightarrow> instr list" where
  "case_res_http_minor p ch =
     (if ch = CHR '' '' then [GOTO s_res_first_status_code] else next_digit p_http_minor put_minor p ch)"

definition case_res_first_status_code :: "char \<Rightarrow> instr list" where
  "case_res_first_status_code ch =
     (if \<not> isdigit ch then check_or_error (ch = CHR '' '') []
      else [SET (put_status (digit_of ch)), GOTO s_res_status_code])"

definition case_res_status_code :: "http_parser \<Rightarrow> char \<Rightarrow> instr list" where
  "case_res_status_code p ch =
     (if \<not> isdigit ch
      then if ch = CHR '' '' then [GOTO s_res_status]
        else if ch = CR then [GOTO s_res_line_almost_done]
        else check_or_error (ch = LF) [GOTO s_header_field_start]
      else next_digit p_status_code put_status p ch)"

definition case_res_status :: "char \<Rightarrow> instr list" where
  "case_res_status ch =
     (if ch = CR then [GOTO s_res_line_almost_done] else if ch = LF then [GOTO s_header_field_start] else [])"

definition case_start_req :: "char \<Rightarrow> instr list" where
  "case_start_req ch =
     (if ch = CR \<or> ch = LF then []
      else [SET start_message, CALLBACK2 message_begin] @
        check_or_error (65 \<le> code ch \<and> code ch \<le> 90) (start_req_method_assign ch))"

definition case_req_spaces_before_url :: "char \<Rightarrow> instr list" where
  "case_req_spaces_before_url ch =
     (if ch = CHR '' '' then []
      else if ch = CHR ''/'' \<or> ch = CHR ''*'' then [MARK url_mark, MARK path_mark, GOTO s_req_path]
      else check_or_error (url_letter ch) [MARK url_mark, GOTO s_req_schema])"

definition case_req_schema :: "char \<Rightarrow> instr list" where
  "case_req_schema ch =
     (if url_letter ch then []
      else if ch = CHR '':'' then [GOTO s_req_schema_slash]
      else check_or_error (ch = CHR ''.'' \<or> isdigit ch) [GOTO s_req_host])"

definition case_req_host :: "char \<Rightarrow> instr list" where
  "case_req_host ch =
     (if url_letter ch \<or> isdigit ch \<or> ch = CHR ''.'' \<or> ch = CHR ''-'' then []
      else if ch = CHR '':'' then [GOTO s_req_port]
      else if ch = CHR ''/'' then [MARK path_mark, GOTO s_req_path]
      else check_or_error (ch = CHR '' '') [CALLBACK url_mark, GOTO s_req_http_start])"

definition case_req_port :: "char \<Rightarrow> instr list" where
  "case_req_port ch =
     (if isdigit ch then []
      else if ch = CHR ''/'' then [MARK path_mark, GOTO s_req_path]
      else check_or_error (ch = CHR '' '') [CALLBACK url_mark, GOTO s_req_http_start])"

definition case_req_path :: "char \<Rightarrow> instr list" where
  "case_req_path ch =
     (if normal_url_char ch then []
      else url_end [url_mark, path_mark] ch
        (if ch = CHR ''?'' then [CALLBACK path_mark, GOTO s_req_query_string_start]
         else check_or_error (ch = CHR ''#'') [CALLBACK path_mark, GOTO s_req_fragment_start]))"

definition case_req_query_string_start :: "char \<Rightarrow> instr list" where
  "case_req_query_string_start ch =
     (if normal_url_char ch then [MARK query_string_mark, GOTO s_req_query_string]
      else url_end [url_mark] ch
        (if ch = CHR ''?'' then [] else check_or_error (ch = CHR ''#'') [GOTO s_req_fragment_start]))"

definition case_req_query_string :: "char \<Rightarrow> instr list" where
  "case_req_query_string ch =
     (if normal_url_char ch then []
      else url_end [url_mark, query_string_mark] ch
        (if ch = CHR ''?'' then [] else check_or_error (ch = CHR ''#'') [CALLBACK query_string_mark, GOTO s_req_fragment_start]))"

definition case_req_fragment_start :: "char \<Rightarrow> instr list" where
  "case_req_fragment_start ch =
     (if normal_url_char ch then [MARK fragment_mark, GOTO s_req_fragment]
      else url_end [url_mark] ch
        (if ch = CHR ''?'' then [MARK fragment_mark, GOTO s_req_fragment] else check_or_error (ch = CHR ''#'') []))"

definition case_req_fragment :: "char \<Rightarrow> instr list" where
  "case_req_fragment ch =
     (if normal_url_char ch then []
      else url_end [url_mark, fragment_mark] ch (check_or_error (ch = CHR ''?'' \<or> ch = CHR ''#'') []))"

definition case_req_first_http_major :: "char \<Rightarrow> instr list" where
  "case_req_first_http_major ch =
     check_or_error (isdigit ch \<and> ch \<noteq> CHR ''0'') [SET (put_major (digit_of ch)), GOTO s_req_http_major]"

definition case_req_http_major :: "http_parser \<Rightarrow> char \<Rightarrow> instr list" where
  "case_req_http_major p ch =
     (if ch = CHR ''.'' then [GOTO s_req_first_http_minor] else next_digit p_http_major put_major p ch)"

definition case_req_http_minor :: "http_parser \<Rightarrow> char \<Rightarrow> instr list" where
  "case_req_http_minor p ch =
     (if ch = CR then [GOTO s_req_line_almost_done]
      else if ch = LF then [GOTO s_header_field_start]
      else next_digit p_http_minor put_minor p ch)"

definition case_header_field_start :: "http_parser \<Rightarrow> char \<Rightarrow> instr list" where
  "case_header_field_start p ch =
     (if ch = CR then [GOTO s_headers_almost_done]
      else if ch = LF then GOTO s_headers_almost_done # headers_almost_done p ch
      else check_or_error (TOKEN ch \<noteq> NUL)
        [MARK header_field_mark, INDEX 0, GOTO s_header_field, HEADER (header_first (TOKEN ch))])"

definition case_header_field :: "header_states \<Rightarrow> nat \<Rightarrow> char \<Rightarrow> instr list" where
  "case_header_field hs index ch =
     (if TOKEN ch \<noteq> NUL then header_name hs index ch (TOKEN ch)
      else if ch = CHR '':'' then [CALLBACK header_field_mark, GOTO s_header_value_start]
      else if ch = CR then [GOTO s_header_almost_done, CALLBACK header_field_mark]
      else check_or_error (ch = LF) [CALLBACK header_field_mark, GOTO s_header_field_start])"

definition case_header_value_start :: "header_states \<Rightarrow> char \<Rightarrow> instr list" where
  "case_header_value_start hs ch =
     (if ch = CHR '' '' then []
      else [MARK header_value_mark, GOTO s_header_value, INDEX 0] @
        (if ch = CR then [CALLBACK header_value_mark, HEADER h_general, GOTO s_header_almost_done]
         else if ch = LF then [CALLBACK header_value_mark, GOTO s_header_field_start]
         else value_first hs ch (LOWER ch)))"

definition case_header_value :: "header_states \<Rightarrow> nat \<Rightarrow> char \<Rightarrow> instr list" where
  "case_header_value hs index ch =
     (if ch = CR then [CALLBACK header_value_mark, GOTO s_header_almost_done]
      else if ch = LF then CALLBACK header_value_mark # header_almost_done hs ch
      else header_text hs index ch (LOWER ch))"

definition case_chunk_size_start :: "http_parser \<Rightarrow> char \<Rightarrow> instr list" where
  "case_chunk_size_start p ch =
     assert_or_abort (p_chunked p)
       (check_or_error (unhex ch \<noteq> -1) [SET (\<lambda>p. p\<lparr>p_content_length := unhex ch\<rparr>), GOTO s_chunk_size])"

definition case_chunk_size :: "http_parser \<Rightarrow> char \<Rightarrow> instr list" where
  "case_chunk_size p ch =
     assert_or_abort (p_chunked p)
       (if ch = CR then [GOTO s_chunk_size_almost_done]
        else if unhex ch = -1 then check_or_error (ch = CHR '';'' \<or> ch = CHR '' '') [GOTO s_chunk_parameters]
        else [SET (\<lambda>p. p\<lparr>p_content_length := to_int64 (to_int64 (p_content_length p * 16) + unhex ch)\<rparr>)])"

definition case_chunk_size_almost_done :: "http_parser \<Rightarrow> char \<Rightarrow> instr list" where
  "case_chunk_size_almost_done p ch =
     assert_or_abort (p_chunked p)
       (check_or_error (ch = LF)
         (if p_content_length p = 0 then [SET (\<lambda>p. p\<lparr>p_trailing := True\<rparr>), GOTO s_header_field_start]
          else [GOTO s_chunk_data]))"

lemmas case_defs [simp] =
  case_start_req_or_res_def case_res_or_resp_H_def case_start_res_def case_res_first_http_major_def
  case_res_http_major_def case_res_http_minor_def case_res_first_status_code_def case_res_status_code_def
  case_res_status_def case_start_req_def case_req_spaces_before_url_def case_req_schema_def case_req_host_def
  case_req_port_def case_req_path_def case_req_query_string_start_def case_req_query_string_def
  case_req_fragment_start_def case_req_fragment_def case_req_first_http_major_def case_req_http_major_def
  case_req_http_minor_def case_header_field_start_def case_header_field_def case_header_value_start_def
  case_header_value_def case_chunk_size_start_def case_chunk_size_def case_chunk_size_almost_done_def

text \<open>The switch.\<close>

primrec parser_step :: "http_parser \<Rightarrow> state \<Rightarrow> header_states \<Rightarrow> nat \<Rightarrow> char \<Rightarrow> instr list" where
  "parser_step p s_dead hs index ch = [ERROR]"
| "parser_step p s_start_req_or_res hs index ch = case_start_req_or_res ch"
| "parser_step p s_res_or_resp_H hs index ch = case_res_or_resp_H ch"
| "parser_step p s_start_res hs index ch = case_start_res ch"
| "parser_step p s_res_H hs index ch = check_or_error (ch = CHR ''T'') [GOTO s_res_HT]"
| "parser_step p s_res_HT hs index ch = check_or_error (ch = CHR ''T'') [GOTO s_res_HTT]"
| "parser_step p s_res_HTT hs index ch = check_or_error (ch = CHR ''P'') [GOTO s_res_HTTP]"
| "parser_step p s_res_HTTP hs index ch = check_or_error (ch = CHR ''/'') [GOTO s_res_first_http_major]"
| "parser_step p s_res_first_http_major hs index ch = case_res_first_http_major ch"
| "parser_step p s_res_http_major hs index ch = case_res_http_major p ch"
| "parser_step p s_res_first_http_minor hs index ch = check_or_error (isdigit ch) [SET (put_minor (digit_of ch)), GOTO s_res_http_minor]"
| "parser_step p s_res_http_minor hs index ch = case_res_http_minor p ch"
| "parser_step p s_res_first_status_code hs index ch = case_res_first_status_code ch"
| "parser_step p s_res_status_code hs index ch = case_res_status_code p ch"
| "parser_step p s_res_status hs index ch = case_res_status ch"
| "parser_step p s_res_line_almost_done hs index ch = check_or_error (ch = LF) [GOTO s_header_field_start]"
| "parser_step p s_start_req hs index ch = case_start_req ch"
| "parser_step p s_req_method hs index ch = req_method (p_method p) index ch"
| "parser_step p s_req_spaces_before_url hs index ch = case_req_spaces_before_url ch"
| "parser_step p s_req_schema hs index ch = case_req_schema ch"
| "parser_step p s_req_schema_slash hs index ch = check_or_error (ch = CHR ''/'') [GOTO s_req_schema_slash_slash]"
| "parser_step p s_req_schema_slash_slash hs index ch = check_or_error (ch = CHR ''/'') [GOTO s_req_host]"
| "parser_step p s_req_host hs index ch = case_req_host ch"
| "parser_step p s_req_port hs index ch = case_req_port ch"
| "parser_step p s_req_path hs index ch = case_req_path ch"
| "parser_step p s_req_query_string_start hs index ch = case_req_query_string_start ch"
| "parser_step p s_req_query_string hs index ch = case_req_query_string ch"
| "parser_step p s_req_fragment_start hs index ch = case_req_fragment_start ch"
| "parser_step p s_req_fragment hs index ch = case_req_fragment ch"
| "parser_step p s_req_http_start hs index ch = (if ch = CHR ''H'' then [GOTO s_req_http_H] else check_or_error (ch = CHR '' '') [])"
| "parser_step p s_req_http_H hs index ch = check_or_error (ch = CHR ''T'') [GOTO s_req_http_HT]"
| "parser_step p s_req_http_HT hs index ch = check_or_error (ch = CHR ''T'') [GOTO s_req_http_HTT]"
| "parser_step p s_req_http_HTT hs index ch = check_or_error (ch = CHR ''P'') [GOTO s_req_http_HTTP]"
| "parser_step p s_req_http_HTTP hs index ch = check_or_error (ch = CHR ''/'') [GOTO s_req_first_http_major]"
| "parser_step p s_req_first_http_major hs index ch = case_req_first_http_major ch"
| "parser_step p s_req_http_major hs index ch = case_req_http_major p ch"
| "parser_step p s_req_first_http_minor hs index ch = check_or_error (isdigit ch) [SET (put_minor (digit_of ch)), GOTO s_req_http_minor]"
| "parser_step p s_req_http_minor hs index ch = case_req_http_minor p ch"
| "parser_step p s_req_line_almost_done hs index ch = check_or_error (ch = LF) [GOTO s_header_field_start]"
| "parser_step p s_header_field_start hs index ch = case_header_field_start p ch"
| "parser_step p s_header_field hs index ch = case_header_field hs index ch"
| "parser_step p s_header_value_start hs index ch = case_header_value_start hs ch"
| "parser_step p s_header_value hs index ch = case_header_value hs index ch"
| "parser_step p s_header_almost_done hs index ch = header_almost_done hs ch"
| "parser_step p s_headers_almost_done hs index ch = headers_almost_done p ch"
| "parser_step p s_chunk_size_start hs index ch = case_chunk_size_start p ch"
| "parser_step p s_chunk_size hs index ch = case_chunk_size p ch"
| "parser_step p s_chunk_parameters hs index ch = assert_or_abort (p_chunked p) (if ch = CR then [GOTO s_chunk_size_almost_done] else [])"
| "parser_step p s_chunk_size_almost_done hs index ch = case_chunk_size_almost_done p ch"
| "parser_step p s_chunk_data_almost_done hs index ch = assert_or_abort (p_chunked p) (check_or_error (ch = CR) [GOTO s_chunk_data_done])"
| "parser_step p s_chunk_data_done hs index ch = assert_or_abort (p_chunked p) (check_or_error (ch = LF) [GOTO s_chunk_size_start])"
| "parser_step p s_chunk_data hs index ch = [ABORT]"
| "parser_step p s_body_identity hs index ch = [ABORT]"
| "parser_step p s_body_identity_eof hs index ch = [ABORT]"

text \<open>
  The states that read a body take \<open>to_read\<close> bytes at once. The result is the number of bytes behind
  the first that are consumed, and the instructions.
\<close>

definition body_read :: "http_parser \<Rightarrow> string \<Rightarrow> int \<Rightarrow> nat \<times> instr list" where
  "body_read p d to_read = (if to_read > 0 then (nat to_read - 1, [BODY (take (nat to_read) d)]) else (0, []))"

definition next_step :: "http_parser \<Rightarrow> state \<Rightarrow> header_states \<Rightarrow> nat \<Rightarrow> char \<Rightarrow> string \<Rightarrow> nat \<times> instr list" where
  "next_step p st hs index ch cs =
     (let d = ch # cs; to_read = min (int (length d)) (p_content_length p);
          take_off = SET (\<lambda>p. p\<lparr>p_content_length := p_content_length p - to_read\<rparr>) in
      if st = s_body_identity
      then let (k, is) = body_read p d to_read in
        (k, if to_read > 0
            then is @ [take_off] @
              (if p_content_length p - to_read = 0 then finish_message p else [])
            else [])
      else if st = s_body_identity_eof then body_read p d (int (length d))
      else if st = s_chunk_data
      then if \<not> p_chunked p then (0, [ABORT])
        else let (k, is) = body_read p d to_read in
          (k, is @ (if to_read = p_content_length p then [GOTO s_chunk_data_almost_done] else []) @ [take_off])
      else (0, parser_step p st hs index ch))"

section \<open>Execution\<close>

record 's http_parser_settings =
  on_message_begin :: "http_parser \<Rightarrow> 's \<Rightarrow> (int \<times> 's) option"
  on_path :: "http_parser \<Rightarrow> string \<Rightarrow> 's \<Rightarrow> (int \<times> 's) option"
  on_query_string :: "http_parser \<Rightarrow> string \<Rightarrow> 's \<Rightarrow> (int \<times> 's) option"
  on_url :: "http_parser \<Rightarrow> string \<Rightarrow> 's \<Rightarrow> (int \<times> 's) option"
  on_fragment :: "http_parser \<Rightarrow> string \<Rightarrow> 's \<Rightarrow> (int \<times> 's) option"
  on_header_field :: "http_parser \<Rightarrow> string \<Rightarrow> 's \<Rightarrow> (int \<times> 's) option"
  on_header_value :: "http_parser \<Rightarrow> string \<Rightarrow> 's \<Rightarrow> (int \<times> 's) option"
  on_body :: "http_parser \<Rightarrow> string \<Rightarrow> 's \<Rightarrow> (int \<times> 's) option"
  on_message_complete :: "http_parser \<Rightarrow> 's \<Rightarrow> (int \<times> 's) option"

primrec on_mark :: "'s http_parser_settings \<Rightarrow> mark \<Rightarrow> http_parser \<Rightarrow> string \<Rightarrow> 's \<Rightarrow> (int \<times> 's) option" where
  "on_mark cb header_field_mark = on_header_field cb"
| "on_mark cb header_value_mark = on_header_value cb"
| "on_mark cb fragment_mark = on_fragment cb"
| "on_mark cb query_string_mark = on_query_string cb"
| "on_mark cb path_mark = on_path cb"
| "on_mark cb url_mark = on_url cb"

fun on_notify :: "'s http_parser_settings \<Rightarrow> notification \<Rightarrow> http_parser \<Rightarrow> 's \<Rightarrow> (int \<times> 's) option" where
  "on_notify cb message_begin = on_message_begin cb"
| "on_notify cb message_complete = on_message_complete cb"

text \<open>The parser, the local variables, the marks, and the state of the callbacks.\<close>

record 's run =
  r_parser :: http_parser
  r_state :: state
  r_header_state :: header_states
  r_index :: nat
  r_nread :: nat
  r_marks :: "mark \<Rightarrow> string option"
  r_user :: 's

datatype 's outcome = Running "'s run" | Returned nat "'s run" | Failed nat "'s run" | Aborted

text \<open>A callback that may end the execution at position \<open>pos\<close>.\<close>

definition run_callback :: "nat \<Rightarrow> (int \<times> 's) option \<Rightarrow> 's run \<Rightarrow> 's outcome" where
  "run_callback pos res r =
     (case res of
        None \<Rightarrow> Aborted
      | Some (ret, s) \<Rightarrow> if ret = 0 then Running (r\<lparr>r_user := s\<rparr>) else Returned pos (r\<lparr>r_user := s\<rparr>))"

definition CALLBACK_NOCLEAR :: "'s http_parser_settings \<Rightarrow> nat \<Rightarrow> mark \<Rightarrow> 's run \<Rightarrow> 's outcome" where
  "CALLBACK_NOCLEAR cb pos m r =
     (case r_marks r m of
        None \<Rightarrow> Running r
      | Some text \<Rightarrow> run_callback pos (on_mark cb m (r_parser r) text (r_user r)) r)"

fun exec_instr :: "'s http_parser_settings \<Rightarrow> nat \<Rightarrow> instr \<Rightarrow> 's run \<Rightarrow> 's outcome" where
  "exec_instr cb pos (MARK m) r = Running (r\<lparr>r_marks := (r_marks r)(m \<mapsto> [])\<rparr>)"
| "exec_instr cb pos (CALLBACK m) r =
     (case CALLBACK_NOCLEAR cb pos m r of
        Running r \<Rightarrow> Running (r\<lparr>r_marks := (r_marks r)(m := None)\<rparr>)
      | res \<Rightarrow> res)"
| "exec_instr cb pos (CALLBACK2 n) r = run_callback pos (on_notify cb n (r_parser r) (r_user r)) r"
| "exec_instr cb pos (BODY text) r =
     (case on_body cb (r_parser r) text (r_user r) of
        None \<Rightarrow> Aborted
      | Some (ret, s) \<Rightarrow> Running (r\<lparr>r_user := s\<rparr>))"
| "exec_instr cb pos (GOTO st) r = Running (r\<lparr>r_state := st\<rparr>)"
| "exec_instr cb pos (HEADER hs) r = Running (r\<lparr>r_header_state := hs\<rparr>)"
| "exec_instr cb pos (INDEX i) r = Running (r\<lparr>r_index := i\<rparr>)"
| "exec_instr cb pos (NREAD n) r = Running (r\<lparr>r_nread := n\<rparr>)"
| "exec_instr cb pos (SET f) r = Running (r\<lparr>r_parser := f (r_parser r)\<rparr>)"
| "exec_instr cb pos RETURN r = Returned pos r"
| "exec_instr cb pos ERROR r = Failed pos r"
| "exec_instr cb pos ABORT r = Aborted"

fun exec_instrs :: "'s http_parser_settings \<Rightarrow> nat \<Rightarrow> instr list \<Rightarrow> 's run \<Rightarrow> 's outcome" where
  "exec_instrs cb pos [] r = Running r"
| "exec_instrs cb pos (i # is) r =
     (case exec_instr cb pos i r of Running r \<Rightarrow> exec_instrs cb pos is r | res \<Rightarrow> res)"

text \<open>The position moves on; the marks keep what they mark.\<close>

definition advance_marks :: "string \<Rightarrow> 's run \<Rightarrow> 's run" where
  "advance_marks read r = r\<lparr>r_marks := \<lambda>m. map_option (\<lambda>text. text @ read) (r_marks r m)\<rparr>"

function http_loop :: "'s http_parser_settings \<Rightarrow> nat \<Rightarrow> string \<Rightarrow> 's run \<Rightarrow> 's outcome" where
  "http_loop cb pos [] r = Running r"
| "http_loop cb pos (ch # cs) r =
     (let r = (if PARSING_HEADER (r_state r) (r_parser r) then r\<lparr>r_nread := r_nread r + 1\<rparr> else r) in
      if PARSING_HEADER (r_state r) (r_parser r) \<and> r_nread r > HTTP_MAX_HEADER_SIZE then Failed pos r
      else let (k, is) = next_step (r_parser r) (r_state r) (r_header_state r) (r_index r) ch cs in
        (case exec_instrs cb (pos + k) is r of
           Running r \<Rightarrow> http_loop cb (pos + 1 + k) (drop k cs) (advance_marks (ch # take k cs) r)
         | res \<Rightarrow> res))"
  by pat_completeness auto
termination
  by (relation "measure (\<lambda>(cb, pos, d, r). length d)") auto

text \<open>The marks at the beginning of a call: text that the state before was in the middle of.\<close>

definition url_state :: "state \<Rightarrow> bool" where
  "url_state st =
     (st \<in> {s_req_path, s_req_schema, s_req_schema_slash, s_req_schema_slash_slash, s_req_port,
       s_req_query_string_start, s_req_query_string, s_req_host, s_req_fragment_start, s_req_fragment})"

primrec marked :: "state \<Rightarrow> mark \<Rightarrow> bool" where
  "marked st header_field_mark = (st = s_header_field)"
| "marked st header_value_mark = (st = s_header_value)"
| "marked st fragment_mark = (st = s_req_fragment)"
| "marked st query_string_mark = (st = s_req_query_string)"
| "marked st path_mark = (st = s_req_path)"
| "marked st url_mark = url_state st"

definition start_run :: "http_parser \<Rightarrow> 's \<Rightarrow> 's run" where
  "start_run p s =
     \<lparr>r_parser = p, r_state = p_state p, r_header_state = p_header_state p, r_index = p_index p, r_nread = p_nread p,
      r_marks = (\<lambda>m. if marked (p_state p) m then Some [] else None), r_user = s\<rparr>"

fun end_callbacks :: "'s http_parser_settings \<Rightarrow> nat \<Rightarrow> mark list \<Rightarrow> 's run \<Rightarrow> 's outcome" where
  "end_callbacks cb pos [] r = Running r"
| "end_callbacks cb pos (m # ms) r =
     (case CALLBACK_NOCLEAR cb pos m r of Running r \<Rightarrow> end_callbacks cb pos ms r | res \<Rightarrow> res)"

definition all_marks :: "mark list" where
  "all_marks = [header_field_mark, header_value_mark, fragment_mark, query_string_mark, path_mark, url_mark]"

text \<open>Writing back; \<open>index\<close> is a byte and \<open>nread\<close> has 32 bits.\<close>

definition save_run :: "'s run \<Rightarrow> http_parser" where
  "save_run r =
     (r_parser r)\<lparr>p_state := r_state r, p_header_state := r_header_state r, p_index := r_index r mod 2 ^ 8,
       p_nread := r_nread r mod 2 ^ 32\<rparr>"

text \<open>The number of bytes read, the parser, and the state of the callbacks; \<^term>\<open>None\<close> for an abort.\<close>

definition http_parser_execute ::
    "'s http_parser_settings \<Rightarrow> http_parser \<Rightarrow> string \<Rightarrow> 's \<Rightarrow> (nat \<times> http_parser \<times> 's) option" where
  "http_parser_execute cb p data s =
     (if data = []
      then if p_state p = s_body_identity_eof
        then map_option (\<lambda>(ret, s). (0, p, s)) (on_message_complete cb p s)
        else Some (0, p, s)
      else case (case http_loop cb 0 data (start_run p s) of
          Running r \<Rightarrow> end_callbacks cb (length data) all_marks r
        | res \<Rightarrow> res) of
        Running r \<Rightarrow> Some (length data, save_run r, r_user r)
      | Returned pos r \<Rightarrow> Some (pos, r_parser r, r_user r)
      | Failed pos r \<Rightarrow> Some (pos, (r_parser r)\<lparr>p_state := s_dead\<rparr>, r_user r)
      | Aborted \<Rightarrow> None)"

definition http_parser_init :: "http_parser_type \<Rightarrow> http_parser" where
  "http_parser_init t =
     \<lparr>p_type = t, p_chunked = False, p_connection_keep_alive = False, p_connection_close = False,
      p_trailing = False, p_upgrade_header = False, p_skipbody = False,
      p_state = (case t of HTTP_REQUEST \<Rightarrow> s_start_req | HTTP_RESPONSE \<Rightarrow> s_start_res | HTTP_BOTH \<Rightarrow> s_start_req_or_res),
      p_header_state = h_general, p_index = 0, p_nread = 0, p_content_length = 0, p_http_major = 0,
      p_http_minor = 0, p_status_code = 0, p_method = HTTP_DELETE, p_upgrade = False\<rparr>"

end
