(* ===== verification/World.thy ===== *)
theory World
  imports Conf Http_Parser
begin

text \<open>
  The objects of one worker thread and its memory.

  The program keeps its objects on the heap and links them by pointers: a client points to its
  last command and to its WebSocket state, a command points back to its client, a Redis context
  holds callbacks with a command as their private data. The model keeps these links: a pointer is
  a \<^typ>\<open>nat\<close>, each kind of object has its own store, \<open>free\<close> removes the object from its store and
  the fields of a struct that own plain buffers hold the contents. Reading through a null or
  dangling pointer is a fault, the value \<^term>\<open>None\<close> of every operation on the world.

  The fields are those of \<open>client.h\<close>, \<open>cmd.h\<close>, \<open>http.h\<close>, \<open>websocket.h\<close>, \<open>pool.h\<close> and of the
  Redis context of \<open>hiredis/async.h\<close>, with a prefix per struct. Every object of a thread belongs
  to the thread's worker, so the pointers to the worker and the server are not fields; where a
  null worker changes the behaviour (\<open>cmd->w\<close>, \<open>http_response->w\<close>) there is a flag for it.

  The calls into the system are a trace of outputs, the list of events that wait in libevent, and
  the answers the system will give: results of \<open>write\<close> and of allocations and connections whose
  failure the code handles. An empty list of answers stands for success.
\<close>

type_synonym ptr = nat

section \<open>Structs\<close>

text \<open>\<open>struct http_header\<close>; the value is null until the parser reports one.\<close>

record http_header =
  h_key :: string
  h_val :: "string option"
  h_copy :: nat

datatype last_cb_t = LAST_CB_NONE | LAST_CB_KEY | LAST_CB_VAL

record http_client =
  hc_fd :: int
  hc_addr :: "32 word"
  hc_parser :: http_parser
  hc_buffer :: string
  hc_request_sz :: nat
  hc_last_cb :: last_cb_t
  hc_keep_alive :: bool
  hc_broken :: bool
  hc_fully_read :: bool
  hc_is_websocket :: bool
  hc_http_version :: nat
  hc_failed_alloc :: bool
  hc_path :: "string option"
  hc_headers :: "http_header list"
  hc_header_count :: nat
  hc_body :: "string option"
  hc_type :: "string option"
  hc_jsonp :: "string option"
  hc_separator :: "string option"
  hc_filename :: "string option"
  hc_reused_cmd :: "ptr option"
  hc_last_cmd :: "ptr option"
  hc_ws :: "ptr option"

datatype formatting_fun = json_reply_fun | raw_reply_fun | msgpack_reply_fun | custom_type_reply_fun

datatype cmd_response_t = CMD_SENT | CMD_PARAM_ERROR | CMD_ACL_FAIL | CMD_REDIS_UNAVAIL

text \<open>
  \<open>struct cmd\<close>. An entry of \<open>argv\<close> that \<open>calloc\<close> left null has length 0 and is the empty string.
\<close>

record cmd =
  cmd_fd :: int
  cmd_count :: int
  cmd_argv :: "string list"
  cmd_mime :: "string option"
  cmd_mime_free :: bool
  cmd_filename :: "string option"
  cmd_if_none_match :: "string option"
  cmd_jsonp :: "string option"
  cmd_separator :: "string option"
  cmd_keep_alive :: bool
  cmd_started_responding :: bool
  cmd_is_websocket :: bool
  cmd_http_version :: nat
  cmd_database :: int
  cmd_http_client :: "ptr option"
  cmd_pub_sub_client :: "ptr option"
  cmd_ac :: "ptr option"
  cmd_w :: bool

record http_response =
  r_code :: int
  r_msg :: "string option"
  r_headers :: "http_header list"
  r_headers_array_size :: nat
  r_body :: "string option"
  r_out :: string
  r_chunked :: bool
  r_http_version :: nat
  r_keep_alive :: bool
  r_sent :: nat
  r_w :: bool

record ws_client =
  ws_http_client :: "ptr option"
  ws_scheduled_read :: bool
  ws_scheduled_write :: bool
  ws_rbuf :: string
  ws_wbuf :: string
  ws_ac :: "ptr option"
  ws_cmd :: "ptr option"
  ws_close_after_events :: bool
  ws_ran_subscribe :: bool

record pool =
  pool_ac :: "ptr option list"
  pool_count :: int
  pool_cur :: int

text \<open>A callback of hiredis: a formatting function with its command, or the one of \<open>AUTH\<close>.\<close>

datatype redis_callback_fn = Format formatting_fun ptr | Auth_complete | No_callback

record redis_callback =
  cb_fn :: redis_callback_fn
  cb_pending_subs :: int

record redis_context =
  ac_err :: "string option"
  ac_data :: bool
  ac_connected :: bool
  ac_disconnecting :: bool
  ac_freeing :: bool
  ac_in_callback :: bool
  ac_subscribed :: bool
  ac_monitoring :: bool
  ac_replies :: "redis_callback list"
  ac_invalid :: "redis_callback list"
  ac_channels :: "(string \<times> redis_callback) list"
  ac_patterns :: "(string \<times> redis_callback) list"

section \<open>The world\<close>

text \<open>What the program does to the outside.\<close>

datatype io =
    Write int string
  | Close int
  | Log string
  | Fsync
  | Connect ptr string int
  | Redis ptr "string list"

text \<open>
  The events registered with libevent: a readable client, a writable response, the two events of
  a WebSocket client, and the timer of the pool.
\<close>

datatype event =
    Client_can_read ptr
  | Response_can_write int ptr
  | Ws_can_read ptr
  | Ws_can_write ptr
  | Pool_can_connect

record world =
  w_cfg :: conf
  w_clients :: "ptr \<Rightarrow> http_client option"
  w_cmds :: "ptr \<Rightarrow> cmd option"
  w_resps :: "ptr \<Rightarrow> http_response option"
  w_wss :: "ptr \<Rightarrow> ws_client option"
  w_acs :: "ptr \<Rightarrow> redis_context option"
  w_pool :: pool
  w_next :: ptr
  w_io :: "io list"
  w_events :: "event list"
  w_log_fd :: int
  w_log_self :: int
  w_time :: string
  w_msgpack :: bool
  w_auth_logged :: nat
  w_writes :: "int list"
  w_allocs :: "bool list"
  w_connects :: "string option list"

definition emit :: "io \<Rightarrow> world \<Rightarrow> world" where
  "emit e w = w\<lparr>w_io := w_io w @ [e]\<rparr>"

definition event_add :: "event \<Rightarrow> world \<Rightarrow> world" where
  "event_add e w = w\<lparr>w_events := w_events w @ [e]\<rparr>"

definition put_client :: "ptr \<Rightarrow> http_client \<Rightarrow> world \<Rightarrow> world" where
  "put_client p c w = w\<lparr>w_clients := (w_clients w)(p \<mapsto> c)\<rparr>"

definition put_cmd :: "ptr \<Rightarrow> cmd \<Rightarrow> world \<Rightarrow> world" where
  "put_cmd p c w = w\<lparr>w_cmds := (w_cmds w)(p \<mapsto> c)\<rparr>"

definition put_resp :: "ptr \<Rightarrow> http_response \<Rightarrow> world \<Rightarrow> world" where
  "put_resp p r w = w\<lparr>w_resps := (w_resps w)(p \<mapsto> r)\<rparr>"

definition put_ws :: "ptr \<Rightarrow> ws_client \<Rightarrow> world \<Rightarrow> world" where
  "put_ws p ws w = w\<lparr>w_wss := (w_wss w)(p \<mapsto> ws)\<rparr>"

definition put_ac :: "ptr \<Rightarrow> redis_context \<Rightarrow> world \<Rightarrow> world" where
  "put_ac p ac w = w\<lparr>w_acs := (w_acs w)(p \<mapsto> ac)\<rparr>"

text \<open>A fresh address.\<close>

definition fresh :: "world \<Rightarrow> ptr \<times> world" where
  "fresh w = (w_next w, w\<lparr>w_next := Suc (w_next w)\<rparr>)"

text \<open>Update of an object in place.\<close>

definition upd_client :: "ptr \<Rightarrow> (http_client \<Rightarrow> http_client) \<Rightarrow> world \<Rightarrow> world option" where
  "upd_client p f w = do { c \<leftarrow> w_clients w p; Some (put_client p (f c) w) }"

definition upd_cmd :: "ptr \<Rightarrow> (cmd \<Rightarrow> cmd) \<Rightarrow> world \<Rightarrow> world option" where
  "upd_cmd p f w = do { c \<leftarrow> w_cmds w p; Some (put_cmd p (f c) w) }"

definition upd_ws :: "ptr \<Rightarrow> (ws_client \<Rightarrow> ws_client) \<Rightarrow> world \<Rightarrow> world option" where
  "upd_ws p f w = do { ws \<leftarrow> w_wss w p; Some (put_ws p (f ws) w) }"

text \<open>
  \<open>write(fd, bytes)\<close>: the next answer of the system, at most what was asked for; without an
  answer all bytes are accepted.
\<close>

definition sys_write :: "int \<Rightarrow> string \<Rightarrow> world \<Rightarrow> int \<times> world" where
  "sys_write fd bytes w =
     (let ret = (case w_writes w of [] \<Rightarrow> int (length bytes) | r # _ \<Rightarrow> min r (int (length bytes)));
          w = w\<lparr>w_writes := tl (w_writes w)\<rparr>
      in (ret, if ret > 0 then emit (Write fd (take (nat ret) bytes)) w else w))"

text \<open>The result of an allocation that the code checks.\<close>

definition sys_alloc :: "world \<Rightarrow> bool \<times> world" where
  "sys_alloc w = ((case w_allocs w of [] \<Rightarrow> True | ok # _ \<Rightarrow> ok), w\<lparr>w_allocs := tl (w_allocs w)\<rparr>)"

text \<open>A worker without clients: no object, no event, an empty pool of the configured size.\<close>

definition idle_world :: "conf \<Rightarrow> world" where
  "idle_world cfg =
     \<lparr>w_cfg = cfg, w_clients = Map.empty, w_cmds = Map.empty, w_resps = Map.empty, w_wss = Map.empty,
      w_acs = Map.empty,
      w_pool = \<lparr>pool_ac = replicate (nat (pool_size_per_thread cfg)) None,
                pool_count = pool_size_per_thread cfg, pool_cur = 0\<rparr>,
      w_next = 1, w_io = [], w_events = [], w_log_fd = 0, w_log_self = 0, w_time = [], w_msgpack = False, w_auth_logged = 0,
      w_writes = [], w_allocs = [], w_connects = []\<rparr>"

section \<open>Logging\<close>

definition SLOG_MSG_MAX_LEN :: nat where
  "SLOG_MSG_MAX_LEN = 124"

text \<open>
  The line of \<open>slog_internal\<close>: \<open>sz\<close> 0 stands for the length of the C string, and \<open>snprintf\<close> keeps
  what fits into its buffer before the NUL. \<open>time_buf\<close> is what \<open>strftime\<close> printed.
\<close>

definition slog_letter :: "log_level \<Rightarrow> char" where
  "slog_letter level = (if level = WEBDIS_TRACE then ''EWNIDT'' ! 5 else ''EWNIDT'' ! nat (level_num level))"

definition slog_msg :: "string \<Rightarrow> nat \<Rightarrow> string" where
  "slog_msg body sz =
     (let sz = (if sz \<noteq> 0 then sz else strlen body);
          n = (if sz + 1 > 1 + SLOG_MSG_MAX_LEN then 1 + SLOG_MSG_MAX_LEN else sz + 1)
      in take (n - 1) (cstr body))"

definition slog_line :: "int \<Rightarrow> string \<Rightarrow> log_level \<Rightarrow> string \<Rightarrow> nat \<Rightarrow> string" where
  "slog_line self time_buf level body sz =
     ''['' @ show_int self @ ''] '' @ time_buf @ '' '' @ [slog_letter level] @ '' '' @ slog_msg body sz @ [LF]"

definition slog_enabled :: "conf \<Rightarrow> log_level \<Rightarrow> bool" where
  "slog_enabled cfg level = (level_num level \<le> verbosity cfg)"

definition slog_internal :: "log_level \<Rightarrow> string \<Rightarrow> nat \<Rightarrow> world \<Rightarrow> world" where
  "slog_internal level body sz w =
     (if w_log_fd w = 0 then w
      else let w = emit (Log (slog_line (w_log_self w) (w_time w) level body sz)) w
        in if log_fsync_mode (w_cfg w) = LOG_FSYNC_ALL then emit Fsync w else w)"

definition slog :: "log_level \<Rightarrow> string \<Rightarrow> nat \<Rightarrow> world \<Rightarrow> world" where
  "slog level body sz w =
     (if level_num level \<le> verbosity (w_cfg w) then slog_internal level body sz w else w)"

section \<open>Lemmas\<close>

named_theorems world_defs \<open>the primitive operations on the world\<close>

lemmas [world_defs] = emit_def event_add_def put_client_def put_cmd_def put_resp_def put_ws_def
  put_ac_def upd_client_def upd_cmd_def upd_ws_def fresh_def

text \<open>Logging adds to the trace, and nothing that reaches a client or Redis.\<close>

definition is_log :: "io \<Rightarrow> bool" where
  "is_log e = (case e of Log _ \<Rightarrow> True | Fsync \<Rightarrow> True | _ \<Rightarrow> False)"

lemma slog_fields [simp]:
  "w_cfg (slog l b n w) = w_cfg w" "w_clients (slog l b n w) = w_clients w"
  "w_cmds (slog l b n w) = w_cmds w" "w_resps (slog l b n w) = w_resps w"
  "w_wss (slog l b n w) = w_wss w" "w_acs (slog l b n w) = w_acs w"
  "w_pool (slog l b n w) = w_pool w" "w_next (slog l b n w) = w_next w"
  "w_events (slog l b n w) = w_events w" "w_log_fd (slog l b n w) = w_log_fd w"
  "w_writes (slog l b n w) = w_writes w" "w_allocs (slog l b n w) = w_allocs w"
  "w_connects (slog l b n w) = w_connects w" "w_msgpack (slog l b n w) = w_msgpack w" "w_auth_logged (slog l b n w) = w_auth_logged w"
  by (simp_all add: slog_def slog_internal_def emit_def Let_def)

lemma slog_io: "\<exists>es. w_io (slog l b n w) = w_io w @ es \<and> (\<forall>e\<in>set es. is_log e)"
  by (auto simp: slog_def slog_internal_def emit_def Let_def is_log_def)

text \<open>The outputs that matter to clients and to Redis.\<close>

definition wire :: "world \<Rightarrow> io list" where
  "wire w = filter (\<lambda>e. \<not> is_log e) (w_io w)"

lemma wire_slog [simp]: "wire (slog l b n w) = wire w"
  using slog_io [of l b n w] by (auto simp: wire_def filter_empty_conv)

text \<open>The line fits into the 248 bytes that \<open>slog_internal\<close> has for it.\<close>

lemma length_slog_msg: "length (slog_msg body sz) \<le> SLOG_MSG_MAX_LEN"
  by (auto simp: slog_msg_def Let_def SLOG_MSG_MAX_LEN_def)

lemma length_show_int: "int32 i \<Longrightarrow> length (show_int i) \<le> 11"
proof -
  assume "int32 i"
  then have "nat (- i) < 10 ^ 10" "nat i < 10 ^ 10" by (auto simp: int32_def)
  then have "length (show_nat (nat (- i))) \<le> 10" "length (show_nat (nat i)) \<le> 10"
    by (simp_all add: length_show_nat_le)
  then show ?thesis by (simp add: show_int_def)
qed

lemma length_slog_line:
  "int32 self \<Longrightarrow> length time_buf < 64 \<Longrightarrow>
     length (slog_line self time_buf level body sz) < 2 * SLOG_MSG_MAX_LEN"
  using length_show_int [of self] length_slog_msg [of body sz]
  by (simp add: slog_line_def SLOG_MSG_MAX_LEN_def)

lemma sys_write_fields [simp]:
  "w_cfg (snd (sys_write fd b w)) = w_cfg w" "w_clients (snd (sys_write fd b w)) = w_clients w"
  "w_cmds (snd (sys_write fd b w)) = w_cmds w" "w_resps (snd (sys_write fd b w)) = w_resps w"
  "w_wss (snd (sys_write fd b w)) = w_wss w" "w_acs (snd (sys_write fd b w)) = w_acs w"
  "w_pool (snd (sys_write fd b w)) = w_pool w" "w_next (snd (sys_write fd b w)) = w_next w"
  "w_events (snd (sys_write fd b w)) = w_events w" "w_msgpack (snd (sys_write fd b w)) = w_msgpack w" "w_allocs (snd (sys_write fd b w)) = w_allocs w"
  by (simp_all add: sys_write_def emit_def Let_def)

lemma sys_alloc_fields [simp]:
  "w_cfg (snd (sys_alloc w)) = w_cfg w" "w_clients (snd (sys_alloc w)) = w_clients w"
  "w_cmds (snd (sys_alloc w)) = w_cmds w" "w_resps (snd (sys_alloc w)) = w_resps w"
  "w_wss (snd (sys_alloc w)) = w_wss w" "w_acs (snd (sys_alloc w)) = w_acs w"
  "w_pool (snd (sys_alloc w)) = w_pool w" "w_next (snd (sys_alloc w)) = w_next w"
  "w_events (snd (sys_alloc w)) = w_events w" "w_io (snd (sys_alloc w)) = w_io w"
  "w_msgpack (snd (sys_alloc w)) = w_msgpack w"
  by (simp_all add: sys_alloc_def)

lemma sys_write_bound: "fst (sys_write fd b w) \<le> int (length b)"
  by (simp add: sys_write_def Let_def split: list.split)

section \<open>Properties\<close>

text \<open>
  A log line, with its NUL, fits the buffer of \<open>2 * SLOG_MSG_MAX_LEN\<close> bytes that
  \<open>slog_internal\<close> prints it into, however long the message is and wherever it has its NUL.
\<close>

theorem slog_line_fits:
  assumes "int32 self" "length time_buf < 64"
  shows "length (slog_line self time_buf level body sz) + 1 \<le> 2 * SLOG_MSG_MAX_LEN"
  using length_slog_line [OF assms, of level body sz] by simp

theorem slog_line_fits_witness:
  "length (slog_line 4242 ''16 Nov 10:00:00'' WEBDIS_ERROR (replicate 500 CR) 0) + 1 \<le> 248"
  using slog_line_fits [of 4242 "''16 Nov 10:00:00''" WEBDIS_ERROR "replicate 500 CR" 0]
  by (simp add: int32_def SLOG_MSG_MAX_LEN_def)

end
