(* ===== verification/Client.thy ===== *)
theory Client
  imports World
begin

text \<open>
  The client side of \<open>client.c\<close> that works on one \<open>struct http_client\<close>: the callbacks of the HTTP
  parser that collect the URL, the query string, the headers and the body, the lookup of headers
  and the reset between requests. The operations that reach commands or Redis (\<open>http_client_read\<close>,
  \<open>http_client_on_message_complete\<close>) stand with the worker.
\<close>

section \<open>Callbacks of the parser\<close>

text \<open>\<open>CHECK_ALLOC\<close>: a failed allocation is recorded in the client and the callback returns -1.\<close>

definition check_alloc :: "http_client \<Rightarrow> world \<Rightarrow> (http_client \<times> world) + world" where
  "check_alloc c w =
     (let (ok, w) = sys_alloc w in
      if ok then Inr w else Inl (c\<lparr>hc_failed_alloc := True\<rparr>, w))"

definition append_opt :: "string option \<Rightarrow> string \<Rightarrow> string option" where
  "append_opt buf data = Some ((case buf of None \<Rightarrow> [] | Some b \<Rightarrow> b) @ data)"

definition http_client_on_url :: "http_client \<Rightarrow> string \<Rightarrow> world \<Rightarrow> int \<times> http_client \<times> world" where
  "http_client_on_url c data w =
     (case check_alloc c w of
        Inl (c, w) \<Rightarrow> (-1, c\<lparr>hc_path := None\<rparr>, w)
      | Inr w \<Rightarrow> (0, c\<lparr>hc_path := append_opt (hc_path c) data\<rparr>, w))"

definition http_client_add_to_body :: "http_client \<Rightarrow> string \<Rightarrow> world \<Rightarrow> int \<times> http_client \<times> world" where
  "http_client_add_to_body c data w =
     (case check_alloc c w of
        Inl (c, w) \<Rightarrow> (-1, c\<lparr>hc_body := None\<rparr>, w)
      | Inr w \<Rightarrow> (0, c\<lparr>hc_body := append_opt (hc_body c) data\<rparr>, w))"

definition http_client_on_body :: "http_client \<Rightarrow> string \<Rightarrow> world \<Rightarrow> int \<times> http_client \<times> world" where
  "http_client_on_body c data w = http_client_add_to_body c data w"

definition empty_header :: http_header where
  "empty_header = \<lparr>h_key = [], h_val = None, h_copy = 0\<rparr>"

text \<open>The last element of the header array, and its update.\<close>

definition upd_last :: "('a \<Rightarrow> 'a) \<Rightarrow> 'a list \<Rightarrow> 'a list" where
  "upd_last f xs = (if xs = [] then [] else butlast xs @ [f (last xs)])"

text \<open>
  A header name: a new entry unless the last callback was for a name too. \<open>header_count\<close> is
  incremented before the array grows, so a failed \<open>realloc\<close> leaves a count and no array.
\<close>

definition http_client_on_header_name :: "http_client \<Rightarrow> string \<Rightarrow> world \<Rightarrow> int \<times> http_client \<times> world" where
  "http_client_on_header_name c data w =
     (case (if hc_last_cb c \<noteq> LAST_CB_KEY
            then let c = c\<lparr>hc_header_count := Suc (hc_header_count c)\<rparr> in
                 case check_alloc c w of
                   Inl (c, w) \<Rightarrow> Inl (c\<lparr>hc_headers := []\<rparr>, w)
                 | Inr w \<Rightarrow> Inr (c\<lparr>hc_headers := hc_headers c @ [empty_header]\<rparr>, w)
            else Inr (c, w)) of
        Inl (c, w) \<Rightarrow> (-1, c, w)
      | Inr (c, w) \<Rightarrow>
          (case check_alloc c w of
             Inl (c, w) \<Rightarrow> (-1, c, w)
           | Inr w \<Rightarrow>
               (0, c\<lparr>hc_headers := upd_last (\<lambda>h. h\<lparr>h_key := h_key h @ data\<rparr>) (hc_headers c),
                     hc_last_cb := LAST_CB_KEY\<rparr>, w)))"

definition http100 :: string where
  "http100 = ''HTTP/1.1 100 Continue'' @ CRLF @ CRLF"

text \<open>
  A header value. It goes to the last entry of the array; without an entry the access is out of
  bounds. \<open>Expect: 100-continue\<close> is answered at once, \<open>Connection: Keep-Alive\<close> is recorded.
\<close>

definition http_client_on_header_value ::
    "http_client \<Rightarrow> string \<Rightarrow> world \<Rightarrow> (int \<times> http_client \<times> world) option" where
  "http_client_on_header_value c data w =
     (if hc_headers c = [] then None
      else case check_alloc c w of
        Inl (c, w) \<Rightarrow>
          Some (-1, c\<lparr>hc_headers := upd_last (\<lambda>h. h\<lparr>h_val := None\<rparr>) (hc_headers c)\<rparr>, w)
      | Inr w \<Rightarrow>
          (let c = c\<lparr>hc_headers := upd_last (\<lambda>h. h\<lparr>h_val := append_opt (h_val h) data\<rparr>) (hc_headers c),
                     hc_last_cb := LAST_CB_VAL\<rparr>;
               key = h_key (last (hc_headers c)); key_sz = length key in
           if strncmp ''Expect'' key key_sz = 0
           then (if length data = 12 \<and> strncasecmp data ''100-continue'' (length data) = 0
                 then Some (0, c, snd (sys_write (hc_fd c) http100 w))
                 else Some (0, c, w))
           else if strncasecmp ''Connection'' key key_sz = 0
           then (if length data = 10 \<and> strncasecmp data ''Keep-Alive'' (length data) = 0
                 then Some (0, c\<lparr>hc_keep_alive := True\<rparr>, w)
                 else Some (0, c, w))
           else Some (0, c, w)))"

definition wrap_filename :: "string \<Rightarrow> string" where
  "wrap_filename val = ''attachment; filename='' @ [DQUOTE] @ val @ [DQUOTE]"

text \<open>What one \<open>key=value\<close> pair of the query string sets.\<close>

definition query_param :: "http_client \<Rightarrow> string \<Rightarrow> string \<Rightarrow> http_client" where
  "query_param c key val =
     (let key_len = length key in
      if key_len = 4 \<and> strncmp key ''type'' 4 = 0 then c\<lparr>hc_type := Some val\<rparr>
      else if (key_len = 5 \<and> strncmp key ''jsonp'' 5 = 0) \<or> (key_len = 8 \<and> strncmp key ''callback'' 8 = 0)
      then c\<lparr>hc_jsonp := Some val\<rparr>
      else if key_len = 3 \<and> strncmp key ''sep'' 3 = 0 then c\<lparr>hc_separator := Some val\<rparr>
      else if key_len = 8 \<and> strncmp key ''filename'' 8 = 0 then c\<lparr>hc_filename := Some (wrap_filename val)\<rparr>
      else c)"

text \<open>
  The loop over the query string \<open>at\<close> of \<open>sz\<close> bytes, \<open>p\<close> the offset of the next pair. A search
  covers the bytes that are left, so the positions found are inside the string.
\<close>

function query_loop :: "http_client \<Rightarrow> string \<Rightarrow> nat \<Rightarrow> http_client" where
  "query_loop c at p =
     (if p < length at
      then case memchr at p (CHR ''='') (length at - p) of
        None \<Rightarrow> c
      | Some eq \<Rightarrow>
          if eq > length at then c
          else let key = slice at p (eq - p); val = eq + 1 in
            (case memchr at val (CHR ''&'') (length at - val) of
               None \<Rightarrow> query_param c key (slice at val (length at - val))
             | Some amp \<Rightarrow> query_loop (query_param c key (slice at val (amp - val))) at (amp + 1))
      else c)"
  by pat_completeness auto
termination
proof (relation "measure (\<lambda>(c, at, p). length at - p)")
  fix c :: http_client and at :: string and p eq key val amp
  assume "p < length at" "memchr at p (CHR ''='') (length at - p) = Some eq" "val = eq + 1"
    "memchr at val (CHR ''&'') (length at - val) = Some amp"
  then show "((query_param c key (slice at val (amp - val)), at, amp + 1), c, at, p)
      \<in> measure (\<lambda>(c, at, p). length at - p)"
    by (auto simp: memchr_Some)
qed simp

definition http_client_on_query_string :: "http_client \<Rightarrow> string \<Rightarrow> http_client" where
  "http_client_on_query_string c at = query_loop c at 0"

section \<open>New, reset, lookup\<close>

definition http_client_new :: "int \<Rightarrow> 32 word \<Rightarrow> http_client" where
  "http_client_new fd addr =
     \<lparr>hc_fd = fd, hc_addr = addr, hc_parser = http_parser_init HTTP_REQUEST, hc_buffer = [], hc_request_sz = 0,
      hc_last_cb = LAST_CB_NONE, hc_keep_alive = False, hc_broken = False, hc_fully_read = False,
      hc_is_websocket = False, hc_http_version = 0, hc_failed_alloc = False, hc_path = None,
      hc_headers = [], hc_header_count = 0, hc_body = None, hc_type = None, hc_jsonp = None, hc_separator = None,
      hc_filename = None, hc_reused_cmd = None, hc_last_cmd = None, hc_ws = None\<rparr>"

text \<open>
  Between requests. Freeing the headers reads \<open>header_count\<close> entries of the array; with fewer
  entries than that the access is a fault.
\<close>

definition http_client_reset :: "http_client \<Rightarrow> http_client option" where
  "http_client_reset c =
     (if hc_header_count c > length (hc_headers c) then None
      else let c = c\<lparr>hc_headers := [], hc_header_count := 0, hc_body := None, hc_path := None,
                     hc_type := None, hc_jsonp := None, hc_filename := None, hc_request_sz := 0,
                     hc_last_cb := LAST_CB_NONE\<rparr>
        in Some (if \<not> hc_keep_alive c then c\<lparr>hc_broken := True\<rparr> else c))"

text \<open>\<open>http_client_remove_data\<close>, which drops consumed bytes from the buffer.\<close>

definition http_client_remove_data :: "http_client \<Rightarrow> nat \<Rightarrow> world \<Rightarrow> int \<times> http_client \<times> world" where
  "http_client_remove_data c sz w =
     (if length (hc_buffer c) < sz then (-1, c, w)
      else case check_alloc c w of
        Inl (c, w) \<Rightarrow> (-1, c, w)
      | Inr w \<Rightarrow> (0, c\<lparr>hc_buffer := drop sz (hc_buffer c)\<rparr>, w))"

fun find_header :: "http_header list \<Rightarrow> string \<Rightarrow> nat \<Rightarrow> string option" where
  "find_header [] key sz = None"
| "find_header (h # hs) key sz =
     (if sz = length (h_key h) \<and> strncasecmp key (h_key h) sz = 0 then h_val h
      else find_header hs key sz)"

definition client_get_header :: "http_client \<Rightarrow> string \<Rightarrow> string option" where
  "client_get_header c key = find_header (hc_headers c) key (strlen key)"

section \<open>Lemmas: fragments\<close>

text \<open>
  The parser reports a datum in as many fragments as the input has. The interface of a callback
  that collects them: two fragments in a row are one.
\<close>

locale fragments =
  fixes cb :: "'c \<Rightarrow> string \<Rightarrow> 'c"
  assumes cb_append: "cb (cb c a) b = cb c (a @ b)"
begin

lemma cb_concat: "foldl cb (cb c a) as = cb c (a @ concat as)"
  by (induction "as" arbitrary: a) (simp_all add: cb_append)

lemma cb_split: "concat as = concat bs \<Longrightarrow> as \<noteq> [] \<Longrightarrow> bs \<noteq> [] \<Longrightarrow> foldl cb c as = foldl cb c bs"
  by (cases "as"; cases bs) (simp_all add: cb_concat)

end

lemma append_opt_append [simp]: "append_opt (append_opt buf a) b = append_opt buf (a @ b)"
  by (simp add: append_opt_def)

lemma upd_last_simps [simp]:
  "upd_last f [] = []" "upd_last f (xs @ [x]) = xs @ [f x]" "upd_last f xs = [] \<longleftrightarrow> xs = []"
  "length (upd_last f xs) = length xs" "xs \<noteq> [] \<Longrightarrow> last (upd_last f xs) = f (last xs)"
  "upd_last f (upd_last g xs) = upd_last (f \<circ> g) xs"
  by (simp_all add: upd_last_def butlast_append)

lemma sys_alloc_ok [simp]: "w_allocs w = [] \<Longrightarrow> sys_alloc w = (True, w)"
  by (simp add: sys_alloc_def)

lemma check_alloc_ok [simp]: "w_allocs w = [] \<Longrightarrow> check_alloc c w = Inr w"
  by (simp add: check_alloc_def)

text \<open>The effect of each callback on the client when memory is available.\<close>

definition with_url :: "http_client \<Rightarrow> string \<Rightarrow> http_client" where
  "with_url c data = c\<lparr>hc_path := append_opt (hc_path c) data\<rparr>"

definition with_body :: "http_client \<Rightarrow> string \<Rightarrow> http_client" where
  "with_body c data = c\<lparr>hc_body := append_opt (hc_body c) data\<rparr>"

definition with_name :: "http_client \<Rightarrow> string \<Rightarrow> http_client" where
  "with_name c data =
     (if hc_last_cb c = LAST_CB_KEY
      then c\<lparr>hc_headers := upd_last (\<lambda>h. h\<lparr>h_key := h_key h @ data\<rparr>) (hc_headers c)\<rparr>
      else c\<lparr>hc_headers := hc_headers c @ [empty_header\<lparr>h_key := data\<rparr>],
             hc_header_count := Suc (hc_header_count c), hc_last_cb := LAST_CB_KEY\<rparr>)"

lemma on_url_ok: "w_allocs w = [] \<Longrightarrow> http_client_on_url c data w = (0, with_url c data, w)"
  by (simp add: http_client_on_url_def with_url_def)

lemma on_body_ok: "w_allocs w = [] \<Longrightarrow> http_client_on_body c data w = (0, with_body c data, w)"
  by (simp add: http_client_on_body_def http_client_add_to_body_def with_body_def)

lemma on_header_name_ok:
  "w_allocs w = [] \<Longrightarrow> http_client_on_header_name c data w = (0, with_name c data, w)"
  by (auto simp: http_client_on_header_name_def with_name_def empty_header_def Let_def)

interpretation url: fragments with_url
  by unfold_locales (simp add: with_url_def)

interpretation body: fragments with_body
  by unfold_locales (simp add: with_body_def)

interpretation name: fragments with_name
  by unfold_locales (auto simp: with_name_def comp_def empty_header_def)

text \<open>The array holds as many headers as \<open>header_count\<close> says unless memory ran out.\<close>

definition headers_wf :: "http_client \<Rightarrow> bool" where
  "headers_wf c = (hc_header_count c = length (hc_headers c) \<and>
     (hc_last_cb c = LAST_CB_NONE \<longrightarrow> hc_headers c = []) \<and>
     (hc_last_cb c \<noteq> LAST_CB_NONE \<longrightarrow> hc_headers c \<noteq> []))"

lemma headers_wf_new: "headers_wf (http_client_new fd addr)"
  by (simp add: headers_wf_def http_client_new_def)

lemma headers_wf_name: "headers_wf c \<Longrightarrow> headers_wf (with_name c data)"
  by (auto simp: headers_wf_def with_name_def)

lemma headers_wf_reset: "headers_wf c \<Longrightarrow> \<exists>c'. http_client_reset c = Some c' \<and> headers_wf c'"
  by (simp add: headers_wf_def http_client_reset_def Let_def)

lemma headers_wf_value:
  assumes "headers_wf c" "hc_last_cb c \<noteq> LAST_CB_NONE"
  shows "\<exists>r c' w'. http_client_on_header_value c data w = Some (r, c', w') \<and>
    (r = 0 \<longrightarrow> headers_wf c' \<and> hc_last_cb c' = LAST_CB_VAL)"
  using assms
  by (auto simp: http_client_on_header_value_def check_alloc_def headers_wf_def Let_def split: prod.split)

section \<open>Lemmas: the query string\<close>

fun join :: "char \<Rightarrow> string list \<Rightarrow> string" where
  "join c [] = []"
| "join c [x] = x"
| "join c (x # y # ys) = x @ c # join c (y # ys)"

lemma memchr_drop: "memchr s (p + q) c n = map_option ((+) p) (memchr (drop p s) q c n)"
  by (induction n arbitrary: q) (simp_all add: at_c_drop flip: add_Suc_right)

lemma slice_drop: "slice (drop p s) q n = slice s (p + q) n"
  by (rule nth_equalityI) (simp_all add: at_c_drop add.assoc)

lemma memchr_append: "c \<notin> set s \<Longrightarrow> memchr (s @ c # t) 0 c (Suc (length s + n)) = Some (length s)"
  by (auto simp: memchr_Some at_c_def nth_append simp del: memchr.simps)

lemma memchr_notin: "c \<notin> set s \<Longrightarrow> n \<le> length s \<Longrightarrow> memchr s 0 c n = None"
  by (auto simp: memchr_None at_c_def)

lemma memchr_at: "memchr s p c n = map_option ((+) p) (memchr (drop p s) 0 c n)"
  using memchr_drop [of s p 0 c n] by simp

lemma slice_at: "slice s p n = slice (drop p s) 0 n"
  using slice_drop [of p s 0 n] by simp

lemma find_sep:
  assumes "drop p s = x @ c # t" "c \<notin> set x"
  shows "memchr s p c (length s - p) = Some (p + length x)" "slice s p (length x) = x"
    "drop (p + length x + 1) s = t" "p + length x + 1 \<le> length s"
proof -
  have len: "length s - p = Suc (length x + length t)"
    using assms(1) by (metis length_append length_drop add_Suc_right length_Cons)
  show "memchr s p c (length s - p) = Some (p + length x)"
    unfolding memchr_at [of s p] len assms(1) by (simp add: memchr_append assms(2) del: memchr.simps)
  show "slice s p (length x) = x"
    unfolding slice_at [of s p] assms(1) by (simp add: slice_eq_take_drop)
  have "drop (length x + 1) (drop p s) = t" unfolding assms(1) by simp
  then show "drop (p + length x + 1) s = t" by (simp add: ac_simps)
  show "p + length x + 1 \<le> length s" using len by simp
qed

text \<open>
  A query string of \<open>key=value\<close> pairs separated by \<open>&\<close> sets what its pairs set, from left to
  right. A key must not contain \<open>=\<close> and a value must not contain \<open>&\<close>.
\<close>

definition query_text :: "(string \<times> string) list \<Rightarrow> string" where
  "query_text kvs = join (CHR ''&'') (map (\<lambda>(k, v). k @ CHR ''='' # v) kvs)"

lemma query_text_simps [simp]:
  "query_text [] = []" "query_text [(k, v)] = k @ CHR ''='' # v"
  "query_text ((k, v) # kv # kvs) = k @ CHR ''='' # v @ CHR ''&'' # query_text (kv # kvs)"
  by (simp_all add: query_text_def)

lemma query_loop_pairs:
  "drop p at = query_text kvs \<Longrightarrow> p \<le> length at \<Longrightarrow>
     (\<And>k v. (k, v) \<in> set kvs \<Longrightarrow> CHR ''='' \<notin> set k \<and> CHR ''&'' \<notin> set v) \<Longrightarrow>
     query_loop c at p = foldl (\<lambda>c (k, v). query_param c k v) c kvs"
proof (induction kvs arbitrary: c p)
  case Nil
  then show ?case by (subst query_loop.simps) simp
next
  case (Cons kv kvs)
  obtain k v where kv: "kv = (k, v)" by (cases kv)
  then have k: "CHR ''='' \<notin> set k" and v: "CHR ''&'' \<notin> set v" using Cons.prems(3) by auto
  show ?case
  proof (cases kvs)
    case Nil
    have "drop p at = k @ CHR ''='' # v" using Cons.prems(1) kv Nil by simp
    note eq = find_sep [OF this k]
    have v_end: "length at - (p + length k + 1) = length v"
      using arg_cong [OF eq(3), of length] by simp
    have "memchr at (p + length k + 1) (CHR ''&'') (length at - (p + length k + 1)) = None"
      unfolding memchr_at [of at "p + length k + 1"] eq(3) v_end by (simp add: memchr_notin v)
    moreover have "slice at (p + length k + 1) (length at - (p + length k + 1)) = v"
      unfolding slice_at [of at "p + length k + 1"] eq(3) v_end by simp
    ultimately show ?thesis
      using eq kv Nil by (subst query_loop.simps) simp
  next
    case (Cons kv' kvs')
    have "drop p at = k @ CHR ''='' # v @ CHR ''&'' # query_text kvs"
      using Cons.prems(1) kv Cons by simp
    note eq = find_sep [OF this k]
    note amp = find_sep [OF eq(3) v]
    have "query_loop c at p = query_loop (query_param c k v) at (p + length k + 1 + length v + 1)"
      using eq amp by (subst query_loop.simps) (simp add: ac_simps)
    also have "\<dots> = foldl (\<lambda>c (k, v). query_param c k v) (query_param c k v) kvs"
      using amp(3,4) Cons.prems(3) by (intro Cons.IH) auto
    finally show ?thesis by (simp add: kv)
  qed
qed

section \<open>Lemmas: headers\<close>

text \<open>The first header whose name is the key, letters compared without case.\<close>

lemma find_header_find:
  assumes "NUL \<notin> set key" "\<And>h. h \<in> set hs \<Longrightarrow> NUL \<notin> set (h_key h)"
  shows "find_header hs key (length key) =
    Option.bind (find (\<lambda>h. map tolower (h_key h) = map tolower key) hs) h_val"
  using assms(2)
proof (induction hs)
  case Nil
  then show ?case by simp
next
  case (Cons h hs)
  have "length key = length (h_key h) \<and> strncasecmp key (h_key h) (length key) = 0 \<longleftrightarrow>
      map tolower (h_key h) = map tolower key"
    using assms(1) Cons.prems
    by (cases "length key = length (h_key h)")
      (auto simp: strncasecmp_eq_0 cstr_no_NUL take_map dest: map_eq_imp_length_eq)
  then show ?case using Cons by (simp del: strncasecmp.simps)
qed

section \<open>Properties\<close>

text \<open>
  How the HTTP parser calls back: one call per fragment, and a result other than 0 ends the
  parsing.
\<close>

fun feed :: "(http_client \<Rightarrow> string \<Rightarrow> world \<Rightarrow> (int \<times> http_client \<times> world) option) \<Rightarrow> string list \<Rightarrow>
    http_client \<Rightarrow> world \<Rightarrow> (http_client \<times> world) option" where
  "feed cb [] c w = Some (c, w)"
| "feed cb (data # datas) c w =
     do { (r, c, w) \<leftarrow> cb c data w; if r \<noteq> 0 then None else feed cb datas c w }"

lemma feed_names:
  "w_allocs w = [] \<Longrightarrow>
     feed (\<lambda>c data w. Some (http_client_on_header_name c data w)) ks c w = Some (foldl with_name c ks, w)"
  by (induction ks arbitrary: c) (simp_all add: on_header_name_ok)

lemma on_header_value_ok:
  assumes "w_allocs w = []" "hc_headers c = hs @ [h]"
  shows "\<exists>c' w'. http_client_on_header_value c data w = Some (0, c', w') \<and> w_allocs w' = [] \<and>
    hc_headers c' = hs @ [h\<lparr>h_val := append_opt (h_val h) data\<rparr>]"
  using assms by (auto simp: http_client_on_header_value_def Let_def)

lemma feed_values:
  "w_allocs w = [] \<Longrightarrow> hc_headers c = hs @ [h\<lparr>h_val := Some v\<rparr>] \<Longrightarrow>
     \<exists>c' w'. feed http_client_on_header_value vs c w = Some (c', w') \<and> w_allocs w' = [] \<and>
       hc_headers c' = hs @ [h\<lparr>h_val := Some (v @ concat vs)\<rparr>]"
proof (induction vs arbitrary: c w v)
  case Nil
  then show ?case by simp
next
  case (Cons data vs)
  obtain c' w' where step: "http_client_on_header_value c data w = Some (0, c', w')" "w_allocs w' = []"
      "hc_headers c' = hs @ [h\<lparr>h_val := Some (v @ data)\<rparr>]"
    using on_header_value_ok [OF Cons.prems, of data] by (auto simp: append_opt_def)
  with Cons.IH [of w' c' "v @ data"] show ?case by simp
qed

text \<open>
  C32: however the parser cuts the name and the value of a header into fragments, the callbacks
  add one header with the whole name and the whole value, if memory is available.
\<close>

theorem header_fragments:
  assumes "w_allocs w = []" "hc_last_cb c \<noteq> LAST_CB_KEY" "ks \<noteq> []" "vs \<noteq> []"
  shows "\<exists>c1 w1 c' w'. feed (\<lambda>c data w. Some (http_client_on_header_name c data w)) ks c w = Some (c1, w1) \<and>
    feed http_client_on_header_value vs c1 w1 = Some (c', w') \<and>
    hc_headers c' = hc_headers c @ [\<lparr>h_key = concat ks, h_val = Some (concat vs), h_copy = 0\<rparr>]"
proof -
  obtain k ks' where ks: "ks = k # ks'" using assms(3) by (cases ks) auto
  obtain v vs' where vs: "vs = v # vs'" using assms(4) by (cases vs) auto
  have "foldl with_name c ks = with_name c (concat ks)" by (simp add: ks name.cb_concat)
  then have c1: "hc_headers (foldl with_name c ks) = hc_headers c @ [empty_header\<lparr>h_key := concat ks\<rparr>]"
    using assms(2) by (simp add: with_name_def)
  obtain c2 w2 where first: "http_client_on_header_value (foldl with_name c ks) v w = Some (0, c2, w2)" "w_allocs w2 = []"
      "hc_headers c2 = hc_headers c @ [(empty_header\<lparr>h_key := concat ks\<rparr>)\<lparr>h_val := Some v\<rparr>]"
    using on_header_value_ok [OF assms(1) c1, of v] by (auto simp: append_opt_def empty_header_def)
  obtain c' w' where "feed http_client_on_header_value vs' c2 w2 = Some (c', w')"
      "hc_headers c' = hc_headers c @ [(empty_header\<lparr>h_key := concat ks\<rparr>)\<lparr>h_val := Some (v @ concat vs')\<rparr>]"
    using feed_values [OF first(2,3), of vs'] by blast
  then show ?thesis
    using feed_names [OF assms(1), of ks c] first(1) by (simp add: vs empty_header_def)
qed

theorem header_fragments_witness:
  "\<exists>c1 w1 c' w'. feed (\<lambda>c data w. Some (http_client_on_header_name c data w)) [''Ho'', ''st'']
      (http_client_new 5 0) (idle_world (conf_defaults plain_system)) = Some (c1, w1) \<and>
    feed http_client_on_header_value [''a'', ''.b''] c1 w1 = Some (c', w') \<and>
    hc_headers c' = [\<lparr>h_key = ''Host'', h_val = Some ''a.b'', h_copy = 0\<rparr>]"
  using header_fragments [of "idle_world (conf_defaults plain_system)" "http_client_new 5 0" "[''Ho'', ''st'']" "[''a'', ''.b'']"]
  by (simp add: idle_world_def http_client_new_def)

text \<open>
  C33: a query string made of \<open>key=value\<close> pairs joined by \<open>&\<close> has the effect of its pairs from left
  to right: the parser takes exactly the keys and values that were joined.
\<close>

theorem query_string_pairs:
  assumes "list_all (\<lambda>(k, v). CHR ''='' \<notin> set k \<and> CHR ''&'' \<notin> set v) kvs"
  shows "http_client_on_query_string c (query_text kvs) = foldl (\<lambda>c (k, v). query_param c k v) c kvs"
  using assms query_loop_pairs [of 0 "query_text kvs" kvs c]
  by (auto simp: http_client_on_query_string_def list_all_iff simp del: query_loop.simps)

theorem query_string_pairs_witness:
  "hc_jsonp (http_client_on_query_string (http_client_new 5 0)
     (query_text [(''type'', ''text/plain''), (''callback'', ''f'')])) = Some ''f''"
proof -
  have "list_all (\<lambda>(k, v). CHR ''='' \<notin> set k \<and> CHR ''&'' \<notin> set v) [(''type'', ''text/plain''), (''callback'', ''f'')]"
    by simp
  from query_string_pairs [OF this] show ?thesis by (simp only:) code_simp
qed

end
