(* ===== verification/Acl.thy ===== *)
theory Acl
  imports Client
begin

text \<open>
  Access control, \<open>acl.c\<close>: whether a rule applies to a client (\<open>acl_match_client\<close>) and whether a
  client may run a command (\<open>acl_allow_command\<close>). The lemmas give the meaning of a rule's address
  and credentials, and what enabling and disabling a command name covers.
\<close>

definition acl_match_client :: "acl \<Rightarrow> http_client \<Rightarrow> 32 word \<Rightarrow> bool" where
  "acl_match_client a client ip =
     (let auth = client_get_header client ''Authorization'' in
      if (case http_basic_auth a of
            Some cred \<Rightarrow>
              (case auth of
                 Some au \<Rightarrow>
                   if strncasecmp au ''Basic '' 6 = 0 then strcmp (drop 6 au) cred \<noteq> 0 else True
               | None \<Rightarrow> True)
          | None \<Rightarrow> False)
      then False
      else if \<not> cidr_enabled a then True
      else if (ip AND cidr_mask a) = (cidr_subnet a AND cidr_mask a) then True
      else False)"

definition always_off :: "string list" where
  "always_off = [''MULTI'', ''EXEC'', ''WATCH'', ''DISCARD'', ''SELECT'']"

text \<open>The loops over the enabled and over the disabled commands of a rule.\<close>

fun acl_enabled_loop :: "string list \<Rightarrow> string \<Rightarrow> bool \<Rightarrow> bool" where
  "acl_enabled_loop [] cmd_name authorized = authorized"
| "acl_enabled_loop (e # es) cmd_name authorized =
     (let authorized = (if strncasecmp e cmd_name (length cmd_name) = 0 then True else authorized);
          authorized = (if strncasecmp e ''*'' 1 = 0 then True else authorized)
      in acl_enabled_loop es cmd_name authorized)"

fun acl_disabled_loop :: "string list \<Rightarrow> string \<Rightarrow> bool \<Rightarrow> bool" where
  "acl_disabled_loop [] cmd_name authorized = authorized"
| "acl_disabled_loop (d # ds) cmd_name authorized =
     (let authorized = (if strncasecmp d cmd_name (length cmd_name) = 0 then False else authorized);
          authorized = (if strncasecmp d ''*'' 1 = 0 then False else authorized)
      in acl_disabled_loop ds cmd_name authorized)"

fun acl_rules_loop :: "acl list \<Rightarrow> http_client \<Rightarrow> 32 word \<Rightarrow> string \<Rightarrow> bool \<Rightarrow> bool" where
  "acl_rules_loop [] client client_addr cmd_name authorized = authorized"
| "acl_rules_loop (a # rules) client client_addr cmd_name authorized =
     (if \<not> acl_match_client a client client_addr
      then acl_rules_loop rules client client_addr cmd_name authorized
      else acl_rules_loop rules client client_addr cmd_name
        (acl_disabled_loop (disabled a) cmd_name (acl_enabled_loop (enabled a) cmd_name authorized)))"

text \<open>\<open>argv[i]\<close> of a command; the count of a command is at most the length of its array.\<close>

definition cmd_arg :: "cmd \<Rightarrow> nat \<Rightarrow> string" where
  "cmd_arg cmd i = (if i < length (cmd_argv cmd) then cmd_argv cmd ! i else [])"

definition acl_allow_command :: "cmd \<Rightarrow> conf \<Rightarrow> http_client \<Rightarrow> bool" where
  "acl_allow_command cmd cfg client =
     (if cmd_count cmd = 0 then False
      else let cmd_name = cmd_arg cmd 0 in
        if \<exists>off \<in> set always_off. strncasecmp off cmd_name (length cmd_name) = 0 then False
        else acl_rules_loop (perms cfg) client (ntohl (hc_addr client)) cmd_name True)"

section \<open>Lemmas: names\<close>

text \<open>
  \<open>names e n\<close>: the entry \<open>e\<close> of a rule stands for the command name \<open>n\<close>. The comparison stops
  after the bytes of \<open>n\<close>, so an entry stands for each of its prefixes too.
\<close>

definition names :: "string \<Rightarrow> string \<Rightarrow> bool" where
  "names e n = (strncasecmp e n (length n) = 0 \<or> strncasecmp e ''*'' 1 = 0)"

lemma acl_enabled_loop_eq: "acl_enabled_loop es n b = (b \<or> (\<exists>e \<in> set es. names e n))"
  by (induction es arbitrary: b) (auto simp: names_def Let_def simp del: strncasecmp.simps)

lemma acl_disabled_loop_eq: "acl_disabled_loop ds n b = (b \<and> \<not> (\<exists>d \<in> set ds. names d n))"
  by (induction ds arbitrary: b) (auto simp: names_def Let_def simp del: strncasecmp.simps)

text \<open>The verdict of a rule: disabling wins over enabling; a rule may say nothing.\<close>

definition verdict :: "acl \<Rightarrow> string \<Rightarrow> bool option" where
  "verdict a n =
     (if \<exists>d \<in> set (disabled a). names d n then Some False
      else if \<exists>e \<in> set (enabled a). names e n then Some True else None)"

text \<open>The last rule that applies to the client and has a verdict decides; without one the command runs.\<close>

fun decision :: "acl list \<Rightarrow> http_client \<Rightarrow> 32 word \<Rightarrow> string \<Rightarrow> bool option" where
  "decision [] client ip n = None"
| "decision (a # rules) client ip n =
     (case decision rules client ip n of
        Some b \<Rightarrow> Some b
      | None \<Rightarrow> if acl_match_client a client ip then verdict a n else None)"

lemma acl_rules_loop_eq:
  "acl_rules_loop rules client ip n b = (case decision rules client ip n of Some v \<Rightarrow> v | None \<Rightarrow> b)"
proof (induction rules arbitrary: b)
  case Nil
  then show ?case by simp
next
  case (Cons a rules)
  then show ?case
    by (cases "decision rules client ip n")
      (auto simp: acl_enabled_loop_eq acl_disabled_loop_eq verdict_def)
qed

lemma NUL_in_map_tolower: "NUL \<in> set (map tolower s) \<longleftrightarrow> NUL \<in> set s"
  by (induction s) auto

lemma strncasecmp_prefix:
  assumes "NUL \<notin> set e" "NUL \<notin> set n"
  shows "strncasecmp e n (length n) = 0 \<longleftrightarrow> take (length n) (map tolower e) = map tolower n"
  using assms by (simp add: strncasecmp_eq_0 cstr_no_NUL take_map)

lemma acl_allow_command_eq:
  "acl_allow_command cmd cfg client \<longleftrightarrow>
     cmd_count cmd \<noteq> 0 \<and>
     \<not> (\<exists>off \<in> set always_off. strncasecmp off (cmd_arg cmd 0) (length (cmd_arg cmd 0)) = 0) \<and>
     decision (perms cfg) client (ntohl (hc_addr client)) (cmd_arg cmd 0) \<noteq> Some False"
  by (auto simp: acl_allow_command_def acl_rules_loop_eq Let_def simp del: strncasecmp.simps split: option.split)

text \<open>A client may run a command of this name.\<close>

definition permitted :: "conf \<Rightarrow> http_client \<Rightarrow> string \<Rightarrow> bool" where
  "permitted cfg client n =
     (\<not> (\<exists>off \<in> set always_off. strncasecmp off n (length n) = 0) \<and>
      decision (perms cfg) client (ntohl (hc_addr client)) n \<noteq> Some False)"

lemma acl_allow_permitted:
  "acl_allow_command cmd cfg client \<longleftrightarrow> cmd_count cmd \<noteq> 0 \<and> permitted cfg client (cmd_arg cmd 0)"
  by (simp add: acl_allow_command_eq permitted_def)

text \<open>Only the headers and the address of the client matter.\<close>

lemma acl_match_client_cong:
  "hc_headers c' = hc_headers c \<Longrightarrow> acl_match_client a c' ip = acl_match_client a c ip"
  by (simp add: acl_match_client_def client_get_header_def)

lemma permitted_cong:
  assumes "hc_headers c' = hc_headers c" "hc_addr c' = hc_addr c"
  shows "permitted cfg c' n = permitted cfg c n"
proof -
  have "decision rules c' ip n = decision rules c ip n" for rules ip
    by (induction rules) (simp_all add: acl_match_client_cong [OF assms(1)])
  then show ?thesis by (simp add: permitted_def assms(2))
qed

section \<open>Lemmas: the clients of a rule\<close>

lemma drop_bit_word_of_nat:
  assumes "x < 2 ^ 32" "y < 2 ^ 32"
  shows "drop_bit k (word_of_nat x :: 32 word) = drop_bit k (word_of_nat y) \<longleftrightarrow> x div 2 ^ k = y div 2 ^ k"
proof -
  have "drop_bit k (word_of_nat x :: 32 word) = drop_bit k (word_of_nat y) \<longleftrightarrow>
      unat (drop_bit k (word_of_nat x :: 32 word)) = unat (drop_bit k (word_of_nat y :: 32 word))"
    by (simp only: word_unat_eq_iff)
  also have "\<dots> \<longleftrightarrow> x div 2 ^ k = y div 2 ^ k"
    using assms unfolding unat_drop_bit_eq by (simp add: drop_bit_eq_div unat_of_nat take_bit_nat_eq_self)
  finally show ?thesis .
qed

lemma quad_bound: "a < 256 \<Longrightarrow> b < 256 \<Longrightarrow> c < 256 \<Longrightarrow> d < 256 \<Longrightarrow> quad a b c d < 2 ^ 32"
  by (simp add: quad_def)

lemma conf_parse_acl_ip:
  "conf_parse_acl sys (JSON_OBJECT [(''ip'', JSON_STRING s)]) = Some (parse_cidr sys (JSON_STRING s) empty_acl)"
  by (simp add: conf_parse_acl_def json_object_get_def cstr_def)

lemma cidr_rule_matches:
  assumes "a < 256" "b < 256" "c < 256" "d < 256" "1 \<le> n" "n \<le> 32"
    and "conf_parse_acl sys (JSON_OBJECT [(''ip'', JSON_STRING (dotted a b c d @ CHR ''/'' # show_nat n))]) = Some rule"
  shows "acl_match_client rule client ip \<longleftrightarrow> drop_bit (32 - n) ip = drop_bit (32 - n) (word_of_nat (quad a b c d))"
proof -
  have "rule = empty_acl\<lparr>cidr_enabled := True, cidr_mask := cidr_mask_of n,
      cidr_subnet := word_of_nat (quad a b c d) AND cidr_mask_of n\<rparr>"
    using assms parse_cidr_mask [of a b c d n sys empty_acl] by (simp add: conf_parse_acl_ip)
  then show ?thesis
    using cidr_mask_match [OF assms(5,6)]
    by (simp add: acl_match_client_def empty_acl_def Let_def and.assoc)
qed

lemma conf_parse_acl_auth:
  "conf_parse_acl sys (JSON_OBJECT [(''http_basic_auth'', JSON_STRING s)]) =
     parse_basic_auth sys (JSON_STRING s) empty_acl"
  by (cases "parse_basic_auth sys (JSON_STRING s) empty_acl")
    (simp_all add: conf_parse_acl_def json_object_get_def cstr_def)

lemma auth_rule_matches:
  assumes "NUL \<notin> set cred" "cred \<noteq> []" "hd_c cred \<noteq> CHR ''$''" "length cred < 3072"
    and "conf_parse_acl sys (JSON_OBJECT [(''http_basic_auth'', JSON_STRING cred)]) = Some rule"
  shows "acl_match_client rule client ip \<longleftrightarrow>
    (\<exists>au. client_get_header client ''Authorization'' = Some au \<and> strncasecmp au ''Basic '' 6 = 0 \<and>
       cstr (drop 6 au) = cstr (b64_groups (map byte_of_char cred)))"
proof -
  have "cred = conf_string_or_envvar sys (json_string_value (JSON_STRING cred))"
    using assms by (simp add: conf_string_plain)
  moreover have "length cred div 3 < 1024" using assms(4) by simp
  ultimately have "rule = empty_acl\<lparr>http_basic_auth := Some (b64_groups (map byte_of_char cred))\<rparr>"
    using assms(5) parse_basic_auth_groups [of cred sys "JSON_STRING cred" empty_acl] assms(2)
    by (simp add: conf_parse_acl_auth)
  then show ?thesis
    by (auto simp: acl_match_client_def empty_acl_def Let_def strcmp_eq_0 simp del: strncasecmp.simps
        split: option.splits)
qed

lemma NUL_notin_b64_groups: "NUL \<notin> set (b64_groups xs)"
proof -
  have "NUL \<notin> set encoding" by (simp add: encoding_def)
  then have "i \<le> 63 \<Longrightarrow> NUL \<noteq> encoding ! i" for i
    using nth_mem [of i encoding] encoding_facts(1) by fastforce
  then show ?thesis
    by (induction xs rule: b64_groups.induct) (auto simp: sextet_bounds)
qed

section \<open>Properties\<close>

text \<open>
  C1: \<open>acl_allow_command\<close> lets a command through exactly if it has a name, the name is no prefix
  of a command that is always off, and the last rule of the configuration that applies to the
  client and has a verdict on the name does not disable it. Within one rule disabling wins.
\<close>

theorem acl_allow_command_decision:
  "acl_allow_command cmd cfg client \<longleftrightarrow>
     cmd_count cmd \<noteq> 0 \<and>
     (\<nexists>off. off \<in> set always_off \<and> strncasecmp off (cmd_arg cmd 0) (length (cmd_arg cmd 0)) = 0) \<and>
     decision (perms cfg) client (ntohl (hc_addr client)) (cmd_arg cmd 0) \<noteq> Some False"
  by (simp add: acl_allow_command_eq Bex_def)

text \<open>
  C2: the transaction commands and \<open>SELECT\<close> are refused to every client under every configuration,
  in whatever case their letters are written.
\<close>

theorem always_off_refused:
  assumes "off \<in> set always_off" and "map tolower (cmd_arg cmd 0) = map tolower off"
  shows "\<not> acl_allow_command cmd cfg client"
proof -
  let ?n = "cmd_arg cmd 0"
  have off: "NUL \<notin> set off" using assms(1) by (auto simp: always_off_def)
  then have "NUL \<notin> set ?n"
    using NUL_in_map_tolower [of ?n] NUL_in_map_tolower [of off] assms(2) by simp
  then have "strncasecmp off ?n (length ?n) = 0"
    using off map_eq_imp_length_eq [OF assms(2)] by (subst strncasecmp_prefix) (simp_all add: assms(2))
  with assms(1) show ?thesis by (auto simp: acl_allow_command_eq)
qed

definition plain_cmd :: "string list \<Rightarrow> cmd" where
  "plain_cmd argv = \<lparr>cmd_fd = 5, cmd_count = int (length argv), cmd_argv = argv, cmd_mime = None, cmd_mime_free = False,
     cmd_filename = None, cmd_if_none_match = None, cmd_jsonp = None, cmd_separator = None, cmd_keep_alive = False,
     cmd_started_responding = False, cmd_is_websocket = False, cmd_http_version = 0, cmd_database = 0,
     cmd_http_client = None, cmd_pub_sub_client = None, cmd_ac = None, cmd_w = False\<rparr>"

theorem always_off_refused_witness:
  "\<not> acl_allow_command (plain_cmd [''mUlTi'']) (conf_defaults plain_system) (http_client_new 5 0)"
  by (rule always_off_refused [of "''MULTI''"]) code_simp+

text \<open>
  C3: a rule read from \<open>"ip": "a.b.c.d/n"\<close> with n between 1 and 32 applies to the client at
  e.f.g.h exactly if the two addresses agree on their first n bits.
\<close>

theorem cidr_rule:
  assumes "a < 256" "b < 256" "c < 256" "d < 256" "e < 256" "f < 256" "g < 256" "h < 256" "1 \<le> n" "n \<le> 32"
  shows "\<exists>rule. conf_parse_acl sys (JSON_OBJECT [(''ip'', JSON_STRING (dotted a b c d @ CHR ''/'' # show_nat n))]) =
      Some rule \<and> (acl_match_client rule client (word_of_nat (quad e f g h)) \<longleftrightarrow>
        quad e f g h div 2 ^ (32 - n) = quad a b c d div 2 ^ (32 - n))"
proof -
  obtain rule where rule: "conf_parse_acl sys
      (JSON_OBJECT [(''ip'', JSON_STRING (dotted a b c d @ CHR ''/'' # show_nat n))]) = Some rule"
    by (simp add: conf_parse_acl_ip)
  show ?thesis
    using rule cidr_rule_matches [OF assms(1-4,9,10) rule] quad_bound assms by (auto simp: drop_bit_word_of_nat)
qed

theorem cidr_rule_witness:
  "\<exists>rule. conf_parse_acl plain_system (JSON_OBJECT [(''ip'', JSON_STRING (dotted 10 1 0 0 @ CHR ''/'' # show_nat 16))]) =
      Some rule \<and> acl_match_client rule (http_client_new 5 0) (word_of_nat (quad 10 1 2 3))"
  using cidr_rule [of 10 1 0 0 10 1 2 3 16 plain_system "http_client_new 5 0"] by (auto simp: quad_def)



text \<open>
  C40: the mask length 0 is taken for "no mask": a rule read from \<open>"a.b.c.d/0"\<close> applies to the one
  address a.b.c.d and not to all of them.
\<close>

theorem cidr_rule_zero:
  assumes "a < 256" "b < 256" "c < 256" "d < 256"
  shows "\<exists>rule. conf_parse_acl sys (JSON_OBJECT [(''ip'', JSON_STRING (dotted a b c d @ ''/0''))]) = Some rule \<and>
    (acl_match_client rule client ip \<longleftrightarrow> ip = word_of_nat (quad a b c d))"
  using parse_cidr_mask [OF assms, of 0 sys empty_acl]
  by (simp add: conf_parse_acl_ip show_nat_0 acl_match_client_def empty_acl_def cidr_mask_of_def Let_def)

theorem cidr_rule_zero_witness:
  "\<exists>rule. conf_parse_acl plain_system (JSON_OBJECT [(''ip'', JSON_STRING (dotted 0 0 0 0 @ ''/0''))]) = Some rule \<and>
     \<not> acl_match_client rule (http_client_new 5 0) 0x7F000001"
  using cidr_rule_zero [of 0 0 0 0 plain_system "http_client_new 5 0" "0x7F000001"] by (auto simp: quad_def)

end
