(* ===== verification/Http.thy ===== *)
theory Http
  imports Client
begin

text \<open>
  HTTP responses, \<open>http.c\<close>: building the header array, printing the response into the output
  buffer, chunks, and the loop that hands the buffer to \<open>write\<close>, either at once (no worker) or by
  events. The lemmas show that the output reads back as the response, that chunks decode, and
  that writing sends the buffer in order, whole if the socket accepts it.
\<close>

section \<open>Headers\<close>

definition HEADER_COPY_NONE :: nat where "HEADER_COPY_NONE = 0"
definition HEADER_COPY_KEY :: nat where "HEADER_COPY_KEY = 1"
definition HEADER_COPY_VALUE :: nat where "HEADER_COPY_VALUE = 2"
definition HEADER_CHECK_DUPE :: nat where "HEADER_CHECK_DUPE = 4"

definition DEFAULT_HEADERS_ARRAY_SIZE :: nat where
  "DEFAULT_HEADERS_ARRAY_SIZE = 9"

definition check_dupe :: "nat \<Rightarrow> bool" where
  "check_dupe copy = (copy AND HEADER_CHECK_DUPE \<noteq> 0)"

text \<open>The position of the first header whose name starts with the bytes of \<open>k\<close>.\<close>

fun find_dupe :: "http_header list \<Rightarrow> string \<Rightarrow> nat \<Rightarrow> nat option" where
  "find_dupe [] k i = None"
| "find_dupe (h # hs) k i =
     (if strncmp (h_key h) k (strlen k) = 0 then Some i else find_dupe hs k (Suc i))"

definition http_response_set_header :: "http_response \<Rightarrow> string \<Rightarrow> string \<Rightarrow> nat \<Rightarrow> http_response" where
  "http_response_set_header r k v copy =
     (let dupe = (if check_dupe copy then find_dupe (r_headers r) k 0 else None);
          pos = (case dupe of Some i \<Rightarrow> i | None \<Rightarrow> length (r_headers r));
          h = \<lparr>h_key = cstr k, h_val = Some (cstr v), h_copy = copy\<rparr>;
          r = (if pos = r_headers_array_size r
               then r\<lparr>r_headers_array_size := Suc (r_headers_array_size r)\<rparr> else r);
          r = (case dupe of
                 Some i \<Rightarrow> r\<lparr>r_headers := (r_headers r)[i := h]\<rparr>
               | None \<Rightarrow> r\<lparr>r_headers := r_headers r @ [h]\<rparr>)
      in if \<not> r_chunked r \<and> strcmp k ''Transfer-Encoding'' = 0 \<and> strcmp v ''chunked'' = 0
         then r\<lparr>r_chunked := True\<rparr> else r)"

definition http_response_set_body :: "http_response \<Rightarrow> string option \<Rightarrow> http_response" where
  "http_response_set_body r body = r\<lparr>r_body := body\<rparr>"

definition http_response_set_keep_alive :: "http_response \<Rightarrow> bool \<Rightarrow> http_response" where
  "http_response_set_keep_alive r on =
     (let r = r\<lparr>r_keep_alive := on\<rparr> in
      if on then http_response_set_header r ''Connection'' ''Keep-Alive'' HEADER_COPY_NONE
      else http_response_set_header r ''Connection'' ''Close'' HEADER_COPY_NONE)"

definition http_response_set_connection_header :: "http_client \<Rightarrow> http_response \<Rightarrow> http_response" where
  "http_response_set_connection_header c r = http_response_set_keep_alive r (hc_keep_alive c)"

section \<open>New responses\<close>

text \<open>A response as \<open>calloc\<close> and \<open>http_response_allocate_headers\<close> leave it.\<close>

definition http_response_allocate_headers :: "bool \<Rightarrow> int \<Rightarrow> string option \<Rightarrow> http_response" where
  "http_response_allocate_headers async status msg =
     \<lparr>r_code = status, r_msg = msg, r_headers = [], r_headers_array_size = DEFAULT_HEADERS_ARRAY_SIZE,
      r_body = None, r_out = [], r_chunked = False, r_http_version = 0, r_keep_alive = False,
      r_sent = 0, r_w = async\<rparr>"

definition default_headers :: "http_response \<Rightarrow> http_response" where
  "default_headers r =
     (let r = http_response_set_header r ''Server'' ''Webdis'' HEADER_COPY_NONE;
          r = http_response_set_header r ''Allow'' ''GET,POST,PUT,OPTIONS'' HEADER_COPY_NONE;
          r = http_response_set_header r ''Access-Control-Allow-Methods'' ''GET,POST,PUT,OPTIONS'' HEADER_COPY_NONE;
          r = http_response_set_header r ''Access-Control-Allow-Origin'' ''*'' HEADER_COPY_NONE
      in http_response_set_header r ''Access-Control-Allow-Headers''
           ''X-Requested-With, Content-Type, Authorization'' HEADER_COPY_NONE)"

text \<open>
  Two allocations that may fail; the result is the null pointer then. \<open>async\<close> says whether the
  worker is given; only then is there a server to log to.
\<close>

definition alloc_response :: "bool \<Rightarrow> string \<Rightarrow> http_response \<Rightarrow> world \<Rightarrow> ptr option \<times> world" where
  "alloc_response async what r w =
     (let (ok, w) = sys_alloc w in
      if \<not> ok then (None, if async then slog WEBDIS_ERROR what 0 w else w)
      else let (ok, w) = sys_alloc w in
        if \<not> ok
        then (None, if async then slog WEBDIS_ERROR ''Failed to allocate http_response headers'' 0 w else w)
        else let (p, w) = fresh w in (Some p, put_resp p r w))"

definition http_response_init :: "bool \<Rightarrow> int \<Rightarrow> string option \<Rightarrow> world \<Rightarrow> ptr option \<times> world" where
  "http_response_init async status msg w =
     alloc_response async ''Failed to allocate http_response''
       (default_headers (http_response_allocate_headers async status msg)) w"

definition http_response_init_with_buffer ::
    "bool \<Rightarrow> string \<Rightarrow> bool \<Rightarrow> world \<Rightarrow> ptr option \<times> world" where
  "http_response_init_with_buffer async data keep_alive w =
     alloc_response async ''Failed to allocate http_response with buffer''
       ((http_response_allocate_headers async 0 None)\<lparr>r_out := data, r_keep_alive := keep_alive\<rparr>) w"

section \<open>Writing\<close>

definition http_response_cleanup :: "ptr \<Rightarrow> int \<Rightarrow> bool \<Rightarrow> world \<Rightarrow> world option" where
  "http_response_cleanup p fd success w =
     do { r \<leftarrow> w_resps w p;
       let w = (if (\<not> r_keep_alive r \<or> \<not> success) \<and> fd > 0 then emit (Close fd) w else w);
       Some (w\<lparr>w_resps := (w_resps w)(p := None)\<rparr>) }"

text \<open>
  \<open>http_can_write\<close> and \<open>http_schedule_write\<close> call each other when there is no worker: the loop of
  a blocking write. With a worker the write is registered as an event, which may fail.
\<close>

definition http_schedule_async :: "int \<Rightarrow> ptr \<Rightarrow> world \<Rightarrow> world option" where
  "http_schedule_async fd p w =
     (let (ok, w) = sys_alloc w in
      if ok then Some (event_add (Response_can_write fd p) w)
      else http_response_cleanup p fd False (slog WEBDIS_ERROR ''Could not schedule HTTP write'' 0 w))"

function http_can_write :: "int \<Rightarrow> ptr \<Rightarrow> world \<Rightarrow> world option" where
  "http_can_write fd p w =
     (case w_resps w p of
        None \<Rightarrow> None
      | Some r \<Rightarrow>
          (let ret = fst (sys_write fd (drop (r_sent r) (r_out r)) w);
               w1 = snd (sys_write fd (drop (r_sent r) (r_out r)) w);
               sent = (if ret > 0 then r_sent r + nat ret else r_sent r);
               w2 = put_resp p (r\<lparr>r_sent := sent\<rparr>) w1 in
           if ret \<le> 0 \<or> length (r_out r) - sent = 0
           then http_response_cleanup p fd (length (r_out r) = sent) w2
           else if r_w r then http_schedule_async fd p w2
           else http_can_write fd p w2))"
  by pat_completeness auto
termination
proof (relation "measure (\<lambda>(fd, p, w). case w_resps w p of None \<Rightarrow> 0 | Some r \<Rightarrow> length (r_out r) - r_sent r)")
  fix fd :: int and p w r ret w1 sent w2
  assume "w_resps w p = Some r" "ret = fst (sys_write fd (drop (r_sent r) (r_out r)) w)"
    "w1 = snd (sys_write fd (drop (r_sent r) (r_out r)) w)"
    "sent = (if 0 < ret then r_sent r + nat ret else r_sent r)"
    "w2 = put_resp p (r\<lparr>r_sent := sent\<rparr>) w1"
    "\<not> (ret \<le> 0 \<or> length (r_out r) - sent = 0)"
  then show "((fd, p, w2), fd, p, w)
      \<in> measure (\<lambda>(fd, p, w). case w_resps w p of None \<Rightarrow> 0 | Some r \<Rightarrow> length (r_out r) - r_sent r)"
    by (auto simp: put_resp_def)
qed simp

declare http_can_write.simps [simp del]

definition http_schedule_write :: "int \<Rightarrow> ptr \<Rightarrow> world \<Rightarrow> world option" where
  "http_schedule_write fd p w =
     do { r \<leftarrow> w_resps w p;
       if r_w r then http_schedule_async fd p w else http_can_write fd p w }"

text \<open>\<open>%x\<close> prints the size as an \<open>int\<close>.\<close>

definition format_chunk :: "string \<Rightarrow> string" where
  "format_chunk p = show_hex (length p mod 2 ^ 32) @ CRLF @ p @ CRLF"

text \<open>
  The status line is printed into a buffer sized for a code of three digits.
\<close>

definition status_line :: "http_response \<Rightarrow> string option" where
  "status_line r =
     do { msg \<leftarrow> r_msg r;
       let out_sz = length ''HTTP/1.x xxx '' + strlen msg + 2;
       let line = ''HTTP/1.'' @ show_nat (if r_http_version r \<noteq> 0 then 1 else 0) @ '' '' @
             show_int (r_code r) @ '' '' @ cstr msg @ CRLF;
       if length line > out_sz then None else Some (slice line 0 out_sz) }"

definition header_line :: "http_header \<Rightarrow> string" where
  "header_line h = h_key h @ '': '' @ (case h_val h of Some v \<Rightarrow> v | None \<Rightarrow> []) @ CRLF"

definition is_keep_alive_header :: "http_header \<Rightarrow> bool" where
  "is_keep_alive_header h =
     (strncasecmp ''Connection'' (h_key h) (length (h_key h)) = 0 \<and>
      (case h_val h of Some v \<Rightarrow> strncasecmp ''Keep-Alive'' v (length v) = 0 | None \<Rightarrow> True))"

definition set_content_length :: "http_response \<Rightarrow> http_response" where
  "set_content_length r =
     (if r_chunked r then r
      else case (r_code r = 200, r_body r) of
        (True, Some body) \<Rightarrow>
          http_response_set_header r ''Content-Length'' (show_nat (length body)) (HEADER_COPY_VALUE + HEADER_CHECK_DUPE)
      | _ \<Rightarrow> http_response_set_header r ''Content-Length'' ''0'' (HEADER_COPY_NONE + HEADER_CHECK_DUPE))"

definition body_bytes :: "http_response \<Rightarrow> string" where
  "body_bytes r =
     (case r_body r of
        None \<Rightarrow> []
      | Some body \<Rightarrow> if body = [] then [] else if r_chunked r then format_chunk body else body)"

definition http_response_print :: "http_response \<Rightarrow> http_response option" where
  "http_response_print r =
     do { line \<leftarrow> status_line r;
       let r = set_content_length r;
       let r = (if \<exists>h \<in> set (r_headers r). is_keep_alive_header h then r\<lparr>r_keep_alive := True\<rparr> else r);
       Some (r\<lparr>r_out := line @ concat (map header_line (r_headers r)) @ CRLF @ body_bytes r, r_sent := 0\<rparr>) }"

definition http_response_write :: "ptr \<Rightarrow> int \<Rightarrow> world \<Rightarrow> world option" where
  "http_response_write p fd w =
     (if fd < 0 then http_response_cleanup p fd False w
      else do { r \<leftarrow> w_resps w p; r \<leftarrow> http_response_print r;
        http_schedule_write fd p (put_resp p r w) })"

section \<open>Replies of the server itself\<close>

definition crossdomain_xml :: string where
  "crossdomain_xml =
     ''<?xml version='' @ [DQUOTE] @ ''1.0'' @ [DQUOTE] @ ''?>'' @ [LF] @
     ''<!DOCTYPE cross-domain-policy SYSTEM '' @ [DQUOTE] @
     ''http://www.macromedia.com/xml/dtds/cross-domain-policy.dtd'' @ [DQUOTE] @ ''>'' @ [LF] @
     ''<cross-domain-policy>'' @ [LF] @
     ''<allow-access-from domain='' @ [DQUOTE] @ ''*'' @ [DQUOTE] @ '' />'' @ [LF] @
     ''</cross-domain-policy>'' @ [LF]"

definition upd_resp :: "ptr \<Rightarrow> (http_response \<Rightarrow> http_response) \<Rightarrow> world \<Rightarrow> world option" where
  "upd_resp p f w = do { r \<leftarrow> w_resps w p; Some (put_resp p (f r) w) }"

text \<open>\<open>http_client_reset(c)\<close> on the client behind a pointer.\<close>

definition reset_client :: "ptr \<Rightarrow> world \<Rightarrow> world option" where
  "reset_client cp w =
     do { c \<leftarrow> w_clients w cp; c \<leftarrow> http_client_reset c; Some (put_client cp c w) }"

definition http_crossdomain :: "ptr \<Rightarrow> world \<Rightarrow> world option" where
  "http_crossdomain cp w =
     do { let (resp, w) = http_response_init False 200 (Some ''OK'') w;
       rp \<leftarrow> resp; c \<leftarrow> w_clients w cp;
       w \<leftarrow> upd_resp rp (\<lambda>r.
         let r = http_response_set_connection_header c (r\<lparr>r_http_version := hc_http_version c\<rparr>);
             r = http_response_set_header r ''Content-Type'' ''application/xml'' HEADER_COPY_NONE
         in http_response_set_body r (Some crossdomain_xml)) w;
       w \<leftarrow> http_response_write rp (hc_fd c) w;
       reset_client cp w }"

definition http_send_error :: "ptr \<Rightarrow> int \<Rightarrow> string \<Rightarrow> world \<Rightarrow> world option" where
  "http_send_error cp status msg w =
     do { let (resp, w) = http_response_init False status (Some msg) w;
       rp \<leftarrow> resp; c \<leftarrow> w_clients w cp;
       w \<leftarrow> upd_resp rp (\<lambda>r.
         http_response_set_body
           (http_response_set_connection_header c (r\<lparr>r_http_version := hc_http_version c\<rparr>)) None) w;
       w \<leftarrow> http_response_write rp (hc_fd c) w;
       reset_client cp w }"

definition http_send_options :: "ptr \<Rightarrow> world \<Rightarrow> world option" where
  "http_send_options cp w =
     do { let (resp, w) = http_response_init False 200 (Some ''OK'') w;
       rp \<leftarrow> resp; c \<leftarrow> w_clients w cp;
       w \<leftarrow> upd_resp rp (\<lambda>r.
         let r = http_response_set_connection_header c (r\<lparr>r_http_version := hc_http_version c\<rparr>);
             r = http_response_set_header r ''Content-Type'' ''text/html'' HEADER_COPY_NONE
         in http_response_set_header r ''Content-Length'' ''0'' HEADER_COPY_NONE) w;
       w \<leftarrow> http_response_write rp (hc_fd c) w;
       reset_client cp w }"

definition http_response_write_chunk :: "int \<Rightarrow> bool \<Rightarrow> string \<Rightarrow> world \<Rightarrow> world option" where
  "http_response_write_chunk fd async p w =
     do { let (resp, w) = http_response_init async 0 None w;
       rp \<leftarrow> resp;
       w \<leftarrow> upd_resp rp (\<lambda>r. r\<lparr>r_keep_alive := True, r_out := format_chunk p\<rparr>) w;
       http_schedule_write fd rp w }"

section \<open>Lemmas: headers\<close>

text \<open>The position that \<open>http_response_set_header\<close> writes is inside the allocated array.\<close>

definition resp_wf :: "http_response \<Rightarrow> bool" where
  "resp_wf r = (length (r_headers r) \<le> r_headers_array_size r)"

lemma find_dupe_bound: "find_dupe hs k i = Some j \<Longrightarrow> i \<le> j \<and> j < i + length hs"
  by (induction hs k i rule: find_dupe.induct) (auto split: if_splits simp del: strncmp.simps)

lemma resp_wf_set_header: "resp_wf r \<Longrightarrow> resp_wf (http_response_set_header r k v copy)"
  by (auto simp: resp_wf_def http_response_set_header_def Let_def split: option.split)

lemma set_header_pos:
  assumes "resp_wf r"
  shows "(case (if check_dupe copy then find_dupe (r_headers r) k 0 else None) of
      Some i \<Rightarrow> i | None \<Rightarrow> length (r_headers r)) < r_headers_array_size (http_response_set_header r k v copy)"
  using assms by (auto simp: resp_wf_def http_response_set_header_def Let_def
      split: option.split dest!: find_dupe_bound)

lemma set_header_other [simp]:
  "r_code (http_response_set_header r k v copy) = r_code r"
  "r_msg (http_response_set_header r k v copy) = r_msg r"
  "r_body (http_response_set_header r k v copy) = r_body r"
  "r_keep_alive (http_response_set_header r k v copy) = r_keep_alive r"
  "r_http_version (http_response_set_header r k v copy) = r_http_version r"
  "r_w (http_response_set_header r k v copy) = r_w r"
  by (simp_all add: http_response_set_header_def Let_def split: option.split)

lemma set_header_append:
  "\<not> check_dupe copy \<Longrightarrow> r_headers (http_response_set_header r k v copy) =
     r_headers r @ [\<lparr>h_key = cstr k, h_val = Some (cstr v), h_copy = copy\<rparr>]"
  by (simp add: http_response_set_header_def Let_def)

section \<open>Lemmas: chunks\<close>

text \<open>A reader of chunks: the size in hexadecimal, CR LF, that many bytes, CR LF.\<close>

definition read_chunk :: "string \<Rightarrow> (string \<times> string) option" where
  "read_chunk s =
     (let n = read_hex (takeWhile isxdigit s); rest = dropWhile isxdigit s in
      if take 2 rest = CRLF \<and> take 2 (drop (2 + n) rest) = CRLF
      then Some (take n (drop 2 rest), drop 2 (drop (2 + n) rest)) else None)"

lemma CR_not_xdigit [simp]: "\<not> isxdigit CR"
  by (simp add: isxdigit_def isdigit_def code_def)

lemma read_format_chunk:
  "length p < 2 ^ 32 \<Longrightarrow> read_chunk (format_chunk p @ rest) = Some (p, rest)"
proof -
  assume len: "length p < 2 ^ 32"
  have "\<forall>c \<in> set (show_hex (length p)). isxdigit c" by (simp add: show_hex_digits)
  then have "takeWhile isxdigit (show_hex (length p) @ CR # t) = show_hex (length p)"
    "dropWhile isxdigit (show_hex (length p) @ CR # t) = CR # t" for t
    by (simp_all add: takeWhile_append2 dropWhile_append2)
  then show ?thesis using len by (simp add: read_chunk_def format_chunk_def Let_def)
qed

section \<open>Lemmas: the printed response\<close>

text \<open>A reader of the head of a message: lines that end in CR LF, up to an empty line.\<close>

fun read_line :: "string \<Rightarrow> (string \<times> string) option" where
  "read_line [] = None"
| "read_line (c # s) =
     (if c = CR then (case s of d # t \<Rightarrow> if d = LF then Some ([], t) else None | [] \<Rightarrow> None)
      else map_option (\<lambda>(l, t). (c # l, t)) (read_line s))"

lemma read_line_append: "CR \<notin> set l \<Longrightarrow> read_line (l @ CR # LF # t) = Some (l, t)"
  by (induction l) auto

lemma read_line_shorter: "read_line s = Some (l, t) \<Longrightarrow> length t < length s"
  by (induction s arbitrary: l t) (auto split: if_splits list.splits)

function read_head :: "string \<Rightarrow> (string list \<times> string) option" where
  "read_head s =
     (case read_line s of
        None \<Rightarrow> None
      | Some (l, t) \<Rightarrow> if l = [] then Some ([], t)
          else map_option (\<lambda>(ls, u). (l # ls, u)) (read_head t))"
  by pat_completeness auto
termination by (relation "measure length") (auto dest: read_line_shorter)

declare read_head.simps [simp del]

lemma read_head_lines:
  "(\<And>l. l \<in> set ls \<Longrightarrow> CR \<notin> set l \<and> l \<noteq> []) \<Longrightarrow>
     read_head (concat (map (\<lambda>l. l @ CRLF) ls) @ CRLF @ body) = Some (ls, body)"
proof (induction ls)
  case Nil
  then show ?case by (subst read_head.simps) simp
next
  case (Cons l ls)
  then have "read_line (concat (map (\<lambda>l. l @ CRLF) (l # ls)) @ CRLF @ body) =
      Some (l, concat (map (\<lambda>l. l @ CRLF) ls) @ CRLF @ body)"
    by (simp add: read_line_append)
  then show ?case using Cons by (subst read_head.simps) simp
qed

text \<open>The lines of a response.\<close>

definition status_text :: "http_response \<Rightarrow> string" where
  "status_text r = ''HTTP/1.'' @ show_nat (if r_http_version r \<noteq> 0 then 1 else 0) @ '' '' @
     show_int (r_code r) @ '' '' @ cstr (the (r_msg r))"

definition header_text :: "http_header \<Rightarrow> string" where
  "header_text h = h_key h @ '': '' @ (case h_val h of Some v \<Rightarrow> v | None \<Rightarrow> [])"

lemma length_show_nat_3: "100 \<le> n \<Longrightarrow> n < 1000 \<Longrightarrow> length (show_nat n) = 3"
  by (subst show_nat.simps, subst show_nat.simps, subst show_nat.simps) auto

lemma status_line_eq:
  assumes "r_msg r = Some msg" "100 \<le> r_code r" "r_code r < 1000"
  shows "status_line r = Some (status_text r @ CRLF)"
proof -
  have "length (show_int (r_code r)) = 3"
    using assms(2,3) length_show_nat_3 [of "nat (r_code r)"] by (simp add: show_int_def nat_less_iff)
  moreover have "length (show_nat (if r_http_version r \<noteq> 0 then 1 else 0)) = 1"
    by (simp add: show_nat.simps)
  ultimately have "length (status_text r @ CRLF) = length ''HTTP/1.x xxx '' + strlen msg + 2"
    using assms(1) by (simp add: status_text_def strlen_def)
  then show ?thesis
    using assms(1) slice_all [of "status_text r @ CRLF"]
    by (simp add: status_line_def status_text_def)
qed

text \<open>No carriage return in the message or in a header: what the parser of requests lets through.\<close>

definition clean_response :: "http_response \<Rightarrow> bool" where
  "clean_response r = ((\<exists>msg. r_msg r = Some msg \<and> CR \<notin> set msg) \<and> 100 \<le> r_code r \<and> r_code r < 1000 \<and>
     (\<forall>h \<in> set (r_headers r). CR \<notin> set (h_key h) \<and> (\<exists>v. h_val h = Some v \<and> CR \<notin> set v)))"

lemma CR_notin_show_nat: "CR \<notin> set (show_nat n)"
proof
  assume "CR \<in> set (show_nat n)"
  then have "\<not> isspace CR" by (simp add: show_nat_chars)
  then show False by (simp add: isspace_def code_def)
qed

lemma set_cstr_subset: "set (cstr s) \<subseteq> set s"
  by (auto simp: cstr_def dest: set_takeWhileD)

lemma clean_set_header:
  "clean_response r \<Longrightarrow> CR \<notin> set k \<Longrightarrow> CR \<notin> set v \<Longrightarrow> clean_response (http_response_set_header r k v copy)"
  using set_cstr_subset [of k] set_cstr_subset [of v]
  by (auto simp: clean_response_def http_response_set_header_def Let_def
      split: option.split dest!: set_update_subset_insert [THEN subsetD])

lemma set_content_length_other [simp]:
  "r_code (set_content_length r) = r_code r" "r_msg (set_content_length r) = r_msg r"
  "r_body (set_content_length r) = r_body r" "r_http_version (set_content_length r) = r_http_version r"
  "r_w (set_content_length r) = r_w r" "r_keep_alive (set_content_length r) = r_keep_alive r"
  by (simp_all add: set_content_length_def split: option.split bool.split)

lemma clean_set_content_length: "clean_response r \<Longrightarrow> clean_response (set_content_length r)"
  by (auto simp: set_content_length_def CR_notin_show_nat intro!: clean_set_header split: option.split bool.split)

lemma print_reads_back:
  assumes "clean_response r"
  shows "\<exists>r'. http_response_print r = Some r' \<and> r_sent r' = 0 \<and>
    r_headers r' = r_headers (set_content_length r) \<and>
    read_head (r_out r') =
      Some (status_text r # map header_text (r_headers (set_content_length r)),
            body_bytes (set_content_length r))"
proof -
  let ?r = "set_content_length r"
  have clean: "clean_response ?r" by (rule clean_set_content_length [OF assms])
  obtain msg where msg: "r_msg r = Some msg" "CR \<notin> set msg" "100 \<le> r_code r" "r_code r < 1000"
    using assms by (auto simp: clean_response_def)
  have lines: "CR \<notin> set l \<and> l \<noteq> []" if "l \<in> set (status_text r # map header_text (r_headers ?r))" for l
    using that clean msg set_cstr_subset [of msg]
    by (auto simp: clean_response_def status_text_def header_text_def show_int_def CR_notin_show_nat)
  have "concat (map header_line hs) = concat (map (\<lambda>l. l @ CRLF) (map header_text hs))" for hs
    by (induction hs) (simp_all add: header_line_def header_text_def)
  then have out: "status_text r @ CRLF @ concat (map header_line (r_headers ?r)) @ CRLF @ body_bytes ?r =
      concat (map (\<lambda>l. l @ CRLF) (status_text r # map header_text (r_headers ?r))) @ CRLF @ body_bytes ?r"
    by simp
  have reads: "read_head (status_text r @ CRLF @ concat (map header_line (r_headers ?r)) @ CRLF @ body_bytes ?r) =
      Some (status_text r # map header_text (r_headers ?r), body_bytes ?r)"
    unfolding out by (rule read_head_lines) (rule lines)
  have "body_bytes (q\<lparr>r_keep_alive := b\<rparr>) = body_bytes q" for q b
    by (simp add: body_bytes_def split: option.split)
  with reads status_line_eq [OF msg(1,3,4)] show ?thesis
    by (simp add: http_response_print_def Let_def)
qed

lemma set_header_mem:
  "\<lparr>h_key = cstr k, h_val = Some (cstr v), h_copy = copy\<rparr> \<in> set (r_headers (http_response_set_header r k v copy))"
  by (auto simp: http_response_set_header_def Let_def split: option.split
      intro: set_update_memI dest!: find_dupe_bound)

text \<open>The length of the body that the head announces.\<close>

definition announced :: "http_response \<Rightarrow> nat" where
  "announced r = (if r_code r = 200 then (case r_body r of Some b \<Rightarrow> length b | None \<Rightarrow> 0) else 0)"

lemma set_content_length_header:
  assumes "\<not> r_chunked r"
  shows "\<exists>h \<in> set (r_headers (set_content_length r)).
    h_key h = ''Content-Length'' \<and> h_val h = Some (show_nat (announced r))"
proof -
  have key: "cstr ''Content-Length'' = ''Content-Length''" and zero: "cstr ''0'' = show_nat 0"
    by (simp_all add: cstr_def show_nat_0)
  have val: "cstr (show_nat n) = show_nat n" for n
    by (simp add: cstr_no_NUL NUL_notin_show_nat)
  obtain v copy where "set_content_length r = http_response_set_header r ''Content-Length'' v copy"
    "cstr v = show_nat (announced r)"
    using assms by (cases "r_body r"; cases "r_code r = 200")
      (auto simp: set_content_length_def announced_def zero val)
  then show ?thesis
    using set_header_mem [of "''Content-Length''" v copy r] by (force simp: key)
qed

section \<open>Lemmas: sending\<close>

text \<open>The bytes written to a descriptor.\<close>

definition sent_bytes :: "int \<Rightarrow> world \<Rightarrow> string" where
  "sent_bytes fd w = concat (map (\<lambda>e. case e of Write f b \<Rightarrow> if f = fd then b else [] | _ \<Rightarrow> []) (w_io w))"

lemma sent_bytes_write: "fst (sys_write fd b w) = ret \<Longrightarrow>
  sent_bytes fd (snd (sys_write fd b w)) = sent_bytes fd w @ take (nat ret) b"
  by (auto simp: sys_write_def sent_bytes_def emit_def Let_def)

text \<open>What the operations on responses leave alone.\<close>

definition to_redis :: "io \<Rightarrow> bool" where
  "to_redis e = (case e of Redis _ _ \<Rightarrow> True | Connect _ _ _ \<Rightarrow> True | _ \<Rightarrow> False)"

definition redis_io :: "world \<Rightarrow> io list" where
  "redis_io w = filter to_redis (w_io w)"

definition http_frame :: "world \<Rightarrow> world \<Rightarrow> bool" where
  "http_frame w w' =
     (w_cfg w' = w_cfg w \<and> w_clients w' = w_clients w \<and> w_cmds w' = w_cmds w \<and> w_wss w' = w_wss w \<and>
      w_acs w' = w_acs w \<and> w_pool w' = w_pool w \<and> redis_io w' = redis_io w \<and> w_connects w' = w_connects w \<and>
      w_msgpack w' = w_msgpack w)"

lemma http_frame_refl [simp]: "http_frame w w"
  by (simp add: http_frame_def)

lemma http_frame_trans [trans]: "http_frame u v \<Longrightarrow> http_frame v w \<Longrightarrow> http_frame u w"
  by (simp add: http_frame_def)

lemma redis_io_slog [simp]: "redis_io (slog l b n w) = redis_io w"
proof -
  obtain es where es: "w_io (slog l b n w) = w_io w @ es" "\<forall>e \<in> set es. is_log e"
    using slog_io by blast
  from es(2) have "filter to_redis es = []"
    by (auto simp: filter_empty_conv is_log_def to_redis_def split: io.splits)
  with es(1) show ?thesis by (simp add: redis_io_def)
qed

lemma http_frame_slog [simp]:
  "http_frame w (slog l b n v) = http_frame w v" "http_frame (slog l b n v) w = http_frame v w"
  by (simp_all add: http_frame_def)

lemma http_frame_simps [simp]:
  "http_frame w (put_resp p r v) = http_frame w v" "http_frame (put_resp p r v) w = http_frame v w"
  "http_frame w (event_add e v) = http_frame w v" "http_frame (event_add e v) w = http_frame v w"
  "http_frame w (emit (Close fd) v) = http_frame w v"
  "http_frame w (v\<lparr>w_resps := rs\<rparr>) = http_frame w v"
  by (simp_all add: http_frame_def put_resp_def event_add_def emit_def redis_io_def to_redis_def)

lemma http_frame_sys:
  "http_frame w (snd (sys_write fd b w))" "http_frame w (snd (sys_alloc w))" "http_frame w (snd (fresh w))"
  by (simp_all add: http_frame_def emit_def sys_write_def sys_alloc_def fresh_def
      redis_io_def to_redis_def Let_def)

lemma http_frame_cleanup: "http_response_cleanup p fd b w = Some w' \<Longrightarrow> http_frame w w'"
  by (auto simp: http_response_cleanup_def Let_def split: bind_splits)

lemma http_frame_async:
  assumes "http_schedule_async fd p w = Some w'"
  shows "http_frame w w'"
proof -
  obtain ok v where v: "sys_alloc w = (ok, v)" by (cases "sys_alloc w")
  then have "http_frame w v" using http_frame_sys(2) [of w] by simp
  moreover have "http_frame v w'"
    using assms v by (auto simp: http_schedule_async_def split: if_splits dest: http_frame_cleanup)
  ultimately show ?thesis by (rule http_frame_trans)
qed

lemma http_frame_can_write: "http_can_write fd p w = Some w' \<Longrightarrow> http_frame w w'"
proof (induction fd p w rule: http_can_write.induct)
  case (1 fd p w)
  show ?case
  proof (cases "w_resps w p")
    case None
    then show ?thesis using "1.prems" by (subst (asm) http_can_write.simps) simp
  next
    case (Some r)
    define ret w1 sent w2 where "ret = fst (sys_write fd (drop (r_sent r) (r_out r)) w)"
      and "w1 = snd (sys_write fd (drop (r_sent r) (r_out r)) w)"
      and "sent = (if ret > 0 then r_sent r + nat ret else r_sent r)"
      and "w2 = put_resp p (r\<lparr>r_sent := sent\<rparr>) w1"
    note d = this
    have step: "http_frame w w2" unfolding d by (simp add: http_frame_sys)
    have "http_frame w2 w'"
      using "1.prems" "1.IH" [OF Some d]
      unfolding http_can_write.simps [of fd p w] Some option.case Let_def d [symmetric]
      by (auto split: if_splits dest: http_frame_cleanup http_frame_async)
    with step show ?thesis by (rule http_frame_trans)
  qed
qed

lemma http_frame_schedule: "http_schedule_write fd p w = Some w' \<Longrightarrow> http_frame w w'"
  by (auto simp: http_schedule_write_def split: bind_splits if_splits
      dest: http_frame_can_write http_frame_async)

lemma http_frame_write: "http_response_write p fd w = Some w' \<Longrightarrow> http_frame w w'"
  by (auto simp: http_response_write_def split: bind_splits if_splits
      dest!: http_frame_schedule dest: http_frame_cleanup)

lemma http_frame_init:
  assumes "http_response_init a s m w = (rp, w')"
  shows "http_frame w w'"
proof -
  obtain ok v ok' v' where v: "sys_alloc w = (ok, v)" "sys_alloc v = (ok', v')"
    by (metis prod.exhaust)
  then have "http_frame w v" "http_frame v v'" "http_frame v' (snd (fresh v'))"
    using http_frame_sys(2) [of w] http_frame_sys(2) [of v] http_frame_sys(3) [of v'] by simp_all
  with assms v show ?thesis
    by (auto simp: http_response_init_def alloc_response_def Let_def split: prod.splits if_splits
        intro: http_frame_trans)
qed

text \<open>How often a descriptor was closed.\<close>

definition closes :: "int \<Rightarrow> world \<Rightarrow> nat" where
  "closes fd w = count_list (w_io w) (Close fd)"

lemma sys_write_closes [simp]: "closes fd (snd (sys_write fd' b w)) = closes fd w"
  by (simp add: closes_def sys_write_def emit_def Let_def)

lemma put_resp_io [simp]: "sent_bytes fd (put_resp p r w) = sent_bytes fd w" "closes fd (put_resp p r w) = closes fd w"
  by (simp_all add: sent_bytes_def closes_def put_resp_def)

lemma cleanup_eq:
  "w_resps w p = Some r \<Longrightarrow> http_response_cleanup p fd b w =
     Some (let v = (if (\<not> r_keep_alive r \<or> \<not> b) \<and> fd > 0 then emit (Close fd) w else w)
           in v\<lparr>w_resps := (w_resps v)(p := None)\<rparr>)"
  by (simp add: http_response_cleanup_def Let_def)

lemma sys_write_positive:
  "(\<forall>n \<in> set (w_writes w). 0 < n) \<Longrightarrow> b \<noteq> [] \<Longrightarrow>
     0 < fst (sys_write fd b w) \<and> (\<forall>n \<in> set (w_writes (snd (sys_write fd b w))). 0 < n)"
  by (cases "w_writes w") (auto simp: sys_write_def emit_def Let_def)

text \<open>
  A blocking write on a socket that accepts bytes sends the rest of the buffer in order, frees
  the response, and closes the socket unless it is kept alive.
\<close>

lemma can_write_sends:
  "w_resps w p = Some r \<Longrightarrow> \<not> r_w r \<Longrightarrow> r_sent r \<le> length (r_out r) \<Longrightarrow> (\<forall>n \<in> set (w_writes w). 0 < n) \<Longrightarrow>
     \<exists>w'. http_can_write fd p w = Some w' \<and> sent_bytes fd w' = sent_bytes fd w @ drop (r_sent r) (r_out r) \<and>
       w_resps w' p = None \<and> closes fd w' = closes fd w + (if \<not> r_keep_alive r \<and> fd > 0 then 1 else 0)"
proof (induction fd p w arbitrary: r rule: http_can_write.induct)
  case (1 fd p w)
  let ?rest = "drop (r_sent r) (r_out r)"
  define ret w1 sent w2 where "ret = fst (sys_write fd ?rest w)" and "w1 = snd (sys_write fd ?rest w)"
    and "sent = (if ret > 0 then r_sent r + nat ret else r_sent r)"
    and "w2 = put_resp p (r\<lparr>r_sent := sent\<rparr>) w1"
  note d = this
  have bound: "ret \<le> int (length ?rest)" unfolding d by (rule sys_write_bound)
  have bytes: "sent_bytes fd w2 = sent_bytes fd w @ take (nat ret) ?rest"
    unfolding d by (simp add: sent_bytes_write)
  have w2: "w_resps w2 p = Some (r\<lparr>r_sent := sent\<rparr>)" by (simp add: d put_resp_def)
  have closed: "closes fd w2 = closes fd w" by (simp add: d)
  have unfold: "http_can_write fd p w =
      (if ret \<le> 0 \<or> length (r_out r) - sent = 0 then http_response_cleanup p fd (length (r_out r) = sent) w2
       else http_can_write fd p w2)"
    unfolding http_can_write.simps [of fd p w] "1.prems"(1) option.case Let_def d using "1.prems"(2) by simp
  show ?case
  proof (cases "?rest = [] \<or> length (r_out r) - sent = 0")
    case True
    then have "length (r_out r) = sent \<and> take (nat ret) ?rest = ?rest"
      using bound "1.prems"(3) sys_write_positive [OF "1.prems"(4), of ?rest fd]
      by (auto simp: sent_def ret_def split: if_splits)
    then have all: "length (r_out r) = sent" "sent_bytes fd w2 = sent_bytes fd w @ ?rest"
      by (simp_all only: bytes)
    then show ?thesis
      unfolding unfold using w2 closed
      by (simp add: cleanup_eq Let_def sent_bytes_def closes_def emit_def)
  next
    case False
    then have pos: "0 < ret" "\<forall>n \<in> set (w_writes w2). 0 < n"
      using sys_write_positive [OF "1.prems"(4), of ?rest fd] unfolding d by (simp_all add: put_resp_def)
    have loop: "\<not> (ret \<le> 0 \<or> length (r_out r) - sent = 0)" using False pos by simp
    have "\<exists>w'. http_can_write fd p w2 = Some w' \<and>
        sent_bytes fd w' = sent_bytes fd w2 @ drop sent (r_out r) \<and> w_resps w' p = None \<and>
        closes fd w' = closes fd w2 + (if \<not> r_keep_alive r \<and> fd > 0 then 1 else 0)"
      using "1.IH" [OF "1.prems"(1) d loop _ w2] "1.prems"(2) pos(2) loop by simp
    moreover have "take (nat ret) ?rest @ drop sent (r_out r) = ?rest"
      using pos(1) append_take_drop_id [of "nat ret" ?rest] by (simp add: sent_def add.commute)
    ultimately show ?thesis
      unfolding unfold using loop bytes closed by auto
  qed
qed

section \<open>Lemmas: error replies\<close>

text \<open>A literal without NUL is its own C string.\<close>

lemma cstr_Cons_char [simp]: "c \<noteq> NUL \<Longrightarrow> cstr (c # s) = c # cstr s"
  by (simp add: cstr_Cons)

definition std_headers :: "http_header list" where
  "std_headers = r_headers (default_headers (http_response_allocate_headers False 200 None))"

definition error_response :: "bool \<Rightarrow> nat \<Rightarrow> int \<Rightarrow> string \<Rightarrow> http_response" where
  "error_response keep version status msg =
     http_response_set_keep_alive ((default_headers (http_response_allocate_headers False status (Some msg)))
       \<lparr>r_http_version := version\<rparr>) keep"

lemma default_headers_eq:
  "default_headers (http_response_allocate_headers a s m) =
     (http_response_allocate_headers a s m)\<lparr>r_headers := std_headers\<rparr>"
  by (simp add: std_headers_def default_headers_def http_response_allocate_headers_def
      http_response_set_header_def Let_def check_dupe_def HEADER_COPY_NONE_def DEFAULT_HEADERS_ARRAY_SIZE_def
      strcmp_eq_0)

definition hdr :: "string \<Rightarrow> string \<Rightarrow> nat \<Rightarrow> http_header" where
  "hdr k v copy = \<lparr>h_key = k, h_val = Some v, h_copy = copy\<rparr>"

lemma std_headers_eq:
  "std_headers =
     [hdr ''Server'' ''Webdis'' 0, hdr ''Allow'' ''GET,POST,PUT,OPTIONS'' 0,
      hdr ''Access-Control-Allow-Methods'' ''GET,POST,PUT,OPTIONS'' 0, hdr ''Access-Control-Allow-Origin'' ''*'' 0,
      hdr ''Access-Control-Allow-Headers'' ''X-Requested-With, Content-Type, Authorization'' 0]"
  by (simp add: std_headers_def default_headers_def http_response_allocate_headers_def hdr_def
      http_response_set_header_def Let_def check_dupe_def HEADER_COPY_NONE_def DEFAULT_HEADERS_ARRAY_SIZE_def
      strcmp_eq_0)

lemma set_keep_alive_eq:
  "http_response_set_keep_alive r on =
     r\<lparr>r_keep_alive := on,
        r_headers := r_headers r @ [hdr ''Connection'' (if on then ''Keep-Alive'' else ''Close'') 0],
        r_headers_array_size := (if length (r_headers r) = r_headers_array_size r
          then Suc (r_headers_array_size r) else r_headers_array_size r)\<rparr>"
  by (simp add: http_response_set_keep_alive_def http_response_set_header_def Let_def check_dupe_def
      HEADER_COPY_NONE_def strcmp_eq_0 hdr_def)

lemma find_dupe_append:
  "find_dupe (xs @ ys) k i =
     (case find_dupe xs k i of Some j \<Rightarrow> Some j | None \<Rightarrow> find_dupe ys k (i + length xs))"
  by (induction xs arbitrary: i) (simp_all del: strncmp.simps split: option.split)

lemma find_dupe_std: "find_dupe std_headers ''Content-Length'' 0 = None"
  by (simp add: std_headers_eq hdr_def strncmp_eq_0 strlen_def del: strncmp.simps)

lemma error_response_eq:
  "error_response keep version status msg =
     \<lparr>r_code = status, r_msg = Some msg,
      r_headers = std_headers @ [hdr ''Connection'' (if keep then ''Keep-Alive'' else ''Close'') 0],
      r_headers_array_size = 9, r_body = None, r_out = [], r_chunked = False,
      r_http_version = version, r_keep_alive = keep, r_sent = 0, r_w = False\<rparr>"
  unfolding error_response_def default_headers_eq
  unfolding set_keep_alive_eq http_response_allocate_headers_def
  by (simp add: DEFAULT_HEADERS_ARRAY_SIZE_def std_headers_eq)

lemma error_response_headers:
  "r_headers (set_content_length (error_response keep version status msg)) =
     std_headers @ [hdr ''Connection'' (if keep then ''Keep-Alive'' else ''Close'') 0, hdr ''Content-Length'' ''0'' 4]"
  "\<not> r_chunked (error_response keep version status msg)"
proof -
  have "find_dupe [hdr ''Connection'' v 0] ''Content-Length'' i = None" for v i
    by (simp add: hdr_def strncmp_eq_0 strlen_def del: strncmp.simps)
  then have "find_dupe (std_headers @ [hdr ''Connection'' v 0]) ''Content-Length'' 0 = None" for v
    by (simp add: find_dupe_append find_dupe_std)
  moreover show "\<not> r_chunked (error_response keep version status msg)"
    by (simp add: error_response_eq)
  ultimately show "r_headers (set_content_length (error_response keep version status msg)) =
     std_headers @ [hdr ''Connection'' (if keep then ''Keep-Alive'' else ''Close'') 0, hdr ''Content-Length'' ''0'' 4]"
    by (simp add: set_content_length_def error_response_eq http_response_set_header_def Let_def check_dupe_def
        HEADER_COPY_NONE_def HEADER_CHECK_DUPE_def strcmp_eq_0 hdr_def split: bool.split)
qed

lemma error_response_keep_alive:
  "(\<exists>h \<in> set (r_headers (set_content_length (error_response keep version status msg))). is_keep_alive_header h) = keep"
  by (simp add: error_response_headers std_headers_eq is_keep_alive_header_def hdr_def strncasecmp_eq_0
      tolower_def code_def del: strncasecmp.simps)

lemma clean_error_response:
  assumes "CR \<notin> set msg" "100 \<le> status" "status < 1000"
  shows "clean_response (error_response keep version status msg)"
  using assms by (simp add: clean_response_def error_response_eq std_headers_eq hdr_def)

lemma print_fields:
  assumes "http_response_print r = Some r'"
  shows "r_sent r' = 0" "r_w r' = r_w r"
    "r_keep_alive r' = (r_keep_alive r \<or> (\<exists>h \<in> set (r_headers (set_content_length r)). is_keep_alive_header h))"
proof -
  obtain line where r': "r' = (let q = (if \<exists>h \<in> set (r_headers (set_content_length r)). is_keep_alive_header h
      then (set_content_length r)\<lparr>r_keep_alive := True\<rparr> else set_content_length r)
    in q\<lparr>r_out := line @ concat (map header_line (r_headers q)) @ CRLF @ body_bytes q, r_sent := 0\<rparr>)"
    using assms by (auto simp: http_response_print_def Let_def split: bind_splits)
  then show "r_sent r' = 0" by (simp add: Let_def)
  show "r_w r' = r_w r"
    "r_keep_alive r' = (r_keep_alive r \<or> (\<exists>h \<in> set (r_headers (set_content_length r)). is_keep_alive_header h))"
    unfolding r' Let_def by simp_all
qed

text \<open>
  What \<open>http_send_error\<close> does when memory is available and the socket accepts bytes: the client
  gets a response that reads back as the status with an empty body, the socket stays open if and
  only if the client asked for that, and the client is reset.
\<close>

lemma write_blocking:
  assumes "clean_response r" "\<not> r_w r" "fd \<ge> 0" "\<forall>n \<in> set (w_writes w). 0 < n"
    and "http_response_print r = Some r'"
  shows "\<exists>w'. http_response_write rp fd (put_resp rp r w) = Some w' \<and>
    sent_bytes fd w' = sent_bytes fd w @ r_out r' \<and> w_resps w' rp = None \<and>
    closes fd w' = closes fd w + (if \<not> r_keep_alive r' \<and> fd > 0 then 1 else 0) \<and> http_frame w w'"
proof -
  let ?w = "put_resp rp r' (put_resp rp r w)"
  have r': "r_sent r' = 0" "\<not> r_w r'"
    using assms(2) print_fields [OF assms(5)] by simp_all
  have "w_resps ?w rp = Some r'" "\<forall>n \<in> set (w_writes ?w). 0 < n"
    using assms(4) by (simp_all add: put_resp_def)
  then obtain w' where w': "http_can_write fd rp ?w = Some w'" "sent_bytes fd w' = sent_bytes fd w @ r_out r'"
    "w_resps w' rp = None" "closes fd w' = closes fd w + (if \<not> r_keep_alive r' \<and> fd > 0 then 1 else 0)"
    using can_write_sends [of ?w rp r' fd] r' by auto
  moreover have "http_response_write rp fd (put_resp rp r w) = http_can_write fd rp ?w"
    using assms(3,5) r'(2) by (simp add: http_response_write_def http_schedule_write_def put_resp_def)
  moreover have "http_frame w w'" using http_frame_can_write [OF w'(1)] by simp
  ultimately show ?thesis by auto
qed

lemma http_send_error_ok:
  assumes "w_clients w cp = Some c" "http_client_reset c = Some c'" "hc_fd c \<ge> 0" "w_allocs w = []"
    and "\<forall>n \<in> set (w_writes w). 0 < n" "CR \<notin> set msg" "100 \<le> status" "status < 1000"
  defines "r \<equiv> error_response (hc_keep_alive c) (hc_http_version c) status msg"
  shows "\<exists>w' out. http_send_error cp status msg w = Some w' \<and> w_clients w' = (w_clients w)(cp \<mapsto> c') \<and>
    sent_bytes (hc_fd c) w' = sent_bytes (hc_fd c) w @ out \<and>
    read_head out = Some (status_text r # map header_text (r_headers (set_content_length r)), []) \<and>
    closes (hc_fd c) w' = closes (hc_fd c) w + (if \<not> hc_keep_alive c \<and> hc_fd c > 0 then 1 else 0) \<and>
    redis_io w' = redis_io w \<and> w_cmds w' = w_cmds w"
proof -
  let ?rp = "w_next w" and ?v = "w\<lparr>w_next := Suc (w_next w)\<rparr>"
  let ?r0 = "default_headers (http_response_allocate_headers False status (Some msg))"
  have init: "http_response_init False status (Some msg) w = (Some ?rp, put_resp ?rp ?r0 ?v)"
    using assms(4) by (simp add: http_response_init_def alloc_response_def fresh_def)
  have clean: "clean_response r" unfolding r_def using assms(6-8) by (rule clean_error_response)
  obtain r' where r': "http_response_print r = Some r'"
      "read_head (r_out r') = Some (status_text r # map header_text (r_headers (set_content_length r)),
         body_bytes (set_content_length r))"
    using print_reads_back [OF clean] by blast
  have no_body: "body_bytes (set_content_length r) = []"
    by (simp add: body_bytes_def r_def error_response_eq)
  have keep: "r_keep_alive r' = hc_keep_alive c"
    using print_fields(3) [OF r'(1)] error_response_keep_alive [of "hc_keep_alive c" "hc_http_version c" status msg]
    by (auto simp: r_def error_response_eq)
  have upd: "upd_resp ?rp (\<lambda>r. http_response_set_body
      (http_response_set_connection_header c (r\<lparr>r_http_version := hc_http_version c\<rparr>)) None) (put_resp ?rp ?r0 ?v) =
      Some (put_resp ?rp r ?v)"
  proof -
    have "http_response_set_connection_header c (?r0\<lparr>r_http_version := hc_http_version c\<rparr>) = r"
      by (simp only: r_def error_response_def http_response_set_connection_header_def)
    moreover have "r_body r = None" by (simp add: r_def error_response_eq)
    then have "http_response_set_body r None = r" by (cases r) (simp add: http_response_set_body_def)
    ultimately show ?thesis by (simp add: upd_resp_def put_resp_def)
  qed
  obtain w' where w': "http_response_write ?rp (hc_fd c) (put_resp ?rp r ?v) = Some w'"
      "sent_bytes (hc_fd c) w' = sent_bytes (hc_fd c) ?v @ r_out r'"
      "closes (hc_fd c) w' = closes (hc_fd c) ?v + (if \<not> r_keep_alive r' \<and> hc_fd c > 0 then 1 else 0)"
      "http_frame ?v w'"
    using write_blocking [OF clean _ assms(3) _ r'(1), of ?v ?rp] assms(5) by (auto simp: r_def error_response_eq)
  have "http_send_error cp status msg w = reset_client cp w'"
    using assms(1) init upd w'(1) by (simp add: http_send_error_def put_resp_def)
  moreover have "reset_client cp w' = Some (put_client cp c' w')"
    using w'(4) assms(1,2) by (simp add: reset_client_def http_frame_def)
  ultimately show ?thesis
    using w' r'(2) no_body keep
    by (auto simp: put_client_def http_frame_def sent_bytes_def closes_def redis_io_def)
qed

section \<open>Properties\<close>



text \<open>
  C27: \<open>http_send_error\<close>, on a socket that accepts bytes, sends a complete response with the status
  and an empty body to the client's socket and nothing to Redis, closes the socket exactly if the
  client did not ask to keep it, and resets the client for the next request.
\<close>

theorem http_send_error_replies:
  assumes "w_clients w cp = Some c" "http_client_reset c = Some c'" "hc_fd c > 0" "w_allocs w = []"
    and "list_all (\<lambda>n. 0 < n) (w_writes w)" "CR \<notin> set msg" "NUL \<notin> set msg" "100 \<le> status" "status < 1000"
  shows "\<exists>w' out hs. http_send_error cp status msg w = Some w' \<and> w_clients w' = (w_clients w)(cp \<mapsto> c') \<and>
    sent_bytes (hc_fd c) w' = sent_bytes (hc_fd c) w @ out \<and>
    read_head out = Some ((''HTTP/1.'' @ show_nat (if hc_http_version c \<noteq> 0 then 1 else 0) @ '' '' @
      show_int status @ '' '' @ msg) # hs, []) \<and>
    ''Content-Length: 0'' \<in> set hs \<and>
    (''Connection: '' @ (if hc_keep_alive c then ''Keep-Alive'' else ''Close'')) \<in> set hs \<and>
    closes (hc_fd c) w' = closes (hc_fd c) w + (if hc_keep_alive c then 0 else 1) \<and> redis_io w' = redis_io w"
proof -
  let ?r = "error_response (hc_keep_alive c) (hc_http_version c) status msg"
  let ?hs = "map header_text (r_headers (set_content_length ?r))"
  have "status_text ?r = ''HTTP/1.'' @ show_nat (if hc_http_version c \<noteq> 0 then 1 else 0) @ '' '' @
      show_int status @ '' '' @ msg"
    using assms(7) by (simp add: status_text_def error_response_eq cstr_no_NUL)
  moreover have "''Content-Length: 0'' \<in> set ?hs"
    "(''Connection: '' @ (if hc_keep_alive c then ''Keep-Alive'' else ''Close'')) \<in> set ?hs"
    unfolding error_response_headers by (simp_all add: hdr_def header_text_def)
  moreover have "\<forall>n \<in> set (w_writes w). 0 < n" "hc_fd c \<ge> 0" using assms(3,5) by (simp_all add: list_all_iff)
  ultimately show ?thesis
    using http_send_error_ok [OF assms(1,2) _ assms(4) _ assms(6,8,9)] assms(3) by (fastforce split: if_splits)
qed

theorem http_send_error_replies_witness:
  "\<exists>w'. http_send_error 1 403 ''Forbidden'' (put_client 1 (http_client_new 5 0) (idle_world (conf_defaults plain_system))) = Some w' \<and>
     closes 5 w' = 1"
  using http_send_error_replies [of "put_client 1 (http_client_new 5 0) (idle_world (conf_defaults plain_system))" 1
      "http_client_new 5 0" "the (http_client_reset (http_client_new 5 0))" "''Forbidden''" 403]
  by (auto simp: put_client_def idle_world_def http_client_new_def http_client_reset_def closes_def)

function read_chunks :: "string \<Rightarrow> (string list \<times> string) option" where
  "read_chunks s =
     (case read_chunk s of
        None \<Rightarrow> None
      | Some (p, t) \<Rightarrow> if p = [] then Some ([], t)
          else if length t < length s then map_option (\<lambda>(ps, u). (p # ps, u)) (read_chunks t) else None)"
  by pat_completeness auto
termination by (relation "measure length") auto

text \<open>
  A sequence of non-empty chunks that \<open>format_chunk\<close> printed, ended by the empty chunk, decodes
  to the chunks.
\<close>

theorem chunks_round_trip:
  assumes "list_all (\<lambda>p. p \<noteq> [] \<and> length p < 2 ^ 32) ps"
  shows "read_chunks (concat (map format_chunk ps) @ format_chunk [] @ rest) = Some (ps, rest)"
  using assms
proof (induction ps)
  case Nil
  then show ?case using read_format_chunk [of "[]" rest] by (subst read_chunks.simps) simp
next
  case (Cons p ps)
  let ?t = "concat (map format_chunk ps) @ format_chunk [] @ rest"
  have "read_chunk (format_chunk p @ ?t) = Some (p, ?t)" using Cons.prems by (intro read_format_chunk) simp
  moreover have "length ?t < length (format_chunk p @ ?t)" by (simp add: format_chunk_def)
  ultimately show ?case using Cons by (subst read_chunks.simps) simp
qed

theorem chunks_round_trip_witness:
  "read_chunks (format_chunk ''ab'' @ format_chunk ''c'' @ format_chunk [] @ ''next'') = Some ([''ab'', ''c''], ''next'')"
  using chunks_round_trip [of "[''ab'', ''c'']" "''next''"] by simp

end
