(* ===== verification/Reader.thy ===== *)
theory Reader
  imports C_Lib
begin

text \<open>
  The protocol of Redis: the reader of replies (\<open>hiredis/read.c\<close>, with the functions of
  \<open>hiredis/hiredis.c\<close> that create reply objects) and the printer of commands.

  The reader is a machine with a stack of tasks, one per aggregate that is open. It works on a
  buffer that grows while data arrive, stops when an item is not complete, and goes on from there.
  Allocations succeed.
\<close>

section \<open>Replies\<close>

text \<open>\<open>redisReply\<close> by its \<open>type\<close>; a double is the text that was received.\<close>

datatype redisReply =
    REDIS_REPLY_STRING string
  | REDIS_REPLY_ARRAY "redisReply list"
  | REDIS_REPLY_INTEGER int
  | REDIS_REPLY_NIL
  | REDIS_REPLY_STATUS string
  | REDIS_REPLY_ERROR string
  | REDIS_REPLY_DOUBLE string
  | REDIS_REPLY_BOOL bool
  | REDIS_REPLY_MAP "redisReply list"
  | REDIS_REPLY_SET "redisReply list"
  | REDIS_REPLY_PUSH "redisReply list"
  | REDIS_REPLY_VERB string string

datatype reply_type = STRING | ARRAY | INTEGER | NIL | STATUS | ERROR | DOUBLE | BOOL | MAP | SET | PUSH | VERB

section \<open>The reader\<close>

text \<open>
  A task has the type of the item it reads (\<^term>\<open>None\<close> for -1) and its index in the parent. The
  object of an aggregate is the list of the elements it has so far.
\<close>

record redisReadTask =
  t_type :: "reply_type option"
  t_elements :: int
  t_idx :: int
  t_obj :: "redisReply list"

text \<open>The stack of tasks has the current one first; \<open>ridx\<close> is its length minus one.\<close>

record redisReader =
  rd_err :: "string option"
  rd_buf :: string
  rd_pos :: nat
  rd_task :: "redisReadTask list"
  rd_reply :: "redisReply option"

definition redisReaderCreate :: redisReader where
  "redisReaderCreate = \<lparr>rd_err = None, rd_buf = [], rd_pos = 0, rd_task = [], rd_reply = None\<rparr>"

definition redisReaderSetError :: "string \<Rightarrow> redisReader \<Rightarrow> redisReader" where
  "redisReaderSetError str r =
     r\<lparr>rd_reply := None, rd_buf := [], rd_pos := 0, rd_task := [], rd_err := Some (take 127 (cstr str))\<rparr>"

text \<open>How a byte is shown in an error message.\<close>

definition isprint :: "char \<Rightarrow> bool" where
  "isprint c = (32 \<le> code c \<and> code c \<le> 126)"

definition chrtos :: "char \<Rightarrow> string" where
  "chrtos byte =
     DQUOTE # (if byte = CHR 0x5C \<or> byte = DQUOTE then [CHR 0x5C, byte]
       else if byte = LF then [CHR 0x5C, CHR ''n'']
       else if byte = CR then [CHR 0x5C, CHR ''r'']
       else if byte = CHR 0x09 then [CHR 0x5C, CHR ''t'']
       else if byte = CHR 0x07 then [CHR 0x5C, CHR ''a'']
       else if byte = CHR 0x08 then [CHR 0x5C, CHR ''b'']
       else if isprint byte then [byte]
       else CHR 0x5C # CHR ''x'' # [xdigit (code byte div 16), xdigit (code byte mod 16)]) @ [DQUOTE]"

definition redisReaderSetErrorProtocolByte :: "char \<Rightarrow> redisReader \<Rightarrow> redisReader" where
  "redisReaderSetErrorProtocolByte byte r =
     redisReaderSetError (''Protocol error, got '' @ take 7 (chrtos byte) @ '' as reply type byte'') r"

text \<open>\<open>seekNewline(s, len)\<close>: the offset of the first CR LF, with an \<open>int\<close> for the length.\<close>

function seekNewline :: "string \<Rightarrow> int \<Rightarrow> int \<Rightarrow> nat option" where
  "seekNewline s pos len =
     (if pos < len
      then (if at_c s (nat pos) \<noteq> CR then seekNewline s (pos + 1) len
            else if at_c s (nat (pos + 1)) = LF then Some (nat pos)
            else seekNewline s (pos + 1) len)
      else None)"
  by pat_completeness auto
termination by (relation "measure (\<lambda>(s, pos, len). nat (len - pos))") auto

declare seekNewline.simps [simp del]

definition rest_of :: "redisReader \<Rightarrow> string" where
  "rest_of r = drop (rd_pos r) (rd_buf r)"

definition find_line :: "redisReader \<Rightarrow> nat option" where
  "find_line r = seekNewline (rest_of r) 0 (to_int32 (int (length (rest_of r)) - 1))"

text \<open>The digits of \<open>string2ll\<close> with the checks for overflow; the rest that is not a digit.\<close>

definition ULLONG_MAX :: nat where
  "ULLONG_MAX = 2 ^ 64 - 1"

fun ll_digits :: "string \<Rightarrow> nat \<Rightarrow> (nat \<times> string) option" where
  "ll_digits [] v = Some (v, [])"
| "ll_digits (c # cs) v =
     (if isdigit c
      then if v > ULLONG_MAX div 10 then None
        else if v * 10 > ULLONG_MAX - (code c - 48) then None
        else ll_digits cs (v * 10 + (code c - 48))
      else Some (v, c # cs))"

definition string2ll :: "string \<Rightarrow> int option" where
  "string2ll s =
     (if s = [] then None
      else if s = ''0'' then Some 0
      else let negative = (hd s = CHR ''-''); p = (if negative then tl s else s) in
        if p = [] then None
        else if \<not> (49 \<le> code (hd p) \<and> code (hd p) \<le> 57) then None
        else case ll_digits (tl p) (code (hd p) - 48) of
          None \<Rightarrow> None
        | Some (v, left) \<Rightarrow>
            if left \<noteq> [] then None
            else if negative then (if v > 2 ^ 63 then None else Some (- int v))
            else if v > 2 ^ 63 - 1 then None else Some (int v))"

text \<open>
  \<open>strtod\<close> reads the whole string and the value is not NaN: a decimal or hexadecimal number, or an
  infinity.
\<close>

definition dec_exponent :: "string \<Rightarrow> bool" where
  "dec_exponent s =
     (let t = (if hd_c s = CHR ''+'' \<or> hd_c s = CHR ''-'' then tl s else s) in t \<noteq> [] \<and> list_all isdigit t)"

definition dec_tail :: "char \<Rightarrow> string \<Rightarrow> bool" where
  "dec_tail e s = (s = [] \<or> tolower (hd_c s) = e \<and> dec_exponent (tl s))"

definition number_text :: "(char \<Rightarrow> bool) \<Rightarrow> char \<Rightarrow> string \<Rightarrow> bool" where
  "number_text isdig e s =
     (let whole = takeWhile isdig s; t = dropWhile isdig s in
      if hd_c t = CHR ''.''
      then (whole \<noteq> [] \<or> isdig (hd_c (tl t))) \<and> dec_tail e (dropWhile isdig (tl t))
      else whole \<noteq> [] \<and> dec_tail e t)"

definition strtod_accepts :: "string \<Rightarrow> bool" where
  "strtod_accepts s =
     (let t = dropWhile isspace s;
          u = (if hd_c t = CHR ''+'' \<or> hd_c t = CHR ''-'' then tl t else t) in
      map tolower u = ''inf'' \<or> map tolower u = ''infinity'' \<or>
      map tolower (take 2 u) = ''0x'' \<and> number_text isxdigit (CHR ''p'') (drop 2 u) \<or>
      number_text isdigit (CHR ''e'') u)"

text \<open>The object of an aggregate.\<close>

fun aggregate :: "reply_type option \<Rightarrow> redisReply list \<Rightarrow> redisReply" where
  "aggregate (Some MAP) es = REDIS_REPLY_MAP es"
| "aggregate (Some SET) es = REDIS_REPLY_SET es"
| "aggregate (Some PUSH) es = REDIS_REPLY_PUSH es"
| "aggregate _ es = REDIS_REPLY_ARRAY es"

definition new_task :: "int \<Rightarrow> redisReadTask" where
  "new_task idx = \<lparr>t_type = None, t_elements = -1, t_idx = idx, t_obj = []\<rparr>"

text \<open>
  A finished object is the next element of the parent. \<open>moveToNextTask\<close> resets the task for the next
  element, without its old object; a parent that is complete is the finished object one level up,
  and the root is the reply.
\<close>

fun moveToNextTask :: "redisReply \<Rightarrow> redisReadTask list \<Rightarrow> redisReadTask list \<times> redisReply option" where
  "moveToNextTask obj [] = ([], None)"
| "moveToNextTask obj [cur] = ([], Some obj)"
| "moveToNextTask obj (cur # prv # tasks) =
     (let prv = prv\<lparr>t_obj := t_obj prv @ [obj]\<rparr> in
      if t_idx cur = t_elements prv - 1 then moveToNextTask (aggregate (t_type prv) (t_obj prv)) (prv # tasks)
      else (new_task (t_idx cur + 1) # prv # tasks, None))"

definition finish_item :: "redisReply \<Rightarrow> nat \<Rightarrow> redisReader \<Rightarrow> bool \<times> redisReader" where
  "finish_item obj n r =
     (let (tasks, reply) = moveToNextTask obj (rd_task r)
      in (True, r\<lparr>rd_pos := rd_pos r + n, rd_task := tasks, rd_reply := reply\<rparr>))"

text \<open>The object of an item that is one line; the double is copied into 326 bytes.\<close>

definition line_object :: "reply_type \<Rightarrow> string \<Rightarrow> string + redisReply" where
  "line_object type line =
     (case type of
        INTEGER \<Rightarrow> (case string2ll line of None \<Rightarrow> Inl ''Bad integer value'' | Some v \<Rightarrow> Inr (REDIS_REPLY_INTEGER v))
      | DOUBLE \<Rightarrow>
          (if length line \<ge> 326 then Inl ''Double value is too large''
           else if strcasecmp line '',inf'' = 0 \<or> strcasecmp line '',-inf'' = 0 then Inr (REDIS_REPLY_DOUBLE line)
           else if cstr line = [] \<or> \<not> strtod_accepts (cstr line) then Inl ''Bad double value''
           else Inr (REDIS_REPLY_DOUBLE line))
      | NIL \<Rightarrow> Inr REDIS_REPLY_NIL
      | BOOL \<Rightarrow> Inr (REDIS_REPLY_BOOL (hd_c line = CHR ''t'' \<or> hd_c line = CHR ''T''))
      | ERROR \<Rightarrow> Inr (REDIS_REPLY_ERROR line)
      | _ \<Rightarrow> Inr (REDIS_REPLY_STATUS line))"

text \<open>The results say whether the item was read. Without it the reader has an error, or it waits for more data.\<close>

definition processLineItem :: "reply_type \<Rightarrow> redisReader \<Rightarrow> bool \<times> redisReader" where
  "processLineItem type r =
     (case find_line r of
        None \<Rightarrow> (False, r)
      | Some len \<Rightarrow>
          (case line_object type (take len (rest_of r)) of
             Inl e \<Rightarrow> (False, redisReaderSetError e r)
           | Inr obj \<Rightarrow> finish_item obj (len + 2) r))"

definition bulk_object :: "reply_type \<Rightarrow> string \<Rightarrow> redisReply" where
  "bulk_object type s = (if type = VERB then REDIS_REPLY_VERB (take 3 s) (drop 4 s) else REDIS_REPLY_STRING s)"

definition processBulkItem :: "reply_type \<Rightarrow> redisReader \<Rightarrow> bool \<times> redisReader" where
  "processBulkItem type r =
     (case find_line r of
        None \<Rightarrow> (False, r)
      | Some pos \<Rightarrow>
          (case string2ll (take pos (rest_of r)) of
             None \<Rightarrow> (False, redisReaderSetError ''Bad bulk string length'' r)
           | Some len \<Rightarrow>
               if len < -1 then (False, redisReaderSetError ''Bulk string length out of range'' r)
               else if len = -1 then finish_item REDIS_REPLY_NIL (pos + 2) r
               else let n = nat len; data = drop (pos + 2) (rest_of r) in
                 if pos + 2 + n + 2 \<le> length (rest_of r)
                 then (if type = VERB \<and> (n < 4 \<or> at_c data 3 \<noteq> CHR '':'')
                       then (False, redisReaderSetError
                         ''Verbatim string 4 bytes of content type are missing or incorrectly encoded.'' r)
                       else finish_item (bulk_object type (take n data)) (pos + 2 + n + 2) r)
                 else (False, r)))"

definition REDIS_READER_MAX_ARRAY_ELEMENTS :: int where
  "REDIS_READER_MAX_ARRAY_ELEMENTS = 2 ^ 32 - 1"

definition processAggregateItem :: "reply_type \<Rightarrow> redisReader \<Rightarrow> bool \<times> redisReader" where
  "processAggregateItem type r =
     (case find_line r of
        None \<Rightarrow> (False, r)
      | Some len \<Rightarrow>
          (case string2ll (take len (rest_of r)) of
             None \<Rightarrow> (False, redisReaderSetError ''Bad multi-bulk length'' r)
           | Some elements \<Rightarrow>
               if elements < -1 \<or> elements > REDIS_READER_MAX_ARRAY_ELEMENTS
               then (False, redisReaderSetError ''Multi-bulk length out of range'' r)
               else if elements = -1 then finish_item REDIS_REPLY_NIL (len + 2) r
               else let elements = (if type = MAP then elements * 2 else elements) in
                 if elements > 0
                 then (case rd_task r of
                         [] \<Rightarrow> (False, r)
                       | cur # tasks \<Rightarrow> (True, r\<lparr>rd_pos := rd_pos r + len + 2,
                           rd_task := new_task 0 # cur\<lparr>t_elements := elements, t_obj := []\<rparr> # tasks\<rparr>))
                 else finish_item (aggregate (Some type) []) (len + 2) r))"

definition reply_type_of :: "char \<Rightarrow> reply_type option" where
  "reply_type_of c =
     (if c = CHR ''-'' then Some ERROR
      else if c = CHR ''+'' then Some STATUS
      else if c = CHR '':'' then Some INTEGER
      else if c = CHR '','' then Some DOUBLE
      else if c = CHR ''_'' then Some NIL
      else if c = CHR ''$'' then Some STRING
      else if c = CHR ''*'' then Some ARRAY
      else if c = CHR ''%'' then Some MAP
      else if c = CHR ''~'' then Some SET
      else if c = CHR ''#'' then Some BOOL
      else if c = CHR ''='' then Some VERB
      else if c = CHR ''>'' then Some PUSH
      else None)"

definition process_typed :: "reply_type \<Rightarrow> redisReader \<Rightarrow> bool \<times> redisReader" where
  "process_typed type r =
     (if type \<in> {ERROR, STATUS, INTEGER, DOUBLE, NIL, BOOL} then processLineItem type r
      else if type \<in> {STRING, VERB} then processBulkItem type r
      else processAggregateItem type r)"

definition processItem :: "redisReader \<Rightarrow> bool \<times> redisReader" where
  "processItem r =
     (case rd_task r of
        [] \<Rightarrow> (False, r)
      | cur # tasks \<Rightarrow>
          (case t_type cur of
             Some type \<Rightarrow> process_typed type r
           | None \<Rightarrow>
               if rest_of r = [] then (False, r)
               else (case reply_type_of (hd (rest_of r)) of
                       None \<Rightarrow> (False, redisReaderSetErrorProtocolByte (hd (rest_of r)) r)
                     | Some type \<Rightarrow> process_typed type
                         (r\<lparr>rd_pos := rd_pos r + 1, rd_task := cur\<lparr>t_type := Some type\<rparr> # tasks\<rparr>))))"

lemma seekNewline_bound: "seekNewline s pos len = Some n \<Longrightarrow> 0 \<le> pos \<Longrightarrow> nat pos \<le> n \<and> int n < len"
proof (induction s pos len rule: seekNewline.induct)
  case (1 s pos len)
  then show ?case
    by (subst (asm) (3) seekNewline.simps) (fastforce split: if_splits)
qed

lemma to_int32_le: "0 \<le> i + 1 \<Longrightarrow> to_int32 i \<le> i"
proof -
  assume "0 \<le> i + 1"
  then have "(i + 2 ^ 31) mod 2 ^ 32 \<le> i + 2 ^ 31" by (intro zmod_le_nonneg_dividend) simp
  then show ?thesis by (simp add: to_int32_def)
qed

lemma find_line_bound: "find_line r = Some n \<Longrightarrow> n + 2 \<le> length (rest_of r)"
proof -
  assume "find_line r = Some n"
  then have "int n < to_int32 (int (length (rest_of r)) - 1)"
    using seekNewline_bound [of "rest_of r" 0 "to_int32 (int (length (rest_of r)) - 1)" n] by (simp add: find_line_def)
  moreover have "to_int32 (int (length (rest_of r)) - 1) \<le> int (length (rest_of r)) - 1" by (rule to_int32_le) simp
  ultimately show ?thesis by linarith
qed

text \<open>An item that was read has consumed bytes.\<close>

definition consumes :: "redisReader \<Rightarrow> bool \<times> redisReader \<Rightarrow> bool" where
  "consumes r x = (fst x \<longrightarrow> rd_buf (snd x) = rd_buf r \<and> rd_pos r < rd_pos (snd x) \<and> rd_pos (snd x) \<le> length (rd_buf r))"

lemma consumes_finish: "n \<le> length (rest_of r) \<Longrightarrow> 0 < n \<Longrightarrow> consumes r (finish_item obj n r)"
  by (auto simp: consumes_def finish_item_def rest_of_def split: prod.split)

lemma consumes_typed: "consumes r (process_typed type r)"
proof -
  have "consumes r (processLineItem type r)"
    by (auto simp: processLineItem_def consumes_def [of _ "(False, _)"] intro!: consumes_finish
        dest!: find_line_bound split: option.split sum.split)
  moreover have "consumes r (processBulkItem type r)"
    by (auto simp: processBulkItem_def consumes_def [of _ "(False, _)"] Let_def intro!: consumes_finish
        dest!: find_line_bound split: option.split)
  moreover have "consumes r (processAggregateItem type r)"
    by (auto simp: processAggregateItem_def consumes_def [of _ "(False, _)"] consumes_def [of _ "(True, _)"] Let_def
        rest_of_def intro!: consumes_finish dest!: find_line_bound split: option.split list.split)
  ultimately show ?thesis by (simp add: process_typed_def)
qed

lemma consumes_item: "consumes r (processItem r)"
proof (cases "rd_task r")
  case (Cons cur tasks)
  show ?thesis
  proof (cases "t_type cur")
    case (Some type)
    then show ?thesis using Cons consumes_typed by (simp add: processItem_def)
  next
    case None
    have "consumes r (process_typed type (r\<lparr>rd_pos := rd_pos r + 1, rd_task := ts\<rparr>))" for type ts
      using consumes_typed [of "r\<lparr>rd_pos := rd_pos r + 1, rd_task := ts\<rparr>" type] by (auto simp: consumes_def)
    with None Cons show ?thesis
      by (auto simp: processItem_def consumes_def [of _ "(False, _)"] split: option.split)
  qed
qed (simp add: processItem_def consumes_def)

text \<open>The loop of \<open>redisReaderGetReply\<close>.\<close>

function reader_loop :: "redisReader \<Rightarrow> redisReader" where
  "reader_loop r =
     (if rd_task r = [] then r
      else if fst (processItem r) then reader_loop (snd (processItem r)) else snd (processItem r))"
  by pat_completeness auto
termination
proof (relation "measure (\<lambda>r. length (rd_buf r) - rd_pos r)")
  fix r
  assume "fst (processItem r)"
  with consumes_item [of r] show "(snd (processItem r), r) \<in> measure (\<lambda>r. length (rd_buf r) - rd_pos r)"
    by (auto simp: consumes_def)
qed simp

declare reader_loop.simps [simp del]

definition redisReaderFeed :: "redisReader \<Rightarrow> string \<Rightarrow> redisReader" where
  "redisReaderFeed r buf = (if rd_err r \<noteq> None then r else r\<lparr>rd_buf := rd_buf r @ buf\<rparr>)"

text \<open>\<open>redisReaderGetReply\<close>: \<^term>\<open>Inl\<close> is \<open>REDIS_ERR\<close>; without an error there may still be no reply.\<close>

definition redisReaderGetReply :: "redisReader \<Rightarrow> (string + redisReply option) \<times> redisReader" where
  "redisReaderGetReply r =
     (case rd_err r of
        Some e \<Rightarrow> (Inl e, r)
      | None \<Rightarrow>
          if rd_buf r = [] then (Inr None, r)
          else let r = reader_loop (if rd_task r = [] then r\<lparr>rd_task := [new_task (-1)]\<rparr> else r) in
            (case rd_err r of
               Some e \<Rightarrow> (Inl e, r)
             | None \<Rightarrow>
                 let r = (if rd_pos r \<ge> 1024 then r\<lparr>rd_buf := drop (rd_pos r) (rd_buf r), rd_pos := 0\<rparr> else r) in
                 if rd_task r = [] then (Inr (rd_reply r), r\<lparr>rd_reply := None\<rparr>) else (Inr None, r)))"

section \<open>Commands\<close>

text \<open>\<open>countDigits\<close>, \<open>bulklen\<close> and \<open>redisFormatSdsCommandArgv\<close>; the result is cast to \<open>int\<close>.\<close>

function countDigits :: "nat \<Rightarrow> nat" where
  "countDigits v =
     (if v < 10 then 1
      else if v < 100 then 2
      else if v < 1000 then 3
      else if v < 10000 then 4
      else 4 + countDigits (v div 10000))"
  by pat_completeness auto
termination by (relation "measure id") auto

declare countDigits.simps [simp del]

definition bulklen :: "nat \<Rightarrow> nat" where
  "bulklen len = 1 + countDigits len + 2 + len + 2"

text \<open>\<open>%i\<close> prints an \<open>int\<close>, \<open>%u\<close> an \<open>unsigned int\<close>; the assertion compares the lengths.\<close>

definition redisFormatSdsCommandArgv :: "string list \<Rightarrow> (int \<times> string) option" where
  "redisFormatSdsCommandArgv argv =
     (let totlen = 1 + countDigits (length argv) + 2 + sum_list (map (\<lambda>arg. bulklen (length arg)) argv);
          cmd = CHR ''*'' # show_int (to_int32 (int (length argv))) @ CRLF @
            concat (map (\<lambda>arg. CHR ''$'' # show_nat (length arg mod 2 ^ 32) @ CRLF @ arg @ CRLF) argv)
      in if length cmd \<noteq> totlen then None else Some (to_int32 (int totlen), cmd))"

section \<open>Lemmas: numbers\<close>

lemma isdigit_less: "isdigit c \<Longrightarrow> code c - 48 < 10"
  by (auto simp: isdigit_def)

lemma ll_digits_eq:
  assumes "list_all isdigit s" "v \<le> ULLONG_MAX"
  shows "ll_digits s v = (let n = foldl (\<lambda>n c. 10 * n + (code c - 48)) v s in
    if n \<le> ULLONG_MAX then Some (n, []) else None)"
  using assms
proof (induction s arbitrary: v)
  case (Cons c s)
  define d where "d = code c - 48"
  have d: "d < 10" "isdigit c" using Cons.prems(1) isdigit_less [of c] by (simp_all add: d_def)
  have mono: "w \<le> foldl (\<lambda>n c. 10 * n + (code c - 48)) w s" for w
  proof (induction s arbitrary: w)
    case (Cons a s)
    have "10 * w + (code a - 48) \<le> foldl (\<lambda>n c. 10 * n + (code c - 48)) (10 * w + (code a - 48)) s" by (rule Cons.IH)
    then show ?case unfolding foldl.simps by linarith
  qed simp
  have unfold: "ll_digits (c # s) v = (if v > ULLONG_MAX div 10 then None
      else if v * 10 > ULLONG_MAX - d then None else ll_digits s (v * 10 + d))"
    using d(2) by (simp add: d_def [symmetric])
  show ?case
  proof (cases "10 * v + d \<le> ULLONG_MAX")
    case True
    then have "v \<le> ULLONG_MAX div 10" "v * 10 \<le> ULLONG_MAX - d"
      by (simp_all add: less_eq_div_iff_mult_less_eq)
    with True Cons show ?thesis by (simp add: unfold mult.commute d_def [symmetric])
  next
    case False
    have "d \<le> ULLONG_MAX" using d by (simp add: ULLONG_MAX_def)
    then have "v * 10 > ULLONG_MAX - d" using False by (simp add: less_diff_conv2)
    moreover have "\<not> foldl (\<lambda>n c. 10 * n + (code c - 48)) (10 * v + d) s \<le> ULLONG_MAX"
      using False mono [of "10 * v + d"] by linarith
    ultimately show ?thesis using d(2) by (simp add: unfold d_def [symmetric])
  qed
qed simp

lemma digit_code [simp]: "isdigit c \<Longrightarrow> digit (code c - 48) = c"
  by (simp add: digit_def isdigit_def)

lemma show_read:
  "list_all isdigit s \<Longrightarrow> s \<noteq> [] \<Longrightarrow> hd s \<noteq> CHR ''0'' \<or> length s = 1 \<Longrightarrow> show_nat (read_digits s) = s"
proof (induction s rule: rev_induct)
  case (snoc c s)
  have d: "code c - 48 < 10" "isdigit c" using snoc isdigit_less by auto
  show ?case
  proof (cases "s = []")
    case True
    with d show ?thesis using read_digits_snoc [of "[]" c] by (subst show_nat.simps) simp
  next
    case False
    then have s: "show_nat (read_digits s) = s" using snoc by simp
    have "read_digits s \<noteq> 0"
    proof
      assume "read_digits s = 0"
      with s have "s = [digit 0]" by (simp add: show_nat.simps)
      moreover have "digit 0 = CHR ''0''" by code_simp
      ultimately show False using snoc.prems(3) False by simp
    qed
    then have "\<not> 10 * read_digits s + (code c - 48) < 10" by simp
    with s d show ?thesis by (subst show_nat.simps) (simp add: read_digits_snoc)
  qed
qed simp

lemma show_nat_first: "0 < n \<Longrightarrow> 49 \<le> code (hd (show_nat n)) \<and> code (hd (show_nat n)) \<le> 57"
proof (induction n rule: show_nat.induct)
  case (1 n)
  show ?case
  proof (cases "n < 10")
    case True
    with 1 show ?thesis by (subst show_nat.simps, subst show_nat.simps) simp
  next
    case False
    then have "hd (show_nat n) = hd (show_nat (n div 10))" by (subst show_nat.simps) simp
    with False 1 show ?thesis by simp
  qed
qed

lemma ll_digits_split:
  "ll_digits s v = Some (n, left) \<Longrightarrow> \<exists>ds. s = ds @ left \<and> list_all isdigit ds"
proof (induction s arbitrary: v)
  case (Cons c s)
  then show ?case
    by (auto split: if_splits) (metis append_Cons list.pred_inject(2))
qed simp

lemma foldl_read_digits:
  "isdigit c \<Longrightarrow> foldl (\<lambda>n c. 10 * n + (code c - 48)) (code c - 48) s = read_digits (c # s)"
  by (simp add: read_digits_def)

lemma string2ll_digits:
  assumes "49 \<le> code c" "code c \<le> 57"
  shows "ll_digits s (code c - 48) = Some (n, []) \<longleftrightarrow> c # s = show_nat n \<and> n \<le> ULLONG_MAX"
proof -
  have c: "isdigit c" "c \<noteq> CHR ''0''" "code c - 48 \<le> ULLONG_MAX"
    using assms by (auto simp: isdigit_def ULLONG_MAX_def code_def)
  show ?thesis
  proof
    assume l: "ll_digits s (code c - 48) = Some (n, [])"
    then have s: "list_all isdigit s" using ll_digits_split [OF l] by auto
    with l c have "n = read_digits (c # s)" "n \<le> ULLONG_MAX"
      by (auto simp: ll_digits_eq foldl_read_digits Let_def split: if_splits)
    moreover have "show_nat (read_digits (c # s)) = c # s" using s c by (intro show_read) auto
    ultimately show "c # s = show_nat n \<and> n \<le> ULLONG_MAX" by simp
  next
    assume n: "c # s = show_nat n \<and> n \<le> ULLONG_MAX"
    then have "\<forall>x \<in> set (c # s). isdigit x" using show_nat_digits [of _ n] by metis
    then have "list_all isdigit s" by (simp add: list_all_iff)
    moreover have "read_digits (c # s) = n" using n by (metis read_show_nat)
    ultimately show "ll_digits s (code c - 48) = Some (n, [])"
      using c conjunct2 [OF n] by (simp add: ll_digits_eq foldl_read_digits)
  qed
qed

text \<open>\<open>string2ll\<close> accepts exactly the decimal numbers that \<open>%lld\<close> prints.\<close>

definition int64 :: "int \<Rightarrow> bool" where
  "int64 i = (- (2 ^ 63) \<le> i \<and> i < 2 ^ 63)"

lemma string2ll_iff: "string2ll s = Some i \<longleftrightarrow> s = show_int i \<and> int64 i"
proof
  assume l: "string2ll s = Some i"
  show "s = show_int i \<and> int64 i"
  proof (cases "s = ''0''")
    case True
    moreover have "show_int 0 = ''0''" by code_simp
    ultimately show ?thesis using l by (simp add: string2ll_def int64_def)
  next
    case False
    define neg where "neg = (hd s = CHR ''-'')"
    obtain c t where p: "(if neg then tl s else s) = c # t" "s \<noteq> []"
      using l False by (cases "if neg then tl s else s") (auto simp: string2ll_def neg_def split: if_splits)
    have c: "49 \<le> code c" "code c \<le> 57"
      using l False p by (auto simp: string2ll_def neg_def [symmetric] Let_def split: if_splits)
    obtain n where n: "ll_digits t (code c - 48) = Some (n, [])"
        "if neg then n \<le> 2 ^ 63 \<and> i = - int n else n < 2 ^ 63 \<and> i = int n"
      using l False p c by (auto simp: string2ll_def neg_def [symmetric] Let_def split: if_splits option.splits)
    have printed: "c # t = show_nat n" using string2ll_digits [OF c] n(1) by blast
    moreover have "n \<noteq> 0"
    proof
      assume "n = 0"
      with printed have "c = digit 0" by (simp add: show_nat.simps)
      with c show False by simp
    qed
    moreover have "s = (if neg then CHR ''-'' # c # t else c # t)" using p by (cases s) (auto simp: neg_def)
    ultimately show ?thesis using n(2) by (auto simp: show_int_def int64_def split: if_splits)
  qed
next
  assume r: "s = show_int i \<and> int64 i"
  have zero: "show_int 0 = ''0''" by code_simp
  show "string2ll s = Some i"
  proof (cases "i = 0")
    case True
    then show ?thesis using r zero by (simp add: string2ll_def)
  next
    case False
    define n where "n = nat \<bar>i\<bar>"
    then have "0 < n" using False by simp
    obtain c t where ct: "show_nat n = c # t" by (cases "show_nat n") auto
    have c: "49 \<le> code c" "code c \<le> 57" using show_nat_first [OF \<open>0 < n\<close>] ct by simp_all
    have "n \<le> ULLONG_MAX" using r by (auto simp: n_def int64_def ULLONG_MAX_def)
    then have "ll_digits t (code c - 48) = Some (n, [])" using string2ll_digits [OF c] ct by simp
    moreover have "c \<noteq> CHR ''-''" using c by (auto simp: code_def)
    moreover have "c # t \<noteq> ''0''" using c by (auto simp: code_def)
    moreover have "s = (if i < 0 then CHR ''-'' # c # t else c # t)"
      using r ct by (simp add: show_int_def n_def split: if_splits)
    ultimately show ?thesis
      using r c False by (auto simp: string2ll_def n_def int64_def Let_def nat_le_iff split: if_splits)
  qed
qed

section \<open>Lemmas: lines\<close>

lemma seekNewline_found:
  assumes "CR \<notin> set line" "s = pre @ line @ CRLF @ t" "int (length (pre @ line)) < len"
  shows "seekNewline s (int (length pre)) len = Some (length (pre @ line))"
  using assms
proof (induction line arbitrary: pre)
  case Nil
  then have "at_c s (length pre) = CR" "at_c s (Suc (length pre)) = LF" by (simp_all add: at_c_def nth_append)
  with Nil show ?case by (subst seekNewline.simps) (simp add: nat_add_distrib)
next
  case (Cons c line)
  then have "at_c s (length pre) = c" by (simp add: at_c_def nth_append)
  moreover have "seekNewline s (int (length (pre @ [c]))) len = Some (length (pre @ c # line))"
    using Cons.IH [of "pre @ [c]"] Cons.prems by simp
  ultimately show ?case using Cons.prems by (subst seekNewline.simps) (auto simp: add.commute)
qed

lemma find_line_found:
  assumes "rest_of r = line @ CRLF @ t" "CR \<notin> set line" "length (rest_of r) < 2 ^ 31"
  shows "find_line r = Some (length line)"
  using seekNewline_found [of line "rest_of r" "[]" t "int (length (rest_of r)) - 1"] assms
  by (simp add: find_line_def to_int32_id)

lemma show_nat_no_CR: "CR \<notin> set (show_nat n)"
  using show_nat_digits [of CR n] by (auto simp: isdigit_def code_def)

lemma show_int_no_CR: "CR \<notin> set (show_int i)"
  using show_nat_no_CR by (simp add: show_int_def)

section \<open>Lemmas: replies that are read back\<close>

text \<open>The text of a reply, and the replies that have one.\<close>

fun resp :: "redisReply \<Rightarrow> string" where
  "resp (REDIS_REPLY_STRING s) = CHR ''$'' # show_int (int (length s)) @ CRLF @ s @ CRLF"
| "resp (REDIS_REPLY_ARRAY es) = CHR ''*'' # show_int (int (length es)) @ CRLF @ concat (map resp es)"
| "resp (REDIS_REPLY_INTEGER i) = CHR '':'' # show_int i @ CRLF"
| "resp REDIS_REPLY_NIL = ''$-1'' @ CRLF"
| "resp (REDIS_REPLY_STATUS s) = CHR ''+'' # s @ CRLF"
| "resp (REDIS_REPLY_ERROR s) = CHR ''-'' # s @ CRLF"
| "resp (REDIS_REPLY_DOUBLE s) = CHR '','' # s @ CRLF"
| "resp (REDIS_REPLY_BOOL b) = CHR ''#'' # (if b then ''t'' else ''f'') @ CRLF"
| "resp (REDIS_REPLY_MAP es) = CHR ''%'' # show_int (int (length es div 2)) @ CRLF @ concat (map resp es)"
| "resp (REDIS_REPLY_SET es) = CHR ''~'' # show_int (int (length es)) @ CRLF @ concat (map resp es)"
| "resp (REDIS_REPLY_PUSH es) = CHR ''>'' # show_int (int (length es)) @ CRLF @ concat (map resp es)"
| "resp (REDIS_REPLY_VERB v s) = CHR ''='' # show_int (int (length s + 4)) @ CRLF @ v @ '':'' @ s @ CRLF"

fun resp_ok :: "redisReply \<Rightarrow> bool" where
  "resp_ok (REDIS_REPLY_INTEGER i) = int64 i"
| "resp_ok (REDIS_REPLY_STATUS s) = (CR \<notin> set s)"
| "resp_ok (REDIS_REPLY_ERROR s) = (CR \<notin> set s)"
| "resp_ok (REDIS_REPLY_DOUBLE s) = (CR \<notin> set s \<and> line_object DOUBLE s = Inr (REDIS_REPLY_DOUBLE s))"
| "resp_ok (REDIS_REPLY_ARRAY es) = (list_all resp_ok es \<and> length es < 2 ^ 32)"
| "resp_ok (REDIS_REPLY_MAP es) = (list_all resp_ok es \<and> even (length es) \<and> length es < 2 ^ 32)"
| "resp_ok (REDIS_REPLY_SET es) = (list_all resp_ok es \<and> length es < 2 ^ 32)"
| "resp_ok (REDIS_REPLY_PUSH es) = (list_all resp_ok es \<and> length es < 2 ^ 32)"
| "resp_ok (REDIS_REPLY_VERB v s) = (length v = 3)"
| "resp_ok _ = True"

text \<open>One item at the top of the stack: the machine goes on as if the object was there at once.\<close>

definition reads :: "redisReply \<Rightarrow> bool" where
  "reads v \<longleftrightarrow> (\<forall>r t i tasks. rest_of r = resp v @ t \<and> length (rest_of r) < 2 ^ 31 \<and> rd_task r = new_task i # tasks \<longrightarrow>
     reader_loop r = reader_loop (snd (finish_item v (length (resp v)) r)))"

lemma readsD:
  "reads v \<Longrightarrow> rest_of r = resp v @ t \<Longrightarrow> length (rest_of r) < 2 ^ 31 \<Longrightarrow> rd_task r = new_task i # tasks \<Longrightarrow>
     reader_loop r = reader_loop (snd (finish_item v (length (resp v)) r))"
  unfolding reads_def by blast

lemma moveToNextTask_cong:
  "t_idx cur' = t_idx cur \<Longrightarrow> moveToNextTask obj (cur' # tasks) = moveToNextTask obj (cur # tasks)"
  by (cases tasks) (simp_all add: Let_def)

lemma loop_item:
  assumes "rd_task r = new_task i # tasks" "rest_of r = c # s" "reply_type_of c = Some type"
    "process_typed type (r\<lparr>rd_pos := rd_pos r + 1, rd_task := (new_task i)\<lparr>t_type := Some type\<rparr> # tasks\<rparr>) = (True, r')"
  shows "reader_loop r = reader_loop r'"
proof -
  have "processItem r = (True, r')" using assms by (simp add: processItem_def new_task_def)
  then show ?thesis using assms(1) by (subst reader_loop.simps) simp
qed

lemma rest_of_advance: "rest_of (r\<lparr>rd_pos := rd_pos r + n, rd_task := ts\<rparr>) = drop n (rest_of r)"
  by (simp add: rest_of_def add.commute)

lemma finish_typed:
  assumes "rd_task r = new_task i # tasks"
  shows "finish_item v n (r\<lparr>rd_pos := rd_pos r + 1, rd_task := (new_task i)\<lparr>t_type := type\<rparr> # tasks\<rparr>) =
    finish_item v (Suc n) r"
proof -
  have "moveToNextTask v ((new_task i)\<lparr>t_type := type\<rparr> # tasks) = moveToNextTask v (new_task i # tasks)"
    by (rule moveToNextTask_cong) simp
  then show ?thesis using assms by (simp add: finish_item_def split: prod.split)
qed

lemma fst_finish_item [simp]: "fst (finish_item v n r)"
  by (simp add: finish_item_def split: prod.split)

lemma reads_typed:
  assumes "reply_type_of c = Some type" "resp v = c # s"
    and "\<And>r t. rest_of r = s @ t \<Longrightarrow> length (rest_of r) < 2 ^ 31 \<Longrightarrow> process_typed type r = finish_item v (length s) r"
  shows "reads v"
  unfolding reads_def
proof (intro allI impI)
  fix r t i tasks
  assume r: "rest_of r = resp v @ t \<and> length (rest_of r) < 2 ^ 31 \<and> rd_task r = new_task i # tasks"
  let ?r = "r\<lparr>rd_pos := rd_pos r + 1, rd_task := (new_task i)\<lparr>t_type := Some type\<rparr> # tasks\<rparr>"
  have rest: "rest_of ?r = s @ t" unfolding rest_of_advance using r assms(2) by simp
  have "process_typed type ?r = finish_item v (length s) ?r"
    by (rule assms(3) [OF rest]) (use rest r assms(2) in auto)
  also have "\<dots> = finish_item v (length (resp v)) r" using finish_typed [of r i tasks] r assms(2) by simp
  finally have "process_typed type ?r = (True, snd (finish_item v (length (resp v)) r))"
    by (metis fst_finish_item prod.collapse)
  then show "reader_loop r = reader_loop (snd (finish_item v (length (resp v)) r))"
    using r assms(1,2) by (intro loop_item [of r i tasks c "s @ t" type]) simp_all
qed

lemma reads_line:
  assumes "reply_type_of c = Some type" "type \<in> {ERROR, STATUS, INTEGER, DOUBLE, NIL, BOOL}"
    "resp v = c # line @ CRLF" "CR \<notin> set line" "line_object type line = Inr v"
  shows "reads v"
proof (rule reads_typed [OF assms(1,3)])
  fix r t
  assume "rest_of r = (line @ CRLF) @ t" "length (rest_of r) < 2 ^ 31"
  then show "process_typed type r = finish_item v (length (line @ CRLF)) r"
    using find_line_found [of r line t] assms(2,4,5) by (auto simp: process_typed_def processLineItem_def)
qed

lemma reads_bulk:
  assumes "reply_type_of c = Some type" "type \<in> {STRING, VERB}"
    "resp v = c # show_int (int (length s)) @ CRLF @ s @ CRLF" "v = bulk_object type s"
    "type = VERB \<longrightarrow> 4 \<le> length s \<and> at_c s 3 = CHR '':''"
  shows "reads v"
proof (rule reads_typed [OF assms(1,3)])
  fix r t
  let ?n = "show_int (int (length s))"
  assume r: "rest_of r = (?n @ CRLF @ s @ CRLF) @ t" "length (rest_of r) < 2 ^ 31"
  then have "find_line r = Some (length ?n)"
    using find_line_found [of r ?n "s @ CRLF @ t"] show_int_no_CR by simp
  moreover have "string2ll ?n = Some (int (length s))" using r by (simp add: string2ll_iff int64_def)
  moreover have "take (length ?n) (rest_of r) = ?n" "drop (length ?n + 2) (rest_of r) = s @ CRLF @ t"
    "length (rest_of r) = length ?n + length s + 4 + length t"
    using r(1) by simp_all
  moreover have "at_c (s @ CRLF @ t) 3 = CHR '':''" if "type = VERB" using assms(5) that by (simp add: at_c_append1)
  ultimately show "process_typed type r = finish_item v (length (?n @ CRLF @ s @ CRLF)) r"
    using assms(2,4,5)
    by (auto simp: process_typed_def processBulkItem_def Let_def ac_simps numeral_2_eq_2)
qed

lemma loop_elements:
  assumes "\<forall>e \<in> set es. reads e" "es \<noteq> []"
    and "rd_task r = new_task (int (length (t_obj cont))) # cont # tasks"
    and "t_elements cont = int (length (t_obj cont) + length es)"
    and "rest_of r = concat (map resp es) @ t" "length (rest_of r) < 2 ^ 31"
  shows "reader_loop r = reader_loop (snd (finish_item (aggregate (t_type cont) (t_obj cont @ es))
    (length (concat (map resp es))) (r\<lparr>rd_task := cont # tasks\<rparr>)))"
  using assms
proof (induction es arbitrary: r cont)
  case (Cons e es)
  let ?i = "int (length (t_obj cont))" and ?cont = "cont\<lparr>t_obj := t_obj cont @ [e]\<rparr>"
  have step: "reader_loop r = reader_loop (snd (finish_item e (length (resp e)) r))"
    using Cons.prems by (intro readsD [of e r "concat (map resp es) @ t"]) simp_all
  show ?case
  proof (cases "es = []")
    case True
    have "moveToNextTask x (?cont # tasks) = moveToNextTask x (cont # tasks)" for x
      by (rule moveToNextTask_cong) simp
    then have "snd (finish_item e (length (resp e)) r) = snd (finish_item (aggregate (t_type cont) (t_obj cont @ [e]))
        (length (resp e)) (r\<lparr>rd_task := cont # tasks\<rparr>))"
      using Cons.prems(3,4) True by (simp add: finish_item_def new_task_def split: prod.split)
    with step True show ?thesis by simp
  next
    case False
    define r2 where "r2 = snd (finish_item e (length (resp e)) r)"
    have r2: "r2 = r\<lparr>rd_pos := rd_pos r + length (resp e), rd_task := new_task (?i + 1) # ?cont # tasks, rd_reply := None\<rparr>"
      using Cons.prems(3,4) False by (simp add: r2_def finish_item_def new_task_def)
    have "rest_of r2 = concat (map resp es) @ t"
    proof -
      have "rest_of r2 = drop (length (resp e)) (rest_of r)" by (simp add: r2 rest_of_def add.commute)
      then show ?thesis using Cons.prems(5) by simp
    qed
    moreover have "length (rest_of r2) < 2 ^ 31" using Cons.prems(5,6) calculation by simp
    ultimately have "reader_loop r2 = reader_loop (snd (finish_item (aggregate (t_type ?cont) (t_obj ?cont @ es))
        (length (concat (map resp es))) (r2\<lparr>rd_task := ?cont # tasks\<rparr>)))"
      using Cons.prems False by (intro Cons.IH) (simp_all add: r2 add.commute)
    moreover have "moveToNextTask x (?cont # tasks) = moveToNextTask x (cont # tasks)" for x
      by (rule moveToNextTask_cong) simp
    then have "snd (finish_item (aggregate (t_type ?cont) (t_obj ?cont @ es)) (length (concat (map resp es))) (r2\<lparr>rd_task := ?cont # tasks\<rparr>)) =
        snd (finish_item (aggregate (t_type cont) (t_obj cont @ e # es)) (length (concat (map resp (e # es)))) (r\<lparr>rd_task := cont # tasks\<rparr>))"
      by (simp add: finish_item_def r2 add.assoc split: prod.split)
    ultimately show ?thesis using step by (simp add: r2_def)
  qed
qed simp

lemma reads_aggregate:
  assumes "reply_type_of c = Some type" "type \<in> {ARRAY, MAP, SET, PUSH}" "v = aggregate (Some type) es"
    and "resp v = c # show_int n @ CRLF @ concat (map resp es)" "0 \<le> n" "n < 2 ^ 32"
    and "int (length es) = (if type = MAP then n * 2 else n)" "\<forall>e \<in> set es. reads e"
  shows "reads v"
proof (cases "es = []")
  case True
  show ?thesis
  proof (rule reads_typed [OF assms(1), of v "show_int n @ CRLF"])
    show "resp v = c # show_int n @ CRLF" using assms(4) True by simp
    fix r t
    assume r: "rest_of r = (show_int n @ CRLF) @ t" "length (rest_of r) < 2 ^ 31"
    then have "find_line r = Some (length (show_int n))"
      using find_line_found [of r "show_int n" t] show_int_no_CR by simp
    moreover have "string2ll (show_int n) = Some n" using assms(5,6) by (simp add: string2ll_iff int64_def)
    ultimately show "process_typed type r = finish_item v (length (show_int n @ CRLF)) r"
      using assms(2,3,5-7) r(1) True
      by (auto simp: process_typed_def processAggregateItem_def REDIS_READER_MAX_ARRAY_ELEMENTS_def)
  qed
next
  case False
  show ?thesis
    unfolding reads_def
  proof (intro allI impI)
    fix r t i tasks
    assume r: "rest_of r = resp v @ t \<and> length (rest_of r) < 2 ^ 31 \<and> rd_task r = new_task i # tasks"
    let ?h = "show_int n @ CRLF" and ?cont = "(new_task i)\<lparr>t_type := Some type, t_elements := int (length es)\<rparr>"
    let ?r = "r\<lparr>rd_pos := rd_pos r + 1, rd_task := (new_task i)\<lparr>t_type := Some type\<rparr> # tasks\<rparr>"
    define r2 where "r2 = r\<lparr>rd_pos := rd_pos r + 1 + length ?h, rd_task := new_task 0 # ?cont # tasks\<rparr>"
    have rest: "rest_of ?r = show_int n @ CRLF @ concat (map resp es) @ t"
      unfolding rest_of_advance using r assms(4) by simp
    then have "length (rest_of ?r) < 2 ^ 31" using r assms(4) by auto
    then have "find_line ?r = Some (length (show_int n))" by (rule find_line_found [OF rest show_int_no_CR])
    moreover have "string2ll (show_int n) = Some n" using assms(5,6) by (simp add: string2ll_iff int64_def)
    moreover have "0 < int (length es)" using False by simp
    then have "n > 0" "(if type = MAP then n * 2 else n) = int (length es)" using assms(5,7) by (auto split: if_splits)
    ultimately have "process_typed type ?r = (True, r2)"
      using assms(2,5,6) rest
      by (auto simp: process_typed_def processAggregateItem_def REDIS_READER_MAX_ARRAY_ELEMENTS_def r2_def new_task_def Let_def
          split: if_splits)
    then have "reader_loop r = reader_loop r2"
      using r assms(1,4) by (intro loop_item [of r i tasks c "?h @ concat (map resp es) @ t" type]) simp_all
    moreover have "rest_of r2 = concat (map resp es) @ t"
    proof -
      have "rest_of r2 = drop (length ?h) (rest_of ?r)" by (simp add: r2_def rest_of_def add.commute)
      then show ?thesis unfolding rest by simp
    qed
    then have "reader_loop r2 = reader_loop (snd (finish_item (aggregate (t_type ?cont) (t_obj ?cont @ es))
        (length (concat (map resp es))) (r2\<lparr>rd_task := ?cont # tasks\<rparr>)))"
      by (intro loop_elements [of es]) (use False assms(8) r in \<open>auto simp: r2_def new_task_def assms(4)\<close>)
    moreover have "moveToNextTask x (?cont # tasks) = moveToNextTask x (new_task i # tasks)" for x
      by (rule moveToNextTask_cong) simp
    then have "snd (finish_item (aggregate (t_type ?cont) (t_obj ?cont @ es)) (length (concat (map resp es))) (r2\<lparr>rd_task := ?cont # tasks\<rparr>)) =
        snd (finish_item v (length (resp v)) r)"
      using r assms(3,4) by (simp add: finish_item_def r2_def new_task_def add.assoc split: prod.split)
    ultimately show "reader_loop r = reader_loop (snd (finish_item v (length (resp v)) r))" by simp
  qed
qed

lemma reply_type_of_simps [simp]:
  "reply_type_of (CHR ''-'') = Some ERROR" "reply_type_of (CHR ''+'') = Some STATUS"
  "reply_type_of (CHR '':'') = Some INTEGER" "reply_type_of (CHR '','') = Some DOUBLE"
  "reply_type_of (CHR ''$'') = Some STRING" "reply_type_of (CHR ''*'') = Some ARRAY"
  "reply_type_of (CHR ''%'') = Some MAP" "reply_type_of (CHR ''~'') = Some SET"
  "reply_type_of (CHR ''#'') = Some BOOL" "reply_type_of (CHR ''='') = Some VERB"
  "reply_type_of (CHR ''>'') = Some PUSH"
  by (simp_all add: reply_type_of_def)

lemma reads_nil: "reads REDIS_REPLY_NIL"
proof (rule reads_typed [where c = "CHR ''$''" and type = STRING and s = "''-1'' @ CRLF"])
  fix r t
  assume "rest_of r = (''-1'' @ CRLF) @ t" "length (rest_of r) < 2 ^ 31"
  moreover from this have "find_line r = Some 2" using find_line_found [of r "''-1''" t] by simp
  moreover have "string2ll ''-1'' = Some (-1)" by (simp add: string2ll_iff int64_def show_int_def show_nat.simps [of "Suc 0"] digit_def char_of_def bit_0)
  ultimately show "process_typed STRING r = finish_item REDIS_REPLY_NIL (length (''-1'' @ CRLF)) r"
    by (simp add: process_typed_def processBulkItem_def numeral_2_eq_2)
qed simp_all

lemma reads_all: "resp_ok v \<Longrightarrow> reads v"
proof (induction v)
  case (REDIS_REPLY_STRING s)
  show ?case by (rule reads_bulk [where c = "CHR ''$''" and type = STRING and s = s]) (simp_all add: bulk_object_def)
next
  case (REDIS_REPLY_VERB v s)
  then show ?case
    by (intro reads_bulk [where c = "CHR ''=''" and type = VERB and s = "v @ '':'' @ s"])
      (simp_all add: bulk_object_def at_c_def nth_append add.commute)
next
  case (REDIS_REPLY_INTEGER i)
  then have "string2ll (show_int i) = Some i" by (simp add: string2ll_iff)
  then show ?case
    by (intro reads_line [where c = "CHR '':''" and type = INTEGER and line = "show_int i"])
      (simp_all add: show_int_no_CR line_object_def)
next
  case REDIS_REPLY_NIL
  show ?case by (rule reads_nil)
next
  case (REDIS_REPLY_STATUS s)
  then show ?case
    by (intro reads_line [where c = "CHR ''+''" and type = STATUS and line = s]) (simp_all add: line_object_def)
next
  case (REDIS_REPLY_ERROR s)
  then show ?case
    by (intro reads_line [where c = "CHR ''-''" and type = ERROR and line = s]) (simp_all add: line_object_def)
next
  case (REDIS_REPLY_DOUBLE s)
  then show ?case by (intro reads_line [where c = "CHR '',''" and type = DOUBLE and line = s]) simp_all
next
  case (REDIS_REPLY_BOOL b)
  show ?case
    by (rule reads_line [where c = "CHR ''#''" and type = BOOL and line = "if b then ''t'' else ''f''"])
      (simp_all add: line_object_def)
next
  case (REDIS_REPLY_ARRAY es)
  then show ?case
    by (intro reads_aggregate [where c = "CHR ''*''" and type = ARRAY and es = es and n = "int (length es)"])
      (auto simp: list_all_iff)
next
  case (REDIS_REPLY_MAP es)
  then show ?case
    by (intro reads_aggregate [where c = "CHR ''%''" and type = MAP and es = es and n = "int (length es div 2)"])
      (auto simp: list_all_iff elim: evenE)
next
  case (REDIS_REPLY_SET es)
  then show ?case
    by (intro reads_aggregate [where c = "CHR ''~''" and type = SET and es = es and n = "int (length es)"])
      (auto simp: list_all_iff)
next
  case (REDIS_REPLY_PUSH es)
  then show ?case
    by (intro reads_aggregate [where c = "CHR ''>''" and type = PUSH and es = es and n = "int (length es)"])
      (auto simp: list_all_iff)
qed

lemma resp_nonempty [simp]: "resp v \<noteq> []"
  by (cases v) simp_all

lemma reader_reads:
  assumes "resp_ok v" "length (resp v @ t) < 2 ^ 31"
  obtains r where "redisReaderGetReply (redisReaderFeed redisReaderCreate (resp v @ t)) = (Inr (Some v), r)"
    "rest_of r = t" "rd_err r = None" "rd_task r = []" "rd_reply r = None"
proof -
  let ?r = "redisReaderCreate\<lparr>rd_buf := resp v @ t, rd_task := [new_task (-1)]\<rparr>"
  let ?r' = "?r\<lparr>rd_pos := length (resp v), rd_task := [], rd_reply := Some v\<rparr>"
  have "reader_loop ?r = reader_loop (snd (finish_item v (length (resp v)) ?r))"
    using assms reads_all by (intro readsD [of v ?r t]) (simp_all add: rest_of_def redisReaderCreate_def)
  also have "snd (finish_item v (length (resp v)) ?r) = ?r'" by (simp add: finish_item_def redisReaderCreate_def)
  also have "reader_loop ?r' = ?r'" by (subst reader_loop.simps) simp
  finally have loop: "reader_loop ?r = ?r'" .
  let ?r2 = "if length (resp v) \<ge> 1024 then ?r'\<lparr>rd_buf := t, rd_pos := 0, rd_reply := None\<rparr> else ?r'\<lparr>rd_reply := None\<rparr>"
  have "redisReaderGetReply (redisReaderFeed redisReaderCreate (resp v @ t)) = (Inr (Some v), ?r2)"
    using loop by (simp add: redisReaderGetReply_def redisReaderFeed_def redisReaderCreate_def Let_def)
  then show ?thesis by (rule that) (simp_all add: rest_of_def redisReaderCreate_def)
qed

lemma countDigits_show: "countDigits n = length (show_nat n)"
proof (induction n rule: countDigits.induct)
  case (1 n)
  show ?case
  proof (cases "n < 10000")
    case True
    then show ?thesis
      by (subst countDigits.simps) (auto simp: show_nat.simps [of n] show_nat.simps [of "n div 10"]
          show_nat.simps [of "n div 10 div 10"] show_nat.simps [of "n div 10 div 10 div 10"])
  next
    case False
    then have "\<not> n < 10" "\<not> n div 10 < 10" "\<not> n div 10 div 10 < 10" "\<not> n div 10 div 10 div 10 < 10" by linarith+
    then have "length (show_nat n) = 4 + length (show_nat (n div 10 div 10 div 10 div 10))"
      by (simp add: show_nat.simps [of n] show_nat.simps [of "n div 10"]
          show_nat.simps [of "n div 10 div 10"] show_nat.simps [of "n div 10 div 10 div 10"])
    moreover have "n div 10 div 10 div 10 div 10 = n div 10000" by (simp add: div_mult2_eq [symmetric])
    ultimately show ?thesis using False 1 by (subst countDigits.simps) simp
  qed
qed

lemma length_resp_strings:
  "length (concat (map resp (map REDIS_REPLY_STRING argv))) = sum_list (map (\<lambda>arg. bulklen (length arg)) argv)"
  by (induction argv) (simp_all add: bulklen_def countDigits_show show_int_def)

lemma command_resp:
  assumes "length argv < 2 ^ 31" "\<forall>arg \<in> set argv. length arg < 2 ^ 32"
  defines "cmd \<equiv> resp (REDIS_REPLY_ARRAY (map REDIS_REPLY_STRING argv))"
  shows "redisFormatSdsCommandArgv argv = Some (to_int32 (int (length cmd)), cmd)"
proof -
  have "to_int32 (int (length argv)) = int (length argv)" using assms(1) by (simp add: to_int32_id)
  moreover have "concat (map (\<lambda>arg. CHR ''$'' # show_nat (length arg mod 2 ^ 32) @ CRLF @ arg @ CRLF) argv) =
      concat (map resp (map REDIS_REPLY_STRING argv))"
    using assms(2) by (induction argv) (simp_all add: show_int_def)
  moreover have "length cmd = 1 + countDigits (length argv) + 2 + sum_list (map (\<lambda>arg. bulklen (length arg)) argv)"
    unfolding cmd_def resp.simps using length_resp_strings [of argv] by (simp add: countDigits_show show_int_def)
  ultimately show ?thesis by (simp add: redisFormatSdsCommandArgv_def Let_def cmd_def)
qed

lemma length_strings_bound:
  "length argv \<le> length (concat (map resp (map REDIS_REPLY_STRING argv))) \<and>
   (\<forall>arg \<in> set argv. length arg \<le> length (concat (map resp (map REDIS_REPLY_STRING argv))))"
  by (induction argv) auto

section \<open>Properties\<close>

text \<open>
  C25: The numbers of the protocol. \<open>string2ll\<close> accepts a text exactly when it is the decimal form
  that \<open>%lld\<close> prints of a 64-bit signed integer, and returns that integer: no leading zeros, no
  plus sign, no spaces, and nothing that overflows.
\<close>

theorem string2ll_accepts:
  "string2ll s = Some i \<longleftrightarrow> s = show_int i \<and> - (2 ^ 63) \<le> i \<and> i < 2 ^ 63"
  by (simp add: string2ll_iff int64_def)

text \<open>
  C9: A command that is formatted for Redis is read back as it was. For every list of arguments,
  with any bytes in them, \<open>redisFormatSdsCommandArgv\<close> passes its assertion on the length, and the
  reader of the same library, given the text followed by other data \<open>t\<close>, returns the array of
  exactly these arguments and stops in front of \<open>t\<close>.
\<close>

theorem command_read_back:
  assumes "length (resp (REDIS_REPLY_ARRAY (map REDIS_REPLY_STRING argv))) + length t < 2 ^ 31"
  shows "\<exists>cmd r. redisFormatSdsCommandArgv argv = Some (int (length cmd), cmd) \<and>
    redisReaderGetReply (redisReaderFeed redisReaderCreate (cmd @ t)) =
      (Inr (Some (REDIS_REPLY_ARRAY (map REDIS_REPLY_STRING argv))), r) \<and>
    rest_of r = t \<and> rd_err r = None"
proof -
  let ?v = "REDIS_REPLY_ARRAY (map REDIS_REPLY_STRING argv)"
  have l: "length argv < 2 ^ 31" "\<forall>arg \<in> set argv. length arg < 2 ^ 32"
    using assms length_strings_bound [of argv] by fastforce+
  then have "redisFormatSdsCommandArgv argv = Some (int (length (resp ?v)), resp ?v)"
    using assms command_resp [of argv] to_int32_id [of "int (length (resp ?v))"] by simp
  moreover have "resp_ok ?v" using l(1) by (simp add: list_all_iff)
  then obtain r where "redisReaderGetReply (redisReaderFeed redisReaderCreate (resp ?v @ t)) = (Inr (Some ?v), r)"
    "rest_of r = t" "rd_err r = None"
    using assms by (elim reader_reads [of ?v t]) simp_all
  ultimately show ?thesis by blast
qed

theorem command_read_back_witness:
  "\<exists>cmd r. redisFormatSdsCommandArgv [''SET'', ''k'', [CR, LF, CHR 0x00]] = Some (int (length cmd), cmd) \<and>
    redisReaderGetReply (redisReaderFeed redisReaderCreate (cmd @ ''+OK'')) =
      (Inr (Some (REDIS_REPLY_ARRAY (map REDIS_REPLY_STRING [''SET'', ''k'', [CR, LF, CHR 0x00]]))), r) \<and>
    rest_of r = ''+OK'' \<and> rd_err r = None"
  by (rule command_read_back) (simp add: show_int_def show_nat.simps)

end
