(* ===== verification/Pool.thy ===== *)
theory Pool
  imports Http Reader
begin

text \<open>
  Redis contexts and the connection pool. Of hiredis (\<open>hiredis/async.c\<close>) the theory has the
  registration of a command with its callback; of \<open>pool.c\<close> everything but \<open>pool_free_context\<close>,
  which runs callbacks and stands with the commands.

  \<open>pool_get_context\<close> advances \<open>cur\<close> once before its loop and once in it. The lemmas show that the
  loop ends, that it returns a connected slot or finds none among the slots it visits, and which
  slot it never visits.
\<close>

section \<open>Commands on a context\<close>

definition new_context :: "bool \<Rightarrow> redis_context" where
  "new_context attach =
     \<lparr>ac_err = None, ac_data = attach, ac_connected = False, ac_disconnecting = False, ac_freeing = False,
      ac_in_callback = False, ac_subscribed = False, ac_monitoring = False,
      ac_replies = [], ac_invalid = [], ac_channels = [], ac_patterns = []\<rparr>"

text \<open>The dictionaries of subscriptions; \<open>dictReplace\<close> keeps the place of an entry.\<close>

fun dict_find :: "(string \<times> redis_callback) list \<Rightarrow> string \<Rightarrow> redis_callback option" where
  "dict_find [] k = None"
| "dict_find ((k', cb) # d) k = (if k' = k then Some cb else dict_find d k)"

fun dict_replace :: "(string \<times> redis_callback) list \<Rightarrow> string \<Rightarrow> redis_callback \<Rightarrow> (string \<times> redis_callback) list" where
  "dict_replace [] k cb = [(k, cb)]"
| "dict_replace ((k', cb') # d) k cb = (if k' = k then (k, cb) # d else (k', cb') # dict_replace d k cb)"

fun subscribe_args :: "(string \<times> redis_callback) list \<Rightarrow> redis_callback \<Rightarrow> string list \<Rightarrow>
    (string \<times> redis_callback) list" where
  "subscribe_args d cb [] = d"
| "subscribe_args d cb (name # names) =
     (let cb = (case dict_find d name of
          Some existcb \<Rightarrow> cb\<lparr>cb_pending_subs := cb_pending_subs existcb + 1\<rparr> | None \<Rightarrow> cb)
      in subscribe_args (dict_replace d name cb) cb names)"

text \<open>The name of a command as \<open>__redisAsyncCommand\<close> compares it, in the text with its CR LF.\<close>

definition is_command :: "string \<Rightarrow> string \<Rightarrow> bool" where
  "is_command arg name = (strncasecmp (arg @ CRLF) (name @ CRLF) (length name + 2) = 0)"

definition redisAsyncCommandArgv :: "ptr \<Rightarrow> redis_callback_fn \<Rightarrow> string list \<Rightarrow> world \<Rightarrow> world option" where
  "redisAsyncCommandArgv ap fn argv w =
     do { ac \<leftarrow> w_acs w ap;
       if ac_disconnecting ac \<or> ac_freeing ac then Some w
       else case argv of
         [] \<Rightarrow> None
       | arg # args \<Rightarrow>
           (let cb = \<lparr>cb_fn = fn, cb_pending_subs = 1\<rparr>;
                pvariant = (tolower (hd_c (arg @ CRLF)) = CHR ''p'');
                cname = (if pvariant then drop 1 arg else arg);
                send = (\<lambda>ac. Some (emit (Redis ap argv) (put_ac ap ac w))) in
            if args \<noteq> [] \<and> is_command cname ''subscribe''
            then send ((if pvariant then ac\<lparr>ac_patterns := subscribe_args (ac_patterns ac) cb args\<rparr>
                        else ac\<lparr>ac_channels := subscribe_args (ac_channels ac) cb args\<rparr>)\<lparr>ac_subscribed := True\<rparr>)
            else if is_command cname ''unsubscribe''
            then (if ac_subscribed ac then send ac else Some w)
            else if is_command cname ''monitor''
            then send (ac\<lparr>ac_monitoring := True, ac_replies := ac_replies ac @ [cb]\<rparr>)
            else if ac_subscribed ac then send (ac\<lparr>ac_invalid := ac_invalid ac @ [cb]\<rparr>)
            else send (ac\<lparr>ac_replies := ac_replies ac @ [cb]\<rparr>)) }"

section \<open>The pool\<close>

definition pool_new :: "int \<Rightarrow> pool" where
  "pool_new n = \<lparr>pool_ac = replicate (nat n) None, pool_count = n, pool_cur = 0\<rparr>"

definition pool_schedule_reconnect :: "world \<Rightarrow> world" where
  "pool_schedule_reconnect w = event_add Pool_can_connect w"

text \<open>The first free slot takes the context; with none free it stays outside the pool.\<close>

fun fill_slot :: "ptr \<Rightarrow> ptr option list \<Rightarrow> ptr option list" where
  "fill_slot ap [] = []"
| "fill_slot ap (None # acs) = Some ap # acs"
| "fill_slot ap (Some x # acs) = Some x # fill_slot ap acs"

fun clear_slot :: "ptr \<Rightarrow> ptr option list \<Rightarrow> ptr option list" where
  "clear_slot ap [] = []"
| "clear_slot ap (x # acs) = (if x = Some ap then None # acs else x # clear_slot ap acs)"

definition pool_on_connect :: "ptr \<Rightarrow> bool \<Rightarrow> world \<Rightarrow> world option" where
  "pool_on_connect ap ok w =
     do { ac \<leftarrow> w_acs w ap;
       if \<not> ac_data ac then Some w
       else if \<not> ok then Some (pool_schedule_reconnect w)
       else Some (w\<lparr>w_pool := (w_pool w)\<lparr>pool_ac := fill_slot ap (pool_ac (w_pool w))\<rparr>\<rparr>) }"

text \<open>\<open>err\<close> is the error message of the context when the status is not \<open>REDIS_OK\<close>.\<close>

definition pool_on_disconnect :: "ptr \<Rightarrow> string option \<Rightarrow> world \<Rightarrow> world option" where
  "pool_on_disconnect ap err w =
     do { ac \<leftarrow> w_acs w ap;
       if \<not> ac_data ac then Some w
       else let w = (case err of
                Some e \<Rightarrow> (let msg = ''Error disconnecting: '' @ cstr e in slog WEBDIS_ERROR msg (length msg) w)
              | None \<Rightarrow> w);
            w = w\<lparr>w_pool := (w_pool w)\<lparr>pool_ac := clear_slot ap (pool_ac (w_pool w))\<rparr>\<rparr>
         in Some (pool_schedule_reconnect w) }"

definition pool_log_auth :: "log_level \<Rightarrow> string \<Rightarrow> string \<Rightarrow> world \<Rightarrow> world" where
  "pool_log_auth level prefix str w =
     (let msg = prefix @ cstr str in slog level msg (length msg) w)"

definition pool_on_auth_complete :: "redisReply option \<Rightarrow> world \<Rightarrow> world" where
  "pool_on_auth_complete reply w =
     (case reply of
        None \<Rightarrow> w
      | Some r \<Rightarrow>
          if w_auth_logged w \<noteq> 0 then w
          else let w = (case r of
                   REDIS_REPLY_ERROR str \<Rightarrow> pool_log_auth WEBDIS_ERROR ''Authentication failed: '' str w
                 | REDIS_REPLY_STATUS str \<Rightarrow> pool_log_auth WEBDIS_INFO ''Authentication succeeded: '' str w
                 | _ \<Rightarrow> w)
            in w\<lparr>w_auth_logged := w_auth_logged w + 1\<rparr>)"

text \<open>
  \<open>pool_connect\<close>: the next answer of the system says whether the connection could be started.
  After an error the context is freed and a reconnection scheduled, whether it was to be attached
  to the pool or not. The password and the database are the first commands of a connection.
\<close>

definition pool_connect :: "int \<Rightarrow> bool \<Rightarrow> world \<Rightarrow> (ptr option \<times> world) option" where
  "pool_connect db_num attach w =
     (let cfg = w_cfg w;
          (ap, w) = fresh w;
          w = emit (Connect ap (redis_host cfg) (if hd_c (redis_host cfg) = CHR ''/'' then 0 else redis_port cfg)) w;
          answer = (case w_connects w of [] \<Rightarrow> None | e # _ \<Rightarrow> e);
          w = w\<lparr>w_connects := tl (w_connects w)\<rparr> in
      case answer of
        Some e \<Rightarrow>
          (let msg = ''Connection failed: '' @ cstr e
           in Some (None, pool_schedule_reconnect (slog WEBDIS_ERROR msg (length msg) w)))
      | None \<Rightarrow>
          do { let w = put_ac ap (new_context attach) w;
            w \<leftarrow> (case redis_auth cfg of
                   None \<Rightarrow> Some w
                 | Some a \<Rightarrow>
                     if use_legacy_auth a then redisAsyncCommandArgv ap Auth_complete [''AUTH'', password a] w
                     else do { u \<leftarrow> username a;
                       redisAsyncCommandArgv ap Auth_complete [''AUTH'', u, password a] w });
            w \<leftarrow> (if db_num \<noteq> 0 then redisAsyncCommandArgv ap No_callback [''SELECT'', show_int db_num] w
                  else Some w);
            Some (Some ap, w) })"

definition pool_can_connect :: "world \<Rightarrow> world option" where
  "pool_can_connect w = do { (_, w) \<leftarrow> pool_connect (database (w_cfg w)) True w; Some w }"

text \<open>
  The loop of \<open>pool_get_context\<close>. The recursion is on a bound for the number of rounds; \<^term>\<open>None\<close>
  is a loop that does not end within it. A slot is read through the array, inside its bounds.
\<close>

fun pool_scan :: "nat \<Rightarrow> pool \<Rightarrow> int \<Rightarrow> (ptr option \<times> pool) option" where
  "pool_scan 0 p orig = None"
| "pool_scan (Suc n) p orig =
     (let p = p\<lparr>pool_cur := (pool_cur p + 1) mod pool_count p\<rparr> in
      case pool_ac p ! nat (pool_cur p) of
        Some ap \<Rightarrow> Some (Some ap, p)
      | None \<Rightarrow> if pool_cur p \<noteq> orig then pool_scan n p orig else Some (None, p))"

text \<open>
  \<open>pool_get_context\<close>; an empty pool makes the remainder a division by zero. As many rounds as
  there are slots are enough.
\<close>

definition pool_get_context :: "pool \<Rightarrow> (ptr option \<times> pool) option" where
  "pool_get_context p =
     (if pool_count p \<le> 0 then None
      else pool_scan (nat (pool_count p)) (p\<lparr>pool_cur := pool_cur p + 1\<rparr>) (pool_cur p))"

definition get_context :: "world \<Rightarrow> (ptr option \<times> world) option" where
  "get_context w = do { (ap, p) \<leftarrow> pool_get_context (w_pool w); Some (ap, w\<lparr>w_pool := p\<rparr>) }"

section \<open>Lemmas: slots\<close>

lemma length_fill_slot [simp]: "length (fill_slot ap acs) = length acs"
  by (induction ap acs rule: fill_slot.induct) auto

lemma length_clear_slot [simp]: "length (clear_slot ap acs) = length acs"
  by (induction acs) auto

text \<open>The contexts in the slots.\<close>

definition in_slots :: "ptr option list \<Rightarrow> ptr set" where
  "in_slots acs = {ap. Some ap \<in> set acs}"

lemma in_slots_Cons [simp]: "in_slots [] = {}" "in_slots (None # acs) = in_slots acs"
  "in_slots (Some x # acs) = insert x (in_slots acs)"
  by (auto simp: in_slots_def)

lemma in_slots_fill: "in_slots (fill_slot ap acs) = (if None \<in> set acs then insert ap (in_slots acs) else in_slots acs)"
  by (induction ap acs rule: fill_slot.induct) (simp_all add: insert_commute)

definition slots_distinct :: "ptr option list \<Rightarrow> bool" where
  "slots_distinct acs = distinct (filter (\<lambda>x. x \<noteq> None) acs)"

lemma slots_distinct_Cons:
  "slots_distinct (x # acs) \<longleftrightarrow> slots_distinct acs \<and> (x = None \<or> x \<notin> set acs)"
  by (auto simp: slots_distinct_def)

lemma slots_distinct_fill:
  "slots_distinct acs \<Longrightarrow> ap \<notin> in_slots acs \<Longrightarrow> slots_distinct (fill_slot ap acs)"
proof (induction ap acs rule: fill_slot.induct)
  case (3 ap x acs)
  then have "x \<noteq> ap" "ap \<notin> in_slots acs" "x \<notin> in_slots acs" "slots_distinct acs"
    by (auto simp: in_slots_def slots_distinct_Cons)
  then have "x \<notin> in_slots (fill_slot ap acs)" by (simp add: in_slots_fill)
  with 3 \<open>ap \<notin> in_slots acs\<close> \<open>slots_distinct acs\<close> show ?case
    by (simp add: slots_distinct_Cons in_slots_def)
qed (auto simp: slots_distinct_Cons in_slots_def)

lemma in_slots_clear: "slots_distinct acs \<Longrightarrow> in_slots (clear_slot ap acs) = in_slots acs - {ap}"
  by (induction acs) (auto simp: in_slots_def slots_distinct_Cons)

lemma slots_distinct_clear: "slots_distinct acs \<Longrightarrow> slots_distinct (clear_slot ap acs)"
proof (induction acs)
  case (Cons x acs)
  then have "slots_distinct acs" by (simp add: slots_distinct_Cons)
  with Cons in_slots_clear [of acs ap] show ?case
    by (cases x) (auto simp: slots_distinct_Cons in_slots_def)
qed (simp add: slots_distinct_def)

section \<open>Lemmas: taking a context\<close>

definition pool_wf :: "pool \<Rightarrow> bool" where
  "pool_wf p = (0 < pool_count p \<and> int (length (pool_ac p)) = pool_count p \<and>
     0 \<le> pool_cur p \<and> pool_cur p < pool_count p)"

definition slot :: "pool \<Rightarrow> int \<Rightarrow> ptr option" where
  "slot p i = pool_ac p ! nat (i mod pool_count p)"

text \<open>The offset of the last slot the loop visits.\<close>

definition last_offset :: "pool \<Rightarrow> nat" where
  "last_offset p = max 2 (nat (pool_count p))"

lemma slots_of_cur [simp]:
  "slot (p\<lparr>pool_cur := i\<rparr>) = slot p" "last_offset (p\<lparr>pool_cur := i\<rparr>) = last_offset p"
  by (auto simp: slot_def last_offset_def)

lemma pool_scan_find:
  assumes "0 < pool_count p" "0 \<le> orig" "orig < pool_count p"
    and "pool_cur p mod pool_count p = (orig + int j) mod pool_count p"
    and "1 \<le> j" "j < last_offset p" "last_offset p \<le> n + j"
  shows "pool_scan n p orig =
    (case find (\<lambda>k. slot p (orig + int k) \<noteq> None) [Suc j..<Suc (last_offset p)] of
       Some k \<Rightarrow> Some (slot p (orig + int k), p\<lparr>pool_cur := (orig + int k) mod pool_count p\<rparr>)
     | None \<Rightarrow> Some (None, p\<lparr>pool_cur := orig\<rparr>))"
  using assms
proof (induction n arbitrary: p j)
  case 0
  then show ?case by simp
next
  case (Suc n)
  let ?m = "pool_count p" and ?c = "(orig + int (Suc j)) mod pool_count p"
  have "(pool_cur p + 1) mod ?m = (pool_cur p mod ?m + 1) mod ?m" by (simp add: mod_add_left_eq)
  also have "\<dots> = ((orig + int j) mod ?m + 1) mod ?m" by (simp only: Suc.prems(4))
  also have "\<dots> = (orig + int j + 1) mod ?m" by (rule mod_add_left_eq)
  also have "\<dots> = ?c" by (simp add: ac_simps)
  finally have cur: "(pool_cur p + 1) mod ?m = ?c" .
  have upt: "[Suc j..<Suc (last_offset p)] = Suc j # [Suc (Suc j)..<Suc (last_offset p)]"
    using Suc.prems(6) by (simp add: upt_conv_Cons)
  have slot: "pool_ac p ! nat ?c = slot p (orig + int (Suc j))" by (simp add: slot_def)
  show ?case
  proof (cases "slot p (orig + int (Suc j))")
    case (Some ap)
    then show ?thesis unfolding upt using cur slot by simp
  next
    case None
    have orig: "?c = orig \<longleftrightarrow> Suc j = last_offset p"
    proof -
      have "?c = orig \<longleftrightarrow> (orig + int (Suc j)) mod ?m = orig mod ?m" using Suc.prems(2,3) by simp
      also have "\<dots> \<longleftrightarrow> ?m dvd int (Suc j)" by (simp add: mod_eq_dvd_iff)
      also have "\<dots> \<longleftrightarrow> Suc j = last_offset p"
      proof (cases "?m = 1")
        case True
        then show ?thesis using Suc.prems(5,6) by (simp add: last_offset_def)
      next
        case False
        then have "last_offset p = nat ?m" using Suc.prems(1) by (simp add: last_offset_def)
        moreover from this have "int (Suc j) \<le> ?m" using Suc.prems(6) by linarith
        moreover have "?m dvd int (Suc j) \<longleftrightarrow> ?m = int (Suc j)"
          using \<open>int (Suc j) \<le> ?m\<close> zdvd_imp_le [of ?m "int (Suc j)"] by auto
        ultimately show ?thesis using Suc.prems(1) by auto
      qed
      finally show ?thesis .
    qed
    show ?thesis
    proof (cases "?c = orig")
      case True
      then have "[Suc (Suc j)..<Suc (last_offset p)] = []" using orig by simp
      then show ?thesis unfolding upt using None cur slot True by simp
    next
      case False
      let ?p = "p\<lparr>pool_cur := ?c\<rparr>"
      have "Suc j < last_offset p" using False orig Suc.prems(6) by simp
      then have "pool_scan n ?p orig =
          (case find (\<lambda>k. slot p (orig + int k) \<noteq> None) [Suc (Suc j)..<Suc (last_offset p)] of
             Some k \<Rightarrow> Some (slot p (orig + int k), ?p\<lparr>pool_cur := (orig + int k) mod pool_count p\<rparr>)
           | None \<Rightarrow> Some (None, ?p\<lparr>pool_cur := orig\<rparr>))"
        using Suc.IH [of ?p "Suc j"] Suc.prems by (simp del: of_nat_Suc upt_Suc cong: option.case_cong)
      then show ?thesis unfolding upt using None cur slot False by (simp del: of_nat_Suc upt_Suc cong: option.case_cong)
    qed
  qed
qed

text \<open>
  The slots \<open>cur + 2\<close>, \<open>cur + 3\<close>, up to \<open>cur + count\<close> are visited in this order and the first
  connected one is returned; the slot \<open>cur + 1\<close> is not visited, unless it is the only one.
\<close>

lemma pool_get_context_find:
  assumes "pool_wf p"
  shows "pool_get_context p =
    (case find (\<lambda>k. slot p (pool_cur p + int k) \<noteq> None) [2..<Suc (last_offset p)] of
       Some k \<Rightarrow> Some (slot p (pool_cur p + int k), p\<lparr>pool_cur := (pool_cur p + int k) mod pool_count p\<rparr>)
     | None \<Rightarrow> Some (None, p))"
proof -
  let ?p = "p\<lparr>pool_cur := pool_cur p + 1\<rparr>"
  have "pool_scan (nat (pool_count p)) ?p (pool_cur p) =
      (case find (\<lambda>k. slot ?p (pool_cur p + int k) \<noteq> None) [Suc 1..<Suc (last_offset ?p)] of
         Some k \<Rightarrow> Some (slot ?p (pool_cur p + int k), ?p\<lparr>pool_cur := (pool_cur p + int k) mod pool_count ?p\<rparr>)
       | None \<Rightarrow> Some (None, ?p\<lparr>pool_cur := pool_cur p\<rparr>))"
    using assms by (intro pool_scan_find) (auto simp: pool_wf_def last_offset_def)
  then show ?thesis
    using assms by (simp add: pool_get_context_def pool_wf_def numeral_2_eq_2 del: upt_Suc split: option.split)
qed

lemma pool_get_context_wf:
  assumes "pool_wf p" "pool_get_context p = Some (r, p')"
  shows "pool_wf p'" "pool_ac p' = pool_ac p" "\<And>ap. r = Some ap \<Longrightarrow> ap \<in> in_slots (pool_ac p)"
proof -
  have pos: "0 < pool_count p" "nat (i mod pool_count p) < length (pool_ac p)" for i
    using assms(1) pos_mod_bound [of "pool_count p" i] by (auto simp: pool_wf_def nat_less_iff)
  show "pool_wf p'" "pool_ac p' = pool_ac p"
    using assms pos(1) unfolding pool_get_context_find [OF assms(1)]
    by (auto simp: pool_wf_def split: option.splits)
  show "ap \<in> in_slots (pool_ac p)" if "r = Some ap" for ap
    using assms(2) that nth_mem [OF pos(2)] unfolding pool_get_context_find [OF assms(1)]
    by (auto simp: slot_def in_slots_def split: option.splits) (metis nth_mem pos(2))+
qed

text \<open>The slots at the offsets 2 to the last one are all slots but the one at offset 1.\<close>

lemma visited_slots:
  assumes "pool_wf p"
  shows "(\<forall>k. 2 \<le> k \<and> k \<le> last_offset p \<longrightarrow> slot p (pool_cur p + int k) = None) \<longleftrightarrow>
    (\<forall>i < length (pool_ac p). int i \<noteq> (pool_cur p + 1) mod pool_count p \<or> pool_count p = 1 \<longrightarrow> pool_ac p ! i = None)"
    (is "?L \<longleftrightarrow> ?R")
proof
  let ?m = "pool_count p" and ?c = "pool_cur p"
  have wf: "0 < ?m" "int (length (pool_ac p)) = ?m" "0 \<le> ?c" "?c < ?m" using assms by (simp_all add: pool_wf_def)
  show ?R if L: ?L
  proof (intro allI impI)
    fix i assume i: "i < length (pool_ac p)" "int i \<noteq> (?c + 1) mod ?m \<or> ?m = 1"
    define k where "k = (if int i > ?c then nat (int i - ?c) else if ?m = 1 then 2 else nat (int i - ?c + ?m))"
    have "(?c + 1) mod ?m = (if ?c + 1 = ?m then 0 else ?c + 1)" using wf by simp
    then have "(?c + int k) mod ?m = int i" "2 \<le> k \<and> k \<le> last_offset p"
      using i wf by (auto simp: k_def last_offset_def mod_pos_pos_trivial split: if_splits)
    with L have "slot p (?c + int k) = None" by blast
    with \<open>(?c + int k) mod ?m = int i\<close> show "pool_ac p ! i = None" by (simp add: slot_def)
  qed
  show ?L if R: ?R
  proof (intro allI impI)
    fix k assume k: "2 \<le> k \<and> k \<le> last_offset p"
    define i where "i = nat ((?c + int k) mod ?m)"
    have i: "int i = (?c + int k) mod ?m" "i < length (pool_ac p)"
      using wf(1,2) pos_mod_bound [of ?m "?c + int k"] by (simp_all add: i_def nat_less_iff)
    have "int i \<noteq> (?c + 1) mod ?m" if "?m \<noteq> 1"
    proof
      assume "int i = (?c + 1) mod ?m"
      then have "?m dvd int k - 1" using i(1) by (simp add: mod_eq_dvd_iff algebra_simps)
      moreover have "0 < int k - 1" "int k - 1 < ?m" using k that wf(1) by (auto simp: last_offset_def)
      ultimately show False using zdvd_imp_le by fastforce
    qed
    with R i(2) have "pool_ac p ! i = None" by blast
    then show "slot p (?c + int k) = None" by (simp add: slot_def i_def)
  qed
qed

section \<open>Properties\<close>

text \<open>
  C31: on a pool with at least one slot \<open>pool_get_context\<close> returns, keeps the slots and leaves its
  position inside the array. The context it returns is in a slot. It returns none exactly if all
  slots it visits are empty, which are all slots but the one after the current position.
\<close>

theorem pool_get_context_returns:
  assumes "pool_wf p"
  shows "\<exists>r p'. pool_get_context p = Some (r, p') \<and> pool_wf p' \<and> pool_ac p' = pool_ac p \<and>
    (\<forall>ap. r = Some ap \<longrightarrow> Some ap \<in> set (pool_ac p)) \<and>
    (r = None \<longleftrightarrow> (\<forall>i < length (pool_ac p).
       int i \<noteq> (pool_cur p + 1) mod pool_count p \<or> pool_count p = 1 \<longrightarrow> pool_ac p ! i = None))"
proof -
  let ?m = "pool_count p" and ?c = "pool_cur p"
  let ?find = "find (\<lambda>k. slot p (?c + int k) \<noteq> None) [2..<Suc (last_offset p)]"
  have wf: "0 < ?m" "int (length (pool_ac p)) = ?m" "0 \<le> ?c" "?c < ?m" using assms by (simp_all add: pool_wf_def)
  obtain r p' where get: "pool_get_context p = Some (r, p')"
    unfolding pool_get_context_find [OF assms] by (cases ?find) simp_all
  have "?find = Some k \<Longrightarrow> slot p (?c + int k) \<noteq> None" for k
    by (simp only: find_Some_iff) blast
  then have "r = None \<longleftrightarrow> ?find = None"
    using get unfolding pool_get_context_find [OF assms] by (cases ?find) (auto simp del: upt_Suc)
  also have "\<dots> \<longleftrightarrow> (\<forall>k. 2 \<le> k \<and> k \<le> last_offset p \<longrightarrow> slot p (?c + int k) = None)"
    by (auto simp: find_None_iff less_Suc_eq_le simp del: upt_Suc)
  also have "\<dots> \<longleftrightarrow> (\<forall>i < length (pool_ac p). int i \<noteq> (?c + 1) mod ?m \<or> ?m = 1 \<longrightarrow> pool_ac p ! i = None)"
    by (rule visited_slots [OF assms])
  finally show ?thesis
    using get pool_get_context_wf [OF assms get] by (auto simp: in_slots_def)
qed

theorem pool_get_context_returns_witness:
  "\<exists>r p'. pool_get_context \<lparr>pool_ac = [None, None, Some 7], pool_count = 3, pool_cur = 0\<rparr> = Some (r, p') \<and> r \<noteq> None"
proof -
  let ?p = "\<lparr>pool_ac = [None, None, Some 7], pool_count = 3, pool_cur = 0\<rparr> :: pool"
  have "pool_wf ?p" by (simp add: pool_wf_def)
  from pool_get_context_returns [OF this] obtain r p' where *: "pool_get_context ?p = Some (r, p')"
      "r = None \<longleftrightarrow> (\<forall>i < 3. int i \<noteq> 1 \<longrightarrow> [None, None, Some (7 :: ptr)] ! i = None)"
    by (auto simp: numeral_3_eq_3)
  have "\<exists>i < 3. int i \<noteq> 1 \<and> [None, None, Some (7 :: ptr)] ! i \<noteq> None"
    by (rule exI [of _ 2]) simp
  with * show ?thesis by auto
qed



end
