(* ===== verification/Ws_Frame.thy ===== *)
theory Ws_Frame
  imports Http
begin

text \<open>
  WebSocket frames, the part of \<open>websocket.c\<close> that reads and writes them: \<open>ws_peek_data\<close>,
  \<open>ws_msg_add\<close>, \<open>ws_frame_and_send_response\<close>, and the registration of the two events of a
  WebSocket client. The lemmas show that a masked frame of a client is read back whole, however
  it is cut, that masking twice is the identity, and that a frame of the server reads back as its
  payload except for one length, 65536, which the code prints in 16 bits.
\<close>

section \<open>Types of frames\<close>

definition WS_TEXT_FRAME :: nat where "WS_TEXT_FRAME = 0"
definition WS_BINARY_FRAME :: nat where "WS_BINARY_FRAME = 1"
definition WS_CONNECTION_CLOSE :: nat where "WS_CONNECTION_CLOSE = 8"
definition WS_PING :: nat where "WS_PING = 9"
definition WS_PONG :: nat where "WS_PONG = 10"

datatype ws_state = WS_ERROR | WS_READING | WS_MSG_COMPLETE

record ws_msg =
  msg_type :: nat
  msg_payload :: string
  msg_total_sz :: nat

section \<open>Bytes\<close>

text \<open>Big-endian numbers, what \<open>htons\<close>, \<open>ntohs\<close>, \<open>webdis_htonll\<close> and \<open>webdis_ntohll\<close> move.\<close>

fun be_bytes :: "nat \<Rightarrow> nat \<Rightarrow> string" where
  "be_bytes 0 n = []"
| "be_bytes (Suc k) n = be_bytes k (n div 256) @ [char_of (n mod 256)]"

definition be_value :: "string \<Rightarrow> nat" where
  "be_value s = foldl (\<lambda>n c. n * 256 + code c) 0 s"

definition xor_char :: "char \<Rightarrow> char \<Rightarrow> char" where
  "xor_char a b = char_of (code a XOR code b)"

section \<open>Events\<close>

text \<open>\<open>event_base_once\<close> may fail; the flag is set before it is called.\<close>

definition ws_schedule_write :: "ptr \<Rightarrow> world \<Rightarrow> (int \<times> world) option" where
  "ws_schedule_write wp w =
     do { ws \<leftarrow> w_wss w wp;
       if \<not> ws_scheduled_write ws
       then do { let w = put_ws wp (ws\<lparr>ws_scheduled_write := True\<rparr>) w;
         cp \<leftarrow> ws_http_client ws; c \<leftarrow> w_clients w cp;
         let (ok, w) = sys_alloc w;
         if ok then Some (0, event_add (Ws_can_write wp) w) else Some (-1, w) }
       else Some (0, w) }"

definition ws_monitor_input :: "ptr \<Rightarrow> world \<Rightarrow> (int \<times> world) option" where
  "ws_monitor_input wp w =
     do { ws \<leftarrow> w_wss w wp;
       if \<not> ws_scheduled_read ws
       then do { let w = put_ws wp (ws\<lparr>ws_scheduled_read := True\<rparr>) w;
         cp \<leftarrow> ws_http_client ws; c \<leftarrow> w_clients w cp;
         let (ok, w) = sys_alloc w;
         if ok then Some (0, event_add (Ws_can_read wp) w) else Some (-1, w) }
       else Some (0, w) }"

section \<open>Writing frames\<close>

definition ws_frame :: "nat \<Rightarrow> string \<Rightarrow> string" where
  "ws_frame frame_type p =
     (let sz = length p in
      char_of (0x80 OR frame_type) #
      (if sz \<le> 125 then char_of sz # p
       else if sz \<le> 65536 then char_of (126::nat) # be_bytes 2 (sz mod 2 ^ 16) @ p
       else char_of (127::nat) # be_bytes 8 (sz mod 2 ^ 64) @ p))"

definition ws_frame_and_send_response :: "ptr \<Rightarrow> nat \<Rightarrow> string \<Rightarrow> world \<Rightarrow> (int \<times> world) option" where
  "ws_frame_and_send_response wp frame_type p w =
     (let (ok, w) = sys_alloc w in
      if \<not> ok then Some (-1, w)
      else do { ws \<leftarrow> w_wss w wp;
        let (ok, w) = sys_alloc w;
        if \<not> ok
        then do { cp \<leftarrow> ws_http_client ws; c \<leftarrow> w_clients w cp;
          Some (-1, slog WEBDIS_ERROR ''Failed response allocation in ws_frame_and_send_response'' 0 w) }
        else ws_schedule_write wp (put_ws wp (ws\<lparr>ws_wbuf := ws_wbuf ws @ ws_frame frame_type p\<rparr>) w) })"

section \<open>Reading frames\<close>

definition unmask :: "string \<Rightarrow> string \<Rightarrow> string" where
  "unmask mkey p = map (\<lambda>i. xor_char (p ! i) (at_c mkey (i mod 4))) [0..<length p]"

definition ws_msg_new :: "nat \<Rightarrow> ws_msg" where
  "ws_msg_new frame_type = \<lparr>msg_type = frame_type, msg_payload = [], msg_total_sz = 0\<rparr>"

definition ws_msg_add :: "ws_msg \<Rightarrow> string \<Rightarrow> string \<Rightarrow> world \<Rightarrow> int \<times> ws_msg \<times> world" where
  "ws_msg_add m p mkey w =
     (let (ok, w) = sys_alloc w in
      if \<not> ok then (-1, m\<lparr>msg_payload := []\<rparr>, w)
      else (0, m\<lparr>msg_payload := msg_payload m @ unmask mkey p\<rparr>, w))"

text \<open>
  The header of a frame in a buffer of at least 2 bytes that has its mask bit set: the offset of
  the payload, its length and the mask, or \<^term>\<open>None\<close> when there are not enough bytes.
\<close>

definition ws_header :: "string \<Rightarrow> (nat \<times> nat \<times> string) option" where
  "ws_header frame =
     (let sz = length frame;
          len = code (frame ! 1) mod 128;
          min_sz = 6 + (if len = 126 then 2 else if len = 127 then 8 else 0) in
      if sz < min_sz then None
      else if len \<le> 125 then Some (6, len, slice frame 2 4)
      else if len = 126 then Some (8, be_value (slice frame 2 2), slice frame 4 4)
      else Some (14, be_value (slice frame 2 8), slice frame 10 4))"

definition close_no_mask :: string where
  "close_no_mask = char_of (3::nat) # char_of (0xEA::nat) #
     ''Received a frame without a mask from the client (violates RFC6455, 5.1. Overview).''"

text \<open>
  \<open>ws_peek_data\<close>: whether the read buffer starts with a complete message; with \<open>extract\<close> the
  message is taken out of the buffer. The three allocations may fail.
\<close>

definition ws_peek_data :: "ptr \<Rightarrow> bool \<Rightarrow> world \<Rightarrow> (ws_state \<times> ws_msg option \<times> world) option" where
  "ws_peek_data wp extract w =
     do { ws \<leftarrow> w_wss w wp;
       let frame = ws_rbuf ws;
       if length frame < 2 then Some (WS_READING, None, w)
       else do { let (ok, w) = sys_alloc w;
         if \<not> ok then Some (WS_ERROR, None, w)
         else do {
           let fin_bit_set = (code (frame ! 0) \<ge> 128);
           let frame_type = code (frame ! 0) mod 16;
           let has_mask = (code (frame ! 1) \<ge> 128);
           if \<not> has_mask
           then do {
             (_, w) \<leftarrow> ws_frame_and_send_response wp WS_CONNECTION_CLOSE close_no_mask
               (put_ws wp (ws\<lparr>ws_close_after_events := True\<rparr>) w);
             Some (WS_ERROR, None, w) }
           else case ws_header frame of
             None \<Rightarrow> Some (WS_READING, None, w)
           | Some (off, len, mkey) \<Rightarrow>
               if len > length frame - off then Some (WS_READING, None, w)
               else if \<not> extract
               then Some (if fin_bit_set then WS_MSG_COMPLETE else WS_READING, None, w)
               else (let (ok, w) = sys_alloc w in
                 if \<not> ok then Some (WS_ERROR, None, w)
                 else let (add_ret, msg, w) = ws_msg_add (ws_msg_new frame_type) (slice frame off len) mkey w in
                   if add_ret < 0 then Some (WS_ERROR, Some msg, w)
                   else Some (if fin_bit_set then WS_MSG_COMPLETE else WS_READING,
                     Some (msg\<lparr>msg_total_sz := msg_total_sz msg + (len + off)\<rparr>),
                     put_ws wp (ws\<lparr>ws_rbuf := drop (len + off) frame\<rparr>) w)) } } }"

section \<open>Lemmas: bytes\<close>

lemma length_be_bytes [simp]: "length (be_bytes k n) = k"
  by (induction k arbitrary: n) simp_all

lemma be_value_snoc: "be_value (s @ [c]) = be_value s * 256 + code c"
  by (simp add: be_value_def)

lemma be_value_bytes: "be_value (be_bytes k n) = n mod 256 ^ k"
proof (induction k arbitrary: n)
  case 0
  then show ?case by (simp add: be_value_def)
next
  case (Suc k)
  have "n mod (256 * 256 ^ k) = 256 * (n div 256 mod 256 ^ k) + n mod 256"
    by (rule mod_mult2_eq)
  moreover have "code (char_of (n mod 256)) = n mod 256" by (rule code_char_of) simp
  ultimately show ?case by (simp only: be_bytes.simps be_value_snoc Suc power_Suc)
qed

lemma xor_lt_256: "code a XOR code b < 256"
proof -
  have "take_bit 8 (code a XOR code b) = code a XOR code b"
    by (simp add: take_bit_xor take_bit_nat_eq_self)
  then show ?thesis using take_bit_nat_less_exp [of 8 "code a XOR code b"] by simp
qed

lemma xor_char_cancel [simp]: "xor_char (xor_char a b) b = a"
proof -
  have "(code a XOR code b) XOR code b = code a" by (auto simp: bit_eq_iff bit_simps)
  then show ?thesis by (simp add: xor_char_def xor_lt_256)
qed

lemma length_unmask [simp]: "length (unmask m p) = length p"
  by (simp add: unmask_def)

lemma unmask_unmask [simp]: "unmask m (unmask m p) = p"
  by (rule nth_equalityI) (simp_all add: unmask_def)

section \<open>Lemmas: frames of a client\<close>

text \<open>
  A frame as RFC 6455 has a client build it: final bit, type, length in 7, 16 or 64 bits, the
  mask, and the masked payload.
\<close>

definition client_header :: "bool \<Rightarrow> nat \<Rightarrow> string \<Rightarrow> nat \<Rightarrow> string" where
  "client_header fin type mkey sz =
     char_of ((if fin then 128 else 0) + type) #
     (if sz \<le> 125 then [char_of (128 + sz)]
      else if sz < 65536 then char_of (254::nat) # be_bytes 2 sz
      else char_of (255::nat) # be_bytes 8 sz) @ mkey"

definition client_frame :: "bool \<Rightarrow> nat \<Rightarrow> string \<Rightarrow> string \<Rightarrow> string" where
  "client_frame fin type mkey p = client_header fin type mkey (length p) @ unmask mkey p"

definition header_size :: "nat \<Rightarrow> nat" where
  "header_size sz = (if sz \<le> 125 then 6 else if sz < 65536 then 8 else 14)"

lemma length_client_header:
  "length mkey = 4 \<Longrightarrow> length (client_header fin type mkey sz) = header_size sz"
  by (simp add: client_header_def header_size_def)

lemma length_client_frame:
  "length mkey = 4 \<Longrightarrow> length (client_frame fin type mkey p) = header_size (length p) + length p"
  by (simp add: client_frame_def length_client_header)

lemma slice_mid: "length a = i \<Longrightarrow> length b = n \<Longrightarrow> slice (a @ b @ c) i n = b"
  by (simp add: slice_eq_take_drop)

text \<open>The header is read from its bytes, whatever follows.\<close>

lemma ws_header_client:
  assumes "length mkey = 4" "sz < 2 ^ 63"
  shows "ws_header (client_header fin type mkey sz @ x) = Some (header_size sz, sz, mkey)"
proof -
  let ?b0 = "char_of ((if fin then 128 else 0) + type) :: char"
  consider "sz \<le> 125" | "125 < sz" "sz < 65536" | "65536 \<le> sz" by linarith
  then show ?thesis
  proof cases
    case 1
    have "client_header fin type mkey sz @ x = [?b0, char_of (128 + sz)] @ mkey @ x"
      using 1 by (simp add: client_header_def)
    moreover have "slice ([?b0, char_of (128 + sz)] @ mkey @ x) 2 4 = mkey"
      using assms by (intro slice_mid) simp_all
    ultimately show ?thesis
      using 1 assms by (simp add: ws_header_def header_size_def Let_def)
  next
    case 2
    have "client_header fin type mkey sz @ x = [?b0, char_of (254::nat)] @ be_bytes 2 sz @ mkey @ x"
      using 2 by (simp add: client_header_def)
    moreover have "slice ([?b0, char_of (254::nat)] @ be_bytes 2 sz @ mkey @ x) 2 2 = be_bytes 2 sz"
      by (intro slice_mid) simp_all
    moreover have "slice (([?b0, char_of (254::nat)] @ be_bytes 2 sz) @ mkey @ x) 4 4 = mkey"
      using assms by (intro slice_mid) simp_all
    ultimately show ?thesis
      using 2 assms be_value_bytes [of 2 sz] by (simp add: ws_header_def header_size_def Let_def)
  next
    case 3
    have "client_header fin type mkey sz @ x = [?b0, char_of (255::nat)] @ be_bytes 8 sz @ mkey @ x"
      using 3 by (simp add: client_header_def)
    moreover have "slice ([?b0, char_of (255::nat)] @ be_bytes 8 sz @ mkey @ x) 2 8 = be_bytes 8 sz"
      by (intro slice_mid) simp_all
    moreover have "slice (([?b0, char_of (255::nat)] @ be_bytes 8 sz) @ mkey @ x) 10 4 = mkey"
      using assms by (intro slice_mid) simp_all
    ultimately show ?thesis
      using 3 assms be_value_bytes [of 8 sz] by (simp add: ws_header_def header_size_def Let_def)
  qed
qed

lemma client_header_bits:
  assumes "type < 16"
  shows "code ((client_header fin type mkey sz @ x) ! 0) = (if fin then 128 else 0) + type"
    "code ((client_header fin type mkey sz @ x) ! Suc 0) \<ge> 128"
    "code ((client_header fin type mkey sz @ x) ! Suc 0) mod 128 =
      (if sz \<le> 125 then sz else if sz < 65536 then 126 else 127)"
  using assms by (simp_all add: client_header_def)

lemma mod_128: "type < 16 \<Longrightarrow> (128 + type) mod 16 = type" for type :: nat
  using mod_mult_self3 [of 8 16 type] by simp

lemma drop_exact: "length a = n \<Longrightarrow> drop n (a @ b) = b"
  by simp

lemma slice_prefix: "length a = n \<Longrightarrow> slice (b @ a @ c) (length b) n = a"
  by (rule slice_mid) simp_all

lemma payload_of_frame:
  assumes "length mkey = 4"
  shows "slice (client_header fin type mkey (length p) @ unmask mkey p @ rest) (header_size (length p)) (length p)
    = unmask mkey p"
  unfolding length_client_header [OF assms, of fin type, symmetric] by (rule slice_prefix) simp

text \<open>A complete frame at the front of the read buffer is taken out, unmasked, and nothing else.\<close>

lemma ws_peek_complete:
  assumes "w_wss w wp = Some ws" "ws_rbuf ws = client_frame fin type mkey p @ rest"
    and "length mkey = 4" "type < 16" "length p < 2 ^ 63" "w_allocs w = []"
  shows "ws_peek_data wp False w = Some (if fin then WS_MSG_COMPLETE else WS_READING, None, w)"
    "ws_peek_data wp True w =
    Some (if fin then WS_MSG_COMPLETE else WS_READING,
      Some \<lparr>msg_type = type, msg_payload = p, msg_total_sz = length p + header_size (length p)\<rparr>,
      put_ws wp (ws\<lparr>ws_rbuf := rest\<rparr>) w)"
proof -
  let ?x = "unmask mkey p @ rest"
  let ?f = "client_header fin type mkey (length p) @ ?x"
  have buf: "ws_rbuf ws = ?f" using assms(2) by (simp add: client_frame_def)
  have len: "length ?f = header_size (length p) + length p + length rest" "2 \<le> header_size (length p)"
    using assms(3) by (simp_all add: length_client_header header_size_def)
  note bits = client_header_bits [OF assms(4), of fin mkey "length p" ?x]
  note header = ws_header_client [OF assms(3,5), of fin type ?x]
  have "drop (length p + header_size (length p)) ((client_header fin type mkey (length p) @ unmask mkey p) @ rest) = rest"
    using assms(3) by (intro drop_exact) (simp add: length_client_header)
  then have drop: "drop (length p + header_size (length p)) ?f = rest" by simp
  note facts = assms(1,3,4,6) buf header bits mod_128 [OF assms(4)] payload_of_frame [OF assms(3), of fin type p rest] drop
  have sz: "\<not> length ?f < 2" "\<not> length ?f - header_size (length p) < length p" using len by simp_all
  show "ws_peek_data wp False w = Some (if fin then WS_MSG_COMPLETE else WS_READING, None, w)"
    using facts sz by (simp add: ws_peek_data_def del: length_append)
  show "ws_peek_data wp True w =
    Some (if fin then WS_MSG_COMPLETE else WS_READING,
      Some \<lparr>msg_type = type, msg_payload = p, msg_total_sz = length p + header_size (length p)\<rparr>,
      put_ws wp (ws\<lparr>ws_rbuf := rest\<rparr>) w)"
    using facts sz by (simp add: ws_peek_data_def ws_msg_add_def ws_msg_new_def del: length_append)
qed

text \<open>A frame that has not arrived in full is left in the buffer.\<close>

lemma ws_header_short:
  assumes "length mkey = 4" "type < 16" "2 \<le> k" "k < header_size sz"
  shows "ws_header (take k (client_header fin type mkey sz @ x)) = None"
proof -
  let ?f = "client_header fin type mkey sz @ x"
  have "take k ?f ! 1 = ?f ! Suc 0" using assms(3) nth_take [of 1 k ?f] by (simp del: take_append)
  moreover have "length (take k ?f) = k"
    using assms(1,4) length_client_header [of mkey fin type sz] by simp
  ultimately show ?thesis
    using client_header_bits(3) [OF assms(2), of fin mkey sz x] assms(4)
    by (auto simp: ws_header_def Let_def header_size_def)
qed

lemma ws_peek_partial:
  assumes "w_wss w wp = Some ws" "ws_rbuf ws = take k (client_frame fin type mkey p)"
    and "k < length (client_frame fin type mkey p)"
    and "length mkey = 4" "type < 16" "length p < 2 ^ 63" "w_allocs w = []"
  shows "ws_peek_data wp e w = Some (WS_READING, None, w)"
proof (cases "k < 2")
  case True
  then have "length (ws_rbuf ws) < 2" using assms(2) by simp
  then show ?thesis using assms(1) by (simp add: ws_peek_data_def)
next
  case False
  let ?h = "client_header fin type mkey (length p)" and ?x = "unmask mkey p"
  have buf: "ws_rbuf ws = take k (?h @ ?x)" using assms(2) by (simp add: client_frame_def)
  have len: "length (ws_rbuf ws) = k" using assms(2,3) by simp
  have nth: "ws_rbuf ws ! Suc 0 = (?h @ ?x) ! Suc 0" using False buf by (simp del: take_append)
  have "ws_header (ws_rbuf ws) = None \<or>
      (\<exists>mkey'. ws_header (ws_rbuf ws) = Some (header_size (length p), length p, mkey')) \<and>
      k - header_size (length p) < length p"
  proof (cases "k < header_size (length p)")
    case True
    then show ?thesis using ws_header_short [OF assms(4,5)] False buf by (simp del: take_append)
  next
    case False
    then have "ws_rbuf ws = ?h @ take (k - header_size (length p)) ?x"
      using buf assms(4) by (simp add: length_client_header)
    moreover have "k - header_size (length p) < length p"
      using assms(3,4) False by (simp add: length_client_frame)
    ultimately show ?thesis using ws_header_client [OF assms(4,6), of fin type] by simp
  qed
  then show ?thesis
    using False assms(1,7) len nth client_header_bits(2) [OF assms(5), of fin mkey "length p" ?x]
    by (auto simp: ws_peek_data_def)
qed

section \<open>Lemmas: frames of the server\<close>

text \<open>How a client reads a frame without a mask: the type, the payload and the rest.\<close>

definition read_server_frame :: "string \<Rightarrow> (nat \<times> string \<times> string) option" where
  "read_server_frame s =
     (if length s < 2 \<or> code (s ! 0) < 128 then None
      else let type = code (s ! 0) mod 16; n = code (s ! 1);
               (off, len) = (if n \<le> 125 then (2, n) else if n = 126 then (4, be_value (slice s 2 2))
                             else (10, be_value (slice s 2 8))) in
        if n > 127 \<or> length s < off + len then None
        else Some (type, slice s off len, drop (off + len) s))"

lemma or_128: "type < 16 \<Longrightarrow> (128 :: nat) OR type = 128 + type"
proof -
  assume "type < 16"
  then have "\<not> bit type 7" by (simp add: bit_iff_odd)
  then have "type AND 2 ^ 7 = 0" by (simp only: and_exp_eq_0_iff_not_bit not_False_eq_True)
  then have "type + 2 ^ 7 = type OR 2 ^ 7" by (rule disjunctive_add_eq_or)
  then show ?thesis by (simp add: or.commute add.commute)
qed

text \<open>The three forms of the length.\<close>

lemma read_server_shape:
  assumes a: "code a = 128 + type" "type < 16"
    and b: "code b \<le> 125 \<and> ext = [] \<and> code b = length p \<or>
      code b = 126 \<and> length ext = 2 \<and> be_value ext = length p \<or>
      code b = 127 \<and> length ext = 8 \<and> be_value ext = length p"
  shows "read_server_frame ([a, b] @ ext @ p @ rest) = Some (type, p, rest)"
proof -
  let ?s = "[a, b] @ ext @ p @ rest"
  note mod = mod_128 [OF a(2)]
  have ext: "slice ?s 2 (length ext) = ext" by (rule slice_mid) simp_all
  have "slice (([a, b] @ ext) @ p @ rest) (2 + length ext) (length p) = p" by (rule slice_mid) simp_all
  then have payload: "slice ?s (2 + length ext) (length p) = p" by simp
  have "drop (2 + length ext + length p) (([a, b] @ ext @ p) @ rest) = rest" by (rule drop_exact) simp
  then have rest: "drop (2 + length ext + length p) ?s = rest" by simp
  have bytes: "?s ! 0 = a" "?s ! 1 = b" "length ?s = 2 + length ext + length p + length rest" by simp_all
  from b consider "code b \<le> 125" "ext = []" "code b = length p"
    | "code b = 126" "length ext = 2" "be_value ext = length p"
    | "code b = 127" "length ext = 8" "be_value ext = length p" by blast
  then show ?thesis
    using ext payload rest
    unfolding read_server_frame_def bytes Let_def a(1) mod
    by cases (simp_all add: bytes del: append.simps)
qed

lemma read_server_ws_frame:
  assumes "type < 16" "length p \<noteq> 65536" "length p < 2 ^ 63"
  shows "read_server_frame (ws_frame type p @ rest) = Some (type, p, rest)"
proof -
  let ?a = "char_of (0x80 OR type) :: char"
  have a: "code ?a = 128 + type" using assms(1) by (simp add: or_128)
  consider "length p \<le> 125" | "125 < length p" "length p < 65536" | "65536 < length p"
    using assms(2) by linarith
  then show ?thesis
  proof cases
    case 1
    then have "ws_frame type p @ rest = [?a, char_of (length p)] @ [] @ p @ rest"
      by (simp add: ws_frame_def)
    with 1 show ?thesis using read_server_shape [OF a assms(1), of "char_of (length p)" "[]" p rest] by simp
  next
    case 2
    then have "ws_frame type p @ rest = [?a, char_of (126::nat)] @ be_bytes 2 (length p) @ p @ rest"
      by (simp add: ws_frame_def)
    with 2 show ?thesis
      using read_server_shape [OF a assms(1), of "char_of (126::nat)" "be_bytes 2 (length p)" p rest]
      by (simp add: be_value_bytes)
  next
    case 3
    then have "ws_frame type p @ rest = [?a, char_of (127::nat)] @ be_bytes 8 (length p) @ p @ rest"
      using assms(3) by (simp add: ws_frame_def)
    with 3 assms(3) show ?thesis
      using read_server_shape [OF a assms(1), of "char_of (127::nat)" "be_bytes 8 (length p)" p rest]
      by (simp add: be_value_bytes)
  qed
qed

text \<open>A payload of 65536 bytes is announced as empty: the client reads it as the next frames.\<close>

lemma read_server_ws_frame_65536:
  assumes "type < 16" "length p = 65536"
  shows "read_server_frame (ws_frame type p @ rest) = Some (type, [], p @ rest)"
proof -
  let ?a = "char_of (0x80 OR type) :: char"
  have a: "code ?a = 128 + type" using assms(1) by (simp add: or_128)
  have "ws_frame type p @ rest = [?a, char_of (126::nat)] @ be_bytes 2 0 @ [] @ p @ rest"
    using assms(2) by (simp add: ws_frame_def)
  then show ?thesis
    using read_server_shape [OF a assms(1), of "char_of (126::nat)" "be_bytes 2 0" "[]" "p @ rest"]
    by (simp add: be_value_bytes)
qed

section \<open>Properties\<close>

text \<open>A WebSocket client whose HTTP client is at the given address.\<close>

definition plain_ws :: "ptr \<Rightarrow> string \<Rightarrow> ws_client" where
  "plain_ws cp buf = \<lparr>ws_http_client = Some cp, ws_scheduled_read = False, ws_scheduled_write = False,
     ws_rbuf = buf, ws_wbuf = [], ws_ac = None, ws_cmd = None, ws_close_after_events = False,
     ws_ran_subscribe = False\<rparr>"



text \<open>
  C35: a frame that \<open>ws_frame_and_send_response\<close> builds reads back, by the rules of RFC 6455 for
  unmasked frames, as its type and payload, for every payload whose length is not 65536.
\<close>

theorem ws_frame_round_trip:
  assumes "type < 16" "length p \<noteq> 65536" "length p < 2 ^ 63"
  shows "read_server_frame (ws_frame type p @ rest) = Some (type, p, rest)"
  using assms by (rule read_server_ws_frame)

theorem ws_frame_round_trip_witness:
  "read_server_frame (ws_frame 1 ''hi'' @ ''next'') = Some (1, ''hi'', ''next'')"
  by (rule ws_frame_round_trip) simp_all

text \<open>
  C38: a payload of exactly 65536 bytes is framed with a 16-bit length of 0, so the reader gets an
  empty message and takes the payload for the next frames.
\<close>

theorem ws_frame_65536:
  assumes "type < 16" "length p = 65536"
  shows "read_server_frame (ws_frame type p @ rest) = Some (type, [], p @ rest)"
  using assms by (rule read_server_ws_frame_65536)

theorem ws_frame_65536_witness:
  "read_server_frame (ws_frame 1 (replicate 65536 CR)) = Some (1, [], replicate 65536 CR)"
  using ws_frame_65536 [of 1 "replicate 65536 CR" "[]"] by (simp only: length_replicate append_Nil2 simp_thms)

end
