(* ===== verification/Cmd.thy ===== *)
theory Cmd
  imports Acl Pool Ws_Frame
begin

text \<open>
  Commands, \<open>cmd.c\<close>: the life of a \<open>struct cmd\<close>, the reading of a URL (\<open>cmd_run\<close>), the choice of
  the output format, and the two functions that end a command: \<open>cmd_free\<close> and
  \<open>format_send_error\<close> (\<open>formats/common.c\<close>).

  Freeing a command may disconnect its own Redis connection; hiredis then runs the callbacks that
  are left with a null reply, and the formatting functions answer a null reply with
  \<open>format_send_error\<close>, which may free another command. The model keeps this loop: the functions
  that free take the function that disconnects as an argument, and \<open>disconnect_depth\<close> ties the
  knot up to a depth. Running out of depth is \<^term>\<open>None\<close>.
\<close>

section \<open>Kinds of commands\<close>

definition cmd_is_subscribe_args :: "cmd \<Rightarrow> bool" where
  "cmd_is_subscribe_args cmd =
     (cmd_count cmd \<ge> 2 \<and>
      ((length (cmd_arg cmd 0) = 9 \<and> strncasecmp (cmd_arg cmd 0) ''subscribe'' 9 = 0) \<or>
       (length (cmd_arg cmd 0) = 10 \<and> strncasecmp (cmd_arg cmd 0) ''psubscribe'' 10 = 0)))"

definition cmd_is_subscribe :: "cmd \<Rightarrow> bool" where
  "cmd_is_subscribe cmd = (cmd_pub_sub_client cmd \<noteq> None \<or> cmd_is_subscribe_args cmd)"

definition cmd_is_unsubscribe_args :: "cmd \<Rightarrow> bool" where
  "cmd_is_unsubscribe_args cmd =
     (cmd_count cmd \<ge> 2 \<and>
      ((length (cmd_arg cmd 0) = 11 \<and> strncasecmp (cmd_arg cmd 0) ''unsubscribe'' 11 = 0) \<or>
       (length (cmd_arg cmd 0) = 12 \<and> strncasecmp (cmd_arg cmd 0) ''punsubscribe'' 12 = 0)))"

section \<open>Ending a command\<close>

text \<open>
  \<open>cmd_free\<close>, with the function that disconnects. The command is detached from its client if it is
  the client's last one; that reads the client through the command's pointer. \<open>cmd->w\<close> is read
  only for a command with a connection.
\<close>

definition detach_last_cmd :: "ptr \<Rightarrow> cmd \<Rightarrow> world \<Rightarrow> world option" where
  "detach_last_cmd p c w =
     (case cmd_http_client c of
        None \<Rightarrow> Some w
      | Some cp \<Rightarrow> do { client \<leftarrow> w_clients w cp;
          Some (if hc_last_cmd client = Some p then put_client cp (client\<lparr>hc_last_cmd := None\<rparr>) w else w) })"

definition free_cmd :: "ptr \<Rightarrow> world \<Rightarrow> world option" where
  "free_cmd p w = do { c \<leftarrow> w_cmds w p; Some (w\<lparr>w_cmds := (w_cmds w)(p := None)\<rparr>) }"

definition cmd_free_with :: "(ptr \<Rightarrow> world \<Rightarrow> world option) \<Rightarrow> ptr option \<Rightarrow> world \<Rightarrow> world option" where
  "cmd_free_with disconnect cmdp w =
     (case cmdp of
        None \<Rightarrow> Some w
      | Some p \<Rightarrow> do {
          c \<leftarrow> w_cmds w p;
          w \<leftarrow> detach_last_cmd p c w;
          w \<leftarrow> (case cmd_ac c of
                 None \<Rightarrow> Some w
               | Some ap \<Rightarrow>
                   if \<not> cmd_w c then None
                   else if cmd_database c \<noteq> database (w_cfg w) \<or> cmd_is_subscribe c then disconnect ap w
                   else Some w);
          free_cmd p w })"

definition format_send_error_with ::
    "(ptr \<Rightarrow> world \<Rightarrow> world option) \<Rightarrow> ptr \<Rightarrow> int \<Rightarrow> string \<Rightarrow> world \<Rightarrow> world option" where
  "format_send_error_with disconnect p status msg w =
     do { c \<leftarrow> w_cmds w p;
       w \<leftarrow> (if \<not> cmd_is_websocket c \<and> cmd_pub_sub_client c = None
             then do { let (resp, w) = http_response_init (cmd_w c) status (Some msg) w;
               rp \<leftarrow> resp;
               w \<leftarrow> upd_resp rp (\<lambda>r.
                 http_response_set_keep_alive (r\<lparr>r_http_version := cmd_http_version c\<rparr>) (cmd_keep_alive c)) w;
               http_response_write rp (cmd_fd c) w }
             else if cmd_is_websocket c
             then do { cp \<leftarrow> cmd_http_client c; client \<leftarrow> w_clients w cp; wp \<leftarrow> hc_ws client; ws \<leftarrow> w_wss w wp;
               if ws_close_after_events ws then Some w
               else do { (_, w) \<leftarrow> ws_frame_and_send_response wp WS_BINARY_FRAME (cstr msg) w; Some w } }
             else Some w);
       if cmd_is_websocket c then Some w
       else case cmd_pub_sub_client c of
         Some cp \<Rightarrow> upd_client cp (\<lambda>client. client\<lparr>hc_reused_cmd := None\<rparr>) w
       | None \<Rightarrow> cmd_free_with disconnect (Some p) w }"

section \<open>Disconnecting from Redis\<close>

text \<open>
  \<open>__redisRunCallback\<close> with a null reply. Every formatting function answers a null reply with
  \<open>format_send_error\<close>, and \<open>pool_on_auth_complete\<close> ignores it.
\<close>

definition null_reply_with ::
    "(ptr \<Rightarrow> world \<Rightarrow> world option) \<Rightarrow> redis_callback_fn \<Rightarrow> world \<Rightarrow> world option" where
  "null_reply_with disconnect fn w =
     (case fn of
        Format f p \<Rightarrow> format_send_error_with disconnect p 503 ''Service Unavailable'' w
      | Auth_complete \<Rightarrow> Some (pool_on_auth_complete None w)
      | No_callback \<Rightarrow> Some w)"

definition set_in_callback :: "ptr \<Rightarrow> bool \<Rightarrow> world \<Rightarrow> world option" where
  "set_in_callback ap b w = do { ac \<leftarrow> w_acs w ap; Some (put_ac ap (ac\<lparr>ac_in_callback := b\<rparr>) w) }"

definition run_null_with ::
    "(ptr \<Rightarrow> world \<Rightarrow> world option) \<Rightarrow> ptr \<Rightarrow> redis_callback \<Rightarrow> world \<Rightarrow> world option" where
  "run_null_with disconnect ap cb w =
     (if cb_fn cb = No_callback then Some w
      else do { w \<leftarrow> set_in_callback ap True w;
        w \<leftarrow> null_reply_with disconnect (cb_fn cb) w;
        set_in_callback ap False w })"

text \<open>
  The loops of \<open>__redisAsyncFree\<close>: \<open>__redisShiftCallback\<close> takes a callback out of its list before it
  runs. No command enters a list meanwhile, since the context is disconnecting or freeing.
\<close>

fun run_replies_with ::
    "(ptr \<Rightarrow> world \<Rightarrow> world option) \<Rightarrow> ptr \<Rightarrow> redis_callback list \<Rightarrow> world \<Rightarrow> world option" where
  "run_replies_with disconnect ap [] w = Some w"
| "run_replies_with disconnect ap (cb # cbs) w =
     do { ac \<leftarrow> w_acs w ap;
       w \<leftarrow> run_null_with disconnect ap cb (put_ac ap (ac\<lparr>ac_replies := cbs\<rparr>) w);
       run_replies_with disconnect ap cbs w }"

fun run_invalid_with ::
    "(ptr \<Rightarrow> world \<Rightarrow> world option) \<Rightarrow> ptr \<Rightarrow> redis_callback list \<Rightarrow> world \<Rightarrow> world option" where
  "run_invalid_with disconnect ap [] w = Some w"
| "run_invalid_with disconnect ap (cb # cbs) w =
     do { ac \<leftarrow> w_acs w ap;
       w \<leftarrow> run_null_with disconnect ap cb (put_ac ap (ac\<lparr>ac_invalid := cbs\<rparr>) w);
       run_invalid_with disconnect ap cbs w }"

fun run_dict_with ::
    "(ptr \<Rightarrow> world \<Rightarrow> world option) \<Rightarrow> ptr \<Rightarrow> (string \<times> redis_callback) list \<Rightarrow> world \<Rightarrow> world option" where
  "run_dict_with disconnect ap [] w = Some w"
| "run_dict_with disconnect ap ((name, cb) # d) w =
     do { w \<leftarrow> run_null_with disconnect ap cb w; run_dict_with disconnect ap d w }"

text \<open>
  \<open>__redisAsyncFree\<close>. The dictionaries are visited in the order of their entries; hiredis visits
  them by hash value.
\<close>

definition async_free_with :: "(ptr \<Rightarrow> world \<Rightarrow> world option) \<Rightarrow> ptr \<Rightarrow> world \<Rightarrow> world option" where
  "async_free_with disconnect ap w =
     do { ac \<leftarrow> w_acs w ap;
       w \<leftarrow> run_replies_with disconnect ap (ac_replies ac) w;
       ac \<leftarrow> w_acs w ap;
       w \<leftarrow> run_invalid_with disconnect ap (ac_invalid ac) w;
       ac \<leftarrow> w_acs w ap;
       w \<leftarrow> run_dict_with disconnect ap (ac_channels ac) w;
       ac \<leftarrow> w_acs w ap;
       w \<leftarrow> run_dict_with disconnect ap (ac_patterns ac) w;
       ac \<leftarrow> w_acs w ap;
       w \<leftarrow> (if ac_connected ac
             then pool_on_disconnect ap (if ac_freeing ac then None else ac_err ac) w else Some w);
       Some (w\<lparr>w_acs := (w_acs w)(ap := None)\<rparr>) }"

text \<open>\<open>__redisAsyncDisconnect\<close>: without an error it asserts that no callback is pending.\<close>

definition async_disconnect_with :: "(ptr \<Rightarrow> world \<Rightarrow> world option) \<Rightarrow> ptr \<Rightarrow> world \<Rightarrow> world option" where
  "async_disconnect_with disconnect ap w =
     do { ac \<leftarrow> w_acs w ap;
       (case ac_err ac of
          None \<Rightarrow> if ac_replies ac \<noteq> [] then None else async_free_with disconnect ap w
        | Some _ \<Rightarrow> async_free_with disconnect ap (put_ac ap (ac\<lparr>ac_disconnecting := True\<rparr>) w)) }"

definition disconnect_with :: "(ptr \<Rightarrow> world \<Rightarrow> world option) \<Rightarrow> ptr \<Rightarrow> world \<Rightarrow> world option" where
  "disconnect_with disconnect ap w =
     do { ac \<leftarrow> w_acs w ap;
       let w = put_ac ap (ac\<lparr>ac_disconnecting := True\<rparr>) w;
       if \<not> ac_in_callback ac \<and> ac_replies ac = [] then async_disconnect_with disconnect ap w
       else Some w }"

primrec disconnect_depth :: "nat \<Rightarrow> ptr \<Rightarrow> world \<Rightarrow> world option" where
  "disconnect_depth 0 = (\<lambda>ap w. None)"
| "disconnect_depth (Suc n) = disconnect_with (disconnect_depth n)"

definition CALLBACK_DEPTH :: nat where
  "CALLBACK_DEPTH = 8"

definition redisAsyncDisconnect :: "ptr \<Rightarrow> world \<Rightarrow> world option" where
  "redisAsyncDisconnect = disconnect_depth CALLBACK_DEPTH"

definition pool_free_context :: "ptr option \<Rightarrow> world \<Rightarrow> world option" where
  "pool_free_context ac w = (case ac of None \<Rightarrow> Some w | Some ap \<Rightarrow> redisAsyncDisconnect ap w)"

definition cmd_free :: "ptr option \<Rightarrow> world \<Rightarrow> world option" where
  "cmd_free = cmd_free_with (\<lambda>ap. pool_free_context (Some ap))"

definition format_send_error :: "ptr \<Rightarrow> int \<Rightarrow> string \<Rightarrow> world \<Rightarrow> world option" where
  "format_send_error = format_send_error_with (\<lambda>ap. pool_free_context (Some ap))"

section \<open>New commands\<close>

definition empty_cmd :: "ptr option \<Rightarrow> nat \<Rightarrow> cmd" where
  "empty_cmd client count =
     \<lparr>cmd_fd = 0, cmd_count = int count, cmd_argv = replicate count [], cmd_mime = None, cmd_mime_free = False,
      cmd_filename = None, cmd_if_none_match = None, cmd_jsonp = None, cmd_separator = None,
      cmd_keep_alive = False, cmd_started_responding = False, cmd_is_websocket = False,
      cmd_http_version = 0, cmd_database = 0, cmd_http_client = client, cmd_pub_sub_client = None,
      cmd_ac = None, cmd_w = False\<rparr>"

definition cmd_new :: "ptr option \<Rightarrow> nat \<Rightarrow> world \<Rightarrow> (ptr \<times> world) option" where
  "cmd_new client count w =
     do { let (p, w) = fresh w;
       let w = put_cmd p (empty_cmd client count) w;
       w \<leftarrow> (case client of None \<Rightarrow> Some w | Some cp \<Rightarrow> upd_client cp (\<lambda>c. c\<lparr>hc_last_cmd := Some p\<rparr>) w);
       Some (p, w) }"

text \<open>
  The loop of \<open>decode_uri\<close> over the bytes \<open>i\<close> to \<open>e\<close> of a buffer. After a percent sign it looks at two
  more bytes of the buffer, which may lie behind \<open>e\<close>.
\<close>

function decode_from :: "string \<Rightarrow> nat \<Rightarrow> nat \<Rightarrow> bool \<Rightarrow> string" where
  "decode_from uri i e in_query =
     (if e \<le> i then []
      else let c = at_c uri i in
        if c = CHR ''?'' then c # decode_from uri (i + 1) e True
        else if c = CHR ''+'' \<and> in_query then CHR '' '' # decode_from uri (i + 1) e in_query
        else if c = CHR ''%'' \<and> isxdigit (at_c uri (i + 1)) \<and> isxdigit (at_c uri (i + 2))
        then char_of (xval (at_c uri (i + 1)) * 16 + xval (at_c uri (i + 2))) # decode_from uri (i + 3) e in_query
        else c # decode_from uri (i + 1) e in_query)"
  by pat_completeness auto
termination by (relation "measure (\<lambda>(uri, i, e, in_query). e - i)") auto

declare decode_from.simps [simp del]

definition decode_uri :: "string \<Rightarrow> nat \<Rightarrow> nat \<Rightarrow> bool \<Rightarrow> string" where
  "decode_uri uri p len always_decode_plus = decode_from uri p (p + len) always_decode_plus"

text \<open>The loop of \<open>cmd_setup\<close> over the headers; the value of \<open>Connection\<close> is read if it is there or not.\<close>

fun setup_headers :: "http_header list \<Rightarrow> cmd \<Rightarrow> cmd option" where
  "setup_headers [] cmd = Some cmd"
| "setup_headers (h # hs) cmd =
     (if strcasecmp (h_key h) ''If-None-Match'' = 0
      then setup_headers hs (cmd\<lparr>cmd_if_none_match := Some (case h_val h of Some v \<Rightarrow> v | None \<Rightarrow> [])\<rparr>)
      else if strcasecmp (h_key h) ''Connection'' = 0
      then do { v \<leftarrow> h_val h;
        setup_headers hs (if strcasecmp v ''Keep-Alive'' = 0 then cmd\<lparr>cmd_keep_alive := True\<rparr> else cmd) }
      else setup_headers hs cmd)"

definition cmd_setup :: "ptr \<Rightarrow> ptr \<Rightarrow> world \<Rightarrow> world option" where
  "cmd_setup p cp w =
     do { cmd \<leftarrow> w_cmds w p; client \<leftarrow> w_clients w cp;
       (if hc_header_count client > length (hc_headers client) then None else Some ());
       cmd \<leftarrow> setup_headers (hc_headers client)
         (cmd\<lparr>cmd_keep_alive := hc_keep_alive client, cmd_w := True\<rparr>);
       let cmd = (case hc_type client of Some t \<Rightarrow> cmd\<lparr>cmd_mime := Some t, cmd_mime_free := True\<rparr> | None \<Rightarrow> cmd);
       let cmd = (case hc_jsonp client of Some s \<Rightarrow> cmd\<lparr>cmd_jsonp := Some s\<rparr> | None \<Rightarrow> cmd);
       let cmd = (case hc_separator client of Some s \<Rightarrow> cmd\<lparr>cmd_separator := Some s\<rparr> | None \<Rightarrow> cmd);
       let cmd = (case hc_filename client of Some s \<Rightarrow> cmd\<lparr>cmd_filename := Some s\<rparr> | None \<Rightarrow> cmd);
       let cmd = cmd\<lparr>cmd_fd := hc_fd client, cmd_http_version := hc_http_version client\<rparr>;
       let client = client\<lparr>hc_type := None, hc_jsonp := None, hc_separator := None, hc_filename := None\<rparr>;
       Some (put_client cp client (put_cmd p cmd w)) }"

section \<open>Formats\<close>

definition reply_formats :: "bool \<Rightarrow> (string \<times> formatting_fun \<times> string) list" where
  "reply_formats msgpack =
     [(''json'', json_reply_fun, ''application/json''),
      (''raw'', raw_reply_fun, ''binary/octet-stream'')] @
     (if msgpack then [(''msg'', msgpack_reply_fun, ''application/x-msgpack'')] else []) @
     [(''bin'', custom_type_reply_fun, ''binary/octet-stream''),
      (''txt'', custom_type_reply_fun, ''text/plain''),
      (''html'', custom_type_reply_fun, ''text/html''),
      (''xhtml'', custom_type_reply_fun, ''application/xhtml+xml''),
      (''xml'', custom_type_reply_fun, ''text/xml''),
      (''png'', custom_type_reply_fun, ''image/png''),
      (''jpg'', custom_type_reply_fun, ''image/jpeg''),
      (''jpeg'', custom_type_reply_fun, ''image/jpeg''),
      (''js'', json_reply_fun, ''application/javascript''),
      (''css'', custom_type_reply_fun, ''text/css'')]"

text \<open>
  The search for the extension goes backwards from index \<open>i\<close> and does not look at the first byte of
  the URI. The result is the offset behind the dot.
\<close>

fun find_ext :: "string \<Rightarrow> nat \<Rightarrow> nat option" where
  "find_ext uri 0 = None"
| "find_ext uri (Suc i) =
     (if at_c uri (Suc i) = CHR ''/'' then None
      else if at_c uri (Suc i) = CHR ''.'' then Some (Suc (Suc i))
      else find_ext uri i)"

text \<open>The loop over the table: whether a format was found, its function and its MIME type.\<close>

fun format_loop :: "(string \<times> formatting_fun \<times> string) list \<Rightarrow> string \<Rightarrow> nat \<Rightarrow> bool \<times> formatting_fun \<times> cmd \<Rightarrow>
    bool \<times> formatting_fun \<times> cmd" where
  "format_loop [] ext ext_len r = r"
| "format_loop ((s, f, ct) # funs) ext ext_len (found, f_format, cmd) =
     format_loop funs ext ext_len
       (if ext_len = length s \<and> strncmp ext s ext_len = 0
        then (True, f, cmd\<lparr>cmd_mime := Some ct, cmd_mime_free := False\<rparr>) else (found, f_format, cmd))"

text \<open>For an empty URI the byte before it is read, which is the slash of the path.\<close>

definition cmd_select_format :: "bool \<Rightarrow> http_client \<Rightarrow> cmd \<Rightarrow> string \<Rightarrow> nat \<Rightarrow> nat \<times> formatting_fun \<times> cmd" where
  "cmd_select_format msgpack client cmd uri uri_len =
     (case (if uri_len = 0 then None else find_ext uri (uri_len - 1)) of
        None \<Rightarrow> (uri_len, if hc_type client \<noteq> None then custom_type_reply_fun else json_reply_fun, cmd)
      | Some ext \<Rightarrow>
          let ext_len = uri_len - ext in
          if ext_len = 0 then (uri_len, json_reply_fun, cmd)
          else let (found, f_format, cmd) =
                 format_loop (reply_formats msgpack) (drop ext uri) ext_len (False, json_reply_fun, cmd);
               f_format = (if hc_type client \<noteq> None then custom_type_reply_fun else f_format)
             in (if found then uri_len - ext_len - 1 else uri_len, f_format, cmd))"

section \<open>Running a command\<close>

text \<open>The number of arguments of a URI of \<open>len\<close> bytes.\<close>

function count_params :: "string \<Rightarrow> nat \<Rightarrow> nat \<Rightarrow> nat" where
  "count_params uri len p =
     (if p < len
      then Suc (case memchr uri (p + 1) (CHR ''/'') (len - (p + 1)) of
                  None \<Rightarrow> 0 | Some q \<Rightarrow> count_params uri len q)
      else 0)"
  by pat_completeness auto
termination
  by (relation "measure (\<lambda>(uri, len, p). len - p)") (auto simp: memchr_Some)

declare count_params.simps [simp del]

text \<open>The part of the URI before the question mark, and the size of the array of arguments.\<close>

definition uri_length :: "string \<Rightarrow> nat" where
  "uri_length uri = (case memchr uri 0 (CHR ''?'') (length uri) of Some q \<Rightarrow> q | None \<Rightarrow> length uri)"

definition has_body :: "string option \<Rightarrow> bool" where
  "has_body body = (body \<noteq> None \<and> body \<noteq> Some [])"

definition param_count :: "string \<Rightarrow> string option \<Rightarrow> nat" where
  "param_count uri body = count_params uri (uri_length uri) 0 + (if has_body body then 1 else 0)"

text \<open>The database number in front of the first slash; an \<open>int\<close> that wraps around.\<close>

fun db_digits :: "string \<Rightarrow> int \<Rightarrow> int option" where
  "db_digits [] db_num = Some db_num"
| "db_digits (c # cs) db_num =
     (if \<not> isdigit c then None else db_digits cs (to_int32 (db_num * 10 + int (code c - 48))))"

text \<open>
  The name of the command: its offset and length, and the database if the URI has one. The search
  for the end of the name covers one byte too many.
\<close>

definition parse_command :: "string \<Rightarrow> nat \<Rightarrow> nat \<times> nat \<times> int option" where
  "parse_command uri uri_len =
     (case memchr uri 0 (CHR ''/'') uri_len of
        None \<Rightarrow> (0, uri_len, None)
      | Some slash \<Rightarrow>
          (case db_digits (take slash uri) 0 of
             None \<Rightarrow> (0, slash, None)
           | Some db_num \<Rightarrow>
               let cmd_name = slash + 1 in
               (case memchr uri cmd_name (CHR ''/'') (uri_len - slash) of
                  Some next \<Rightarrow> (cmd_name, next - cmd_name, Some db_num)
                | None \<Rightarrow> (cmd_name, uri_len - (slash + 1), Some db_num))))"

text \<open>The loop over the arguments.\<close>

function uri_args :: "string \<Rightarrow> nat \<Rightarrow> nat \<Rightarrow> string list" where
  "uri_args uri uri_len p =
     (if p < uri_len
      then case memchr uri p (CHR ''/'') (uri_len - p) of
        None \<Rightarrow> [decode_uri uri p (uri_len - p) True]
      | Some next \<Rightarrow> decode_uri uri p (next - p) True # uri_args uri uri_len (next + 1)
      else [])"
  by pat_completeness auto
termination
  by (relation "measure (\<lambda>(uri, uri_len, p). uri_len - p)") (auto simp: memchr_Some)

declare uri_args.simps [simp del]

text \<open>Recording the arguments in the array of the command, from index \<open>cur_param\<close> on.\<close>

fun store_args :: "string list \<Rightarrow> nat \<Rightarrow> string list \<Rightarrow> string list option" where
  "store_args argv cur_param [] = Some argv"
| "store_args argv cur_param (arg # args) =
     (if cur_param < length argv then store_args (argv[cur_param := arg]) (Suc cur_param) args else None)"

definition cmd_send :: "ptr \<Rightarrow> formatting_fun \<Rightarrow> world \<Rightarrow> world option" where
  "cmd_send p f w =
     do { cmd \<leftarrow> w_cmds w p; ap \<leftarrow> cmd_ac cmd;
       redisAsyncCommandArgv ap (Format f p) (take (nat (cmd_count cmd)) (cmd_argv cmd)) w }"

text \<open>The connection of a command: its own one, or one of the pool.\<close>

definition cmd_connect :: "ptr \<Rightarrow> ptr \<Rightarrow> world \<Rightarrow> world option" where
  "cmd_connect p cp w =
     do { cmd \<leftarrow> w_cmds w p;
       if cmd_is_subscribe cmd
       then do { (ac, w) \<leftarrow> pool_connect (cmd_database cmd) False w;
         w \<leftarrow> upd_client cp (\<lambda>c. c\<lparr>hc_reused_cmd := Some p\<rparr>) w;
         upd_cmd p (\<lambda>c. c\<lparr>cmd_ac := ac, cmd_pub_sub_client := Some cp\<rparr>) w }
       else if cmd_database cmd \<noteq> database (w_cfg w)
       then do { (ac, w) \<leftarrow> pool_connect (cmd_database cmd) False w; upd_cmd p (\<lambda>c. c\<lparr>cmd_ac := ac\<rparr>) w }
       else do { (ac, w) \<leftarrow> get_context w; upd_cmd p (\<lambda>c. c\<lparr>cmd_ac := ac\<rparr>) w } }"

text \<open>The first half of \<open>cmd_run\<close>: the command with its name, and its format.\<close>

definition cmd_prepare :: "ptr \<Rightarrow> string \<Rightarrow> nat \<Rightarrow> nat \<Rightarrow> world \<Rightarrow> (ptr \<times> nat \<times> formatting_fun \<times> world) option" where
  "cmd_prepare cp uri uri_len params w =
     do { (p, w) \<leftarrow> cmd_new (Some cp) params w;
       client \<leftarrow> w_clients w cp; cmd \<leftarrow> w_cmds w p;
       let (uri_len, f_format, cmd) = cmd_select_format (w_msgpack w) client
         (cmd\<lparr>cmd_fd := hc_fd client, cmd_database := database (w_cfg w)\<rparr>) uri uri_len;
       w \<leftarrow> cmd_setup p cp (put_cmd p cmd w);
       let (off, len, db) = parse_command uri uri_len;
       w \<leftarrow> upd_cmd p (\<lambda>c. let c = (case db of
             Some db_num \<Rightarrow> c\<lparr>cmd_database := db_num, cmd_count := cmd_count c - 1\<rparr> | None \<Rightarrow> c)
           in c\<lparr>cmd_argv := (cmd_argv c)[0 := slice uri off len]\<rparr>) w;
       Some (p, uri_len, f_format, w) }"

text \<open>The second half: the connection, the arguments, and sending.\<close>

definition cmd_dispatch :: "ptr \<Rightarrow> ptr \<Rightarrow> string \<Rightarrow> nat \<Rightarrow> string option \<Rightarrow> formatting_fun \<Rightarrow> world \<Rightarrow>
    (cmd_response_t \<times> world) option" where
  "cmd_dispatch p cp uri uri_len body f_format w =
     do { w \<leftarrow> cmd_connect p cp w;
       cmd \<leftarrow> w_cmds w p;
       if memchr uri 0 (CHR ''/'') uri_len = None
       then (case cmd_ac cmd of
               None \<Rightarrow> do { w \<leftarrow> cmd_free (Some p) w; Some (CMD_REDIS_UNAVAIL, w) }
             | Some ap \<Rightarrow> do { w \<leftarrow> redisAsyncCommandArgv ap (Format f_format p) [cmd_arg cmd 0] w;
                 Some (CMD_SENT, w) })
       else do {
         let (off, len, db) = parse_command uri uri_len;
         argv \<leftarrow> store_args (cmd_argv cmd) 1
           (uri_args uri uri_len (off + len + 1) @ (if has_body body then [the body] else []));
         w \<leftarrow> upd_cmd p (\<lambda>c. c\<lparr>cmd_argv := argv\<rparr>) w;
         (case cmd_ac cmd of
            Some _ \<Rightarrow> do { w \<leftarrow> cmd_send p f_format w; Some (CMD_SENT, w) }
          | None \<Rightarrow> do { w \<leftarrow> cmd_free (Some p) w;
              w \<leftarrow> upd_client cp (\<lambda>c. c\<lparr>hc_reused_cmd := None\<rparr>) w;
              Some (CMD_REDIS_UNAVAIL, w) }) } }"

definition cmd_run :: "ptr \<Rightarrow> string \<Rightarrow> string option \<Rightarrow> world \<Rightarrow> (cmd_response_t \<times> world) option" where
  "cmd_run cp uri body w =
     (if param_count uri body = 0 then Some (CMD_PARAM_ERROR, w)
      else do {
        (p, uri_len, f_format, w) \<leftarrow> cmd_prepare cp uri (uri_length uri) (param_count uri body) w;
        cmd \<leftarrow> w_cmds w p; client \<leftarrow> w_clients w cp;
        if \<not> acl_allow_command cmd (w_cfg w) client
        then do { w \<leftarrow> cmd_free (Some p) w; Some (CMD_ACL_FAIL, w) }
        else cmd_dispatch p cp uri uri_len body f_format w })"

section \<open>Lemmas: freeing is silent\<close>

text \<open>What is neither a request to Redis nor a change of the configuration.\<close>

definition silent :: "world \<Rightarrow> world \<Rightarrow> bool" where
  "silent w w' = (redis_io w' = redis_io w \<and> w_cfg w' = w_cfg w \<and> w_msgpack w' = w_msgpack w)"

lemma silent_refl [simp]: "silent w w"
  by (simp add: silent_def)

lemma silent_trans [trans]: "silent u v \<Longrightarrow> silent v w \<Longrightarrow> silent u w"
  by (simp add: silent_def)

lemma silent_stores [simp]:
  "silent w (put_client p c v) = silent w v" "silent (put_client p c v) w = silent v w"
  "silent w (put_cmd p x v) = silent w v" "silent (put_cmd p x v) w = silent v w"
  "silent w (put_ws p y v) = silent w v" "silent (put_ws p y v) w = silent v w"
  "silent w (put_ac p z v) = silent w v" "silent (put_ac p z v) w = silent v w"
  "silent w (put_resp p r v) = silent w v" "silent (put_resp p r v) w = silent v w"
  "silent w (event_add e v) = silent w v" "silent (event_add e v) w = silent v w"
  "silent w (v\<lparr>w_cmds := cs\<rparr>) = silent w v" "silent w (v\<lparr>w_acs := as\<rparr>) = silent w v"
  "silent w (v\<lparr>w_pool := pl\<rparr>) = silent w v" "silent w (v\<lparr>w_clients := cl\<rparr>) = silent w v"
  "silent w (slog l b n v) = silent w v"
  by (simp_all add: silent_def put_client_def put_cmd_def put_ws_def put_ac_def put_resp_def event_add_def
      redis_io_def [of "_\<lparr>w_clients := _\<rparr>"] redis_io_def [of "_\<lparr>w_cmds := _\<rparr>"]
      redis_io_def [of "_\<lparr>w_wss := _\<rparr>"] redis_io_def [of "_\<lparr>w_acs := _\<rparr>"] redis_io_def [of "_\<lparr>w_resps := _\<rparr>"]
      redis_io_def [of "_\<lparr>w_events := _\<rparr>"] redis_io_def [of "_\<lparr>w_pool := _\<rparr>"] flip: redis_io_def)

lemma silent_alloc [simp]:
  "silent u (snd (sys_alloc v)) = silent u v" "silent (snd (sys_alloc v)) u = silent v u"
  by (simp_all add: silent_def redis_io_def)

lemma silent_http: "http_frame w w' \<Longrightarrow> silent w w'"
  by (simp add: http_frame_def silent_def)

lemma silent_ws_schedule: "ws_schedule_write wp w = Some (r, w') \<Longrightarrow> silent w w'"
  by (auto simp: ws_schedule_write_def split_beta Let_def split: bind_splits if_splits)

lemma silent_ws_send: "ws_frame_and_send_response wp t p w = Some (r, w') \<Longrightarrow> silent w w'"
  by (auto simp: ws_frame_and_send_response_def split_beta Let_def split: bind_splits if_splits
      dest!: silent_ws_schedule)

lemma silent_upd_client: "upd_client cp f w = Some w' \<Longrightarrow> silent w w'"
  by (auto simp: upd_client_def split: bind_splits)

lemma silent_upd_cmd: "upd_cmd p f w = Some w' \<Longrightarrow> silent w w'"
  by (auto simp: upd_cmd_def split: bind_splits)

lemma silent_upd_resp: "upd_resp p f w = Some w' \<Longrightarrow> silent w w'"
  by (auto simp: upd_resp_def split: bind_splits)

lemma silent_pool_on_disconnect: "pool_on_disconnect ap err w = Some w' \<Longrightarrow> silent w w'"
  by (auto simp: pool_on_disconnect_def pool_schedule_reconnect_def Let_def
      split: bind_splits if_splits option.splits)

lemma silent_init: "http_response_init a s m w = (rp, w') \<Longrightarrow> silent w w'"
  by (rule silent_http) (rule http_frame_init)

lemma silent_write: "http_response_write p fd w = Some w' \<Longrightarrow> silent w w'"
  by (rule silent_http) (rule http_frame_write)

lemma silent_detach: "detach_last_cmd p c w = Some w' \<Longrightarrow> silent w w'"
  by (auto simp: detach_last_cmd_def split: option.splits bind_splits if_splits)

lemma silent_free_cmd: "free_cmd p w = Some w' \<Longrightarrow> silent w w'"
  by (auto simp: free_cmd_def split: bind_splits)

lemma silent_set_in_callback: "set_in_callback ap b w = Some w' \<Longrightarrow> silent w w'"
  by (auto simp: set_in_callback_def split: bind_splits)

text \<open>
  The contract of the function that disconnects, and what it gives for the functions that call it.
\<close>

locale silent_disconnect =
  fixes disconnect :: "ptr \<Rightarrow> world \<Rightarrow> world option"
  assumes disconnect_silent: "disconnect ap w = Some w' \<Longrightarrow> silent w w'"
begin

lemma cmd_free_silent: "cmd_free_with disconnect cmdp w = Some w' \<Longrightarrow> silent w w'"
  by (auto simp: cmd_free_with_def split: option.splits bind_splits if_splits
      dest!: silent_detach silent_free_cmd disconnect_silent intro: silent_trans)

lemma send_error_silent:
  assumes "format_send_error_with disconnect p status msg w = Some w'"
  shows "silent w w'"
  using assms
  by (auto simp: format_send_error_with_def Let_def split: option.splits bind_splits if_splits prod.splits
      dest!: silent_init silent_write silent_upd_resp silent_upd_client silent_ws_send cmd_free_silent
      intro: silent_trans)

lemma null_reply_silent: "null_reply_with disconnect fn w = Some w' \<Longrightarrow> silent w w'"
  by (auto simp: null_reply_with_def pool_on_auth_complete_def split: redis_callback_fn.splits
      dest: send_error_silent)

lemma run_null_silent: "run_null_with disconnect ap cb w = Some w' \<Longrightarrow> silent w w'"
  by (auto simp: run_null_with_def split: bind_splits if_splits
      dest!: silent_set_in_callback null_reply_silent intro: silent_trans)

lemma run_replies_silent: "run_replies_with disconnect ap cbs w = Some w' \<Longrightarrow> silent w w'"
  by (induction cbs arbitrary: w)
    (auto split: bind_splits dest!: run_null_silent intro: silent_trans)

lemma run_invalid_silent: "run_invalid_with disconnect ap cbs w = Some w' \<Longrightarrow> silent w w'"
  by (induction cbs arbitrary: w)
    (auto split: bind_splits dest!: run_null_silent intro: silent_trans)

lemma run_dict_silent: "run_dict_with disconnect ap d w = Some w' \<Longrightarrow> silent w w'"
  by (induction d arbitrary: w)
    (auto split: bind_splits dest!: run_null_silent, blast intro: silent_trans)

lemma async_free_silent: "async_free_with disconnect ap w = Some w' \<Longrightarrow> silent w w'"
  by (auto simp: async_free_with_def Let_def split: bind_splits if_splits
      dest!: run_replies_silent run_invalid_silent run_dict_silent silent_pool_on_disconnect,
      simp_all add: silent_def)

lemma disconnect_with_silent: "disconnect_with disconnect ap w = Some w' \<Longrightarrow> silent w w'"
  by (auto simp: disconnect_with_def async_disconnect_with_def Let_def
      split: bind_splits if_splits option.splits dest!: async_free_silent)

end

lemma disconnect_depth_silent: "silent_disconnect (disconnect_depth n)"
proof (induction n)
  case 0
  then show ?case by unfold_locales simp
next
  case (Suc n)
  then show ?case
    by unfold_locales (simp add: silent_disconnect.disconnect_with_silent)
qed

interpretation redis: silent_disconnect "\<lambda>ap. pool_free_context (Some ap)"
  by unfold_locales
    (simp add: pool_free_context_def redisAsyncDisconnect_def
      silent_disconnect.disconnect_silent [OF disconnect_depth_silent])

lemmas silent_cmd_free = redis.cmd_free_silent [folded cmd_free_def]
lemmas silent_send_error = redis.send_error_silent [folded format_send_error_def]

section \<open>Lemmas: requests to Redis\<close>

text \<open>The requests an operation adds to the trace all satisfy a predicate.\<close>

definition requests :: "(io \<Rightarrow> bool) \<Rightarrow> world \<Rightarrow> world \<Rightarrow> bool" where
  "requests P w w' = (\<exists>es. redis_io w' = redis_io w @ es \<and> list_all P es \<and> w_cfg w' = w_cfg w)"

lemma requests_silent: "silent w w' \<Longrightarrow> requests P w w'"
  by (simp add: requests_def silent_def)

lemma requests_trans: "requests P u v \<Longrightarrow> requests P v w \<Longrightarrow> requests P u w"
  by (auto simp: requests_def)

lemma requests_mono: "requests P w w' \<Longrightarrow> (\<And>e. P e \<Longrightarrow> Q e) \<Longrightarrow> requests Q w w'"
  by (auto simp: requests_def list_all_iff)

lemma requests_cfg: "requests P w w' \<Longrightarrow> w_cfg w' = w_cfg w"
  by (auto simp: requests_def)

lemma redis_io_fields [simp]:
  "redis_io (put_ac p ac w) = redis_io w" "redis_io (put_cmd p c w) = redis_io w"
  "redis_io (put_client p cl w) = redis_io w" "redis_io (event_add e w) = redis_io w"
  "redis_io (emit (Redis ap argv) w) = redis_io w @ [Redis ap argv]"
  "redis_io (emit (Connect ap h port) w) = redis_io w @ [Connect ap h port]"
  "redis_io (w\<lparr>w_connects := x\<rparr>) = redis_io w" "redis_io (w\<lparr>w_next := n\<rparr>) = redis_io w"
  "redis_io (w\<lparr>w_pool := pl\<rparr>) = redis_io w"
  by (simp_all add: redis_io_def put_ac_def put_cmd_def put_client_def event_add_def emit_def to_redis_def)

lemma put_fields [simp]:
  "w_cfg (put_ac p ac w) = w_cfg w" "w_cmds (put_ac p ac w) = w_cmds w" "w_clients (put_ac p ac w) = w_clients w"
  "w_cfg (emit e w) = w_cfg w" "w_cmds (emit e w) = w_cmds w" "w_clients (emit e w) = w_clients w"
  "w_cfg (event_add ev w) = w_cfg w" "w_cmds (event_add ev w) = w_cmds w" "w_clients (event_add ev w) = w_clients w"
  "w_acs (emit e w) = w_acs w" "w_acs (event_add ev w) = w_acs w" "w_wss (put_ac p ac w) = w_wss w"
  "w_wss (emit e w) = w_wss w" "w_wss (event_add ev w) = w_wss w"
  "w_cfg (put_cmd p c w) = w_cfg w" "w_cmds (put_cmd p c w) = (w_cmds w)(p \<mapsto> c)"
  "w_clients (put_cmd p c w) = w_clients w" "w_cfg (put_client p cl w) = w_cfg w"
  "w_cmds (put_client p cl w) = w_cmds w" "w_clients (put_client p cl w) = (w_clients w)(p \<mapsto> cl)"
  "w_connects (emit e w) = w_connects w" "w_acs (put_client p cl w) = w_acs w" "w_acs (put_cmd p c w) = w_acs w" "w_acs (put_ac p ac w) = (w_acs w)(p \<mapsto> ac)"
  by (simp_all add: put_ac_def emit_def event_add_def put_cmd_def put_client_def)

lemma requests_put [simp]:
  "requests P w (put_cmd p c v) = requests P w v" "requests P (put_cmd p c v) w = requests P v w"
  "requests P w (put_client p cl v) = requests P w v" "requests P (put_client p cl v) w = requests P v w"
  "requests P w (put_ac p ac v) = requests P w v" "requests P (put_ac p ac v) w = requests P v w"
  "requests P w (v\<lparr>w_pool := pl\<rparr>) = requests P w v" "requests P w (event_add e v) = requests P w v"
  by (simp_all add: requests_def)

lemma requests_refl [simp]: "requests P w w"
  by (simp add: requests_def)

lemma command_requests:
  "redisAsyncCommandArgv ap fn argv w = Some w' \<Longrightarrow> requests (\<lambda>e. argv \<noteq> [] \<and> e = Redis ap argv) w w'"
  by (auto simp: redisAsyncCommandArgv_def requests_def Let_def split: bind_splits if_splits list.splits)

lemma command_fields:
  "redisAsyncCommandArgv ap fn argv w = Some w' \<Longrightarrow>
     w_cmds w' = w_cmds w \<and> w_clients w' = w_clients w \<and> w_cfg w' = w_cfg w"
  by (auto simp: redisAsyncCommandArgv_def Let_def split: bind_splits if_splits list.splits)

text \<open>The first requests of a new connection.\<close>

definition setup_request :: "conf \<Rightarrow> io \<Rightarrow> bool" where
  "setup_request cfg e =
     (case e of
        Connect ap host port \<Rightarrow> host = redis_host cfg
      | Redis ap argv \<Rightarrow>
          (\<exists>a. redis_auth cfg = Some a \<and> hd argv = ''AUTH'' \<and> last argv = password a) \<or>
          (\<exists>db_num. argv = [''SELECT'', show_int db_num])
      | _ \<Rightarrow> False)"

lemma setup_command:
  assumes "redisAsyncCommandArgv ap fn argv w = Some w'" "setup_request (w_cfg w) (Redis ap argv)"
  shows "requests (setup_request (w_cfg w)) w w' \<and> w_cmds w' = w_cmds w \<and> w_clients w' = w_clients w"
  using command_fields [OF assms(1)] requests_mono [OF command_requests [OF assms(1)]] assms(2) by blast

lemma pool_connect_requests:
  assumes "pool_connect db_num attach w = Some (ac, w')"
  shows "requests (setup_request (w_cfg w)) w w' \<and> w_cmds w' = w_cmds w \<and> w_clients w' = w_clients w"
proof -
  let ?cfg = "w_cfg w" and ?ap = "w_next w"
  define v where "v = (emit (Connect ?ap (redis_host ?cfg)
      (if hd_c (redis_host ?cfg) = CHR ''/'' then 0 else redis_port ?cfg)) (w\<lparr>w_next := Suc ?ap\<rparr>))
    \<lparr>w_connects := tl (w_connects w)\<rparr>"
  have v: "requests (setup_request ?cfg) w v" "w_cfg v = ?cfg" "w_cmds v = w_cmds w" "w_clients v = w_clients w"
    by (simp_all add: v_def requests_def setup_request_def)
  define auth where "auth u = (case redis_auth ?cfg of None \<Rightarrow> Some u
      | Some a \<Rightarrow> if use_legacy_auth a then redisAsyncCommandArgv ?ap Auth_complete [''AUTH'', password a] u
          else do { n \<leftarrow> username a; redisAsyncCommandArgv ?ap Auth_complete [''AUTH'', n, password a] u })" for u
  define sel where "sel u = (if db_num \<noteq> 0
      then redisAsyncCommandArgv ?ap No_callback [''SELECT'', show_int db_num] u else Some u)" for u
  have eq: "pool_connect db_num attach w =
      (case (case w_connects w of [] \<Rightarrow> None | e # _ \<Rightarrow> e) of
         Some e \<Rightarrow> Some (None, pool_schedule_reconnect (slog WEBDIS_ERROR (''Connection failed: '' @ cstr e)
           (length (''Connection failed: '' @ cstr e)) v))
       | None \<Rightarrow> do { u1 \<leftarrow> auth (put_ac ?ap (new_context attach) v); u2 \<leftarrow> sel u1; Some (Some ?ap, u2) })"
    by (simp add: pool_connect_def fresh_def Let_def v_def auth_def sel_def cong: option.case_cong if_cong)
  show ?thesis
  proof (cases "case w_connects w of [] \<Rightarrow> None | e # _ \<Rightarrow> e")
    case (Some e)
    then show ?thesis
      using assms v unfolding eq by (auto simp: pool_schedule_reconnect_def requests_def)
  next
    case None
    define u where "u = put_ac ?ap (new_context attach) v"
    obtain u1 where u1: "auth u = Some u1" "sel u1 = Some w'"
      using assms None unfolding eq u_def by (auto split: bind_splits)
    have u: "requests (setup_request ?cfg) w u" "w_cfg u = ?cfg" "w_cmds u = w_cmds w" "w_clients u = w_clients w"
      using v by (simp_all add: u_def)
    have "requests (setup_request ?cfg) u u1 \<and> w_cmds u1 = w_cmds w \<and> w_clients u1 = w_clients w"
      using u1(1) u(2-4)
      by (auto simp: auth_def setup_request_def split: option.splits if_splits bind_splits dest!: setup_command)
    moreover from this have "w_cfg u1 = ?cfg" using u(2) requests_cfg by auto
    moreover from this have "requests (setup_request ?cfg) u1 w' \<and> w_cmds w' = w_cmds u1 \<and> w_clients w' = w_clients u1"
      using u1(2) by (auto simp: sel_def setup_request_def split: if_splits dest!: setup_command)
    ultimately show ?thesis using u requests_trans by metis
  qed
qed

section \<open>Lemmas: running a command\<close>

lemma store_args_fixed:
  "store_args argv i args = Some argv' \<Longrightarrow> length argv' = length argv \<and> (\<forall>j < i. argv' ! j = argv ! j)"
  by (induction argv i args rule: store_args.induct) (auto split: if_splits)

text \<open>
  What a command keeps when it gets its connection: the arguments, and with them its name.
\<close>

lemma cmd_connect_requests:
  assumes "cmd_connect p cp w = Some w'" "w_cmds w p = Some cmd"
  shows "requests (setup_request (w_cfg w)) w w' \<and>
    (\<exists>c. w_cmds w' p = Some c \<and> cmd_argv c = cmd_argv cmd \<and> cmd_count c = cmd_count cmd)"
proof -
  consider "cmd_is_subscribe cmd" | "\<not> cmd_is_subscribe cmd" "cmd_database cmd \<noteq> database (w_cfg w)"
    | "\<not> cmd_is_subscribe cmd" "cmd_database cmd = database (w_cfg w)" by blast
  then show ?thesis
  proof cases
    case 1
    then show ?thesis
      using assms by (auto simp: cmd_connect_def upd_client_def upd_cmd_def split: bind_splits dest!: pool_connect_requests)
  next
    case 2
    then show ?thesis
      using assms by (auto simp: cmd_connect_def upd_cmd_def split: bind_splits dest!: pool_connect_requests)
  next
    case 3
    then show ?thesis
      using assms by (auto simp: cmd_connect_def upd_cmd_def get_context_def split: bind_splits)
  qed
qed

text \<open>The fields of a command that reading the URL and the headers leaves alone.\<close>

definition same_command :: "cmd \<Rightarrow> cmd \<Rightarrow> bool" where
  "same_command c c' =
     (cmd_argv c' = cmd_argv c \<and> cmd_count c' = cmd_count c \<and> cmd_database c' = cmd_database c \<and>
      cmd_is_websocket c' = cmd_is_websocket c \<and> cmd_started_responding c' = cmd_started_responding c \<and>
      cmd_http_client c' = cmd_http_client c \<and> cmd_pub_sub_client c' = cmd_pub_sub_client c \<and> cmd_ac c' = cmd_ac c)"

lemma setup_headers_same:
  "setup_headers hs cmd = Some cmd' \<Longrightarrow> same_command cmd cmd' \<and> cmd_w cmd' = cmd_w cmd"
  by (induction hs arbitrary: cmd) (fastforce simp: same_command_def split: if_splits bind_splits)+

lemma format_loop_same: "format_loop funs ext n (b, f, cmd) = (b', f', cmd') \<Longrightarrow> same_command cmd cmd'"
  by (induction funs arbitrary: b f cmd) (auto simp: same_command_def split: if_splits simp del: strncmp.simps, fastforce+)

lemma select_format_same: "cmd_select_format m client cmd uri n = (n', f, cmd') \<Longrightarrow> same_command cmd cmd'"
  by (auto simp: cmd_select_format_def Let_def split: option.splits if_splits prod.splits
      dest: format_loop_same) (simp_all add: same_command_def)

text \<open>What \<open>cmd_setup\<close> does to the client.\<close>

definition taken_options :: "http_client \<Rightarrow> http_client" where
  "taken_options c = c\<lparr>hc_type := None, hc_jsonp := None, hc_separator := None, hc_filename := None\<rparr>"

lemma cmd_setup_eq:
  assumes "cmd_setup p cp w = Some w'"
  obtains cmd client cmd' where "w_cmds w p = Some cmd" "w_clients w cp = Some client"
    "w' = put_client cp (taken_options client) (put_cmd p cmd' w)" "same_command cmd cmd'" "cmd_w cmd'"
proof -
  obtain cmd client cmd1 where 1: "w_cmds w p = Some cmd" "w_clients w cp = Some client"
      "setup_headers (hc_headers client) (cmd\<lparr>cmd_keep_alive := hc_keep_alive client, cmd_w := True\<rparr>) = Some cmd1"
    using assms by (auto simp: cmd_setup_def split: bind_splits)
  moreover have "same_command cmd cmd1 \<and> cmd_w cmd1"
    using setup_headers_same [OF 1(3)] by (simp add: same_command_def)
  ultimately show ?thesis
    using assms that [of cmd client]
    by (cases "hc_type client"; cases "hc_jsonp client"; cases "hc_separator client"; cases "hc_filename client")
      (auto simp: cmd_setup_def taken_options_def same_command_def Let_def split: bind_splits if_splits)
qed

lemma cmd_prepare_eq:
  assumes "cmd_prepare cp uri n k w = Some (p, n', f, w')" "w_clients w cp = Some client"
  shows "silent w w' \<and> p = w_next w \<and> w_acs w' = w_acs w \<and> w_pool w' = w_pool w \<and>
    w_clients w' = (w_clients w)(cp \<mapsto> (taken_options client)\<lparr>hc_last_cmd := Some p\<rparr>) \<and>
    (\<exists>cmd. w_cmds w' = (w_cmds w)(p \<mapsto> cmd) \<and> cmd_w cmd \<and> cmd_http_client cmd = Some cp \<and> cmd_ac cmd = None \<and>
       cmd_pub_sub_client cmd = None \<and> \<not> cmd_is_websocket cmd \<and>
       (case parse_command uri n' of (off, len, db) \<Rightarrow>
          cmd_argv cmd = (replicate k [])[0 := slice uri off len] \<and>
          cmd_database cmd = (case db of Some d \<Rightarrow> d | None \<Rightarrow> database (w_cfg w)) \<and>
          cmd_count cmd = int k - (if db = None then 0 else 1)))"
proof -
  let ?p = "w_next w"
  define w1 where "w1 = put_client cp (client\<lparr>hc_last_cmd := Some ?p\<rparr>)
    (put_cmd ?p (empty_cmd (Some cp) k) (w\<lparr>w_next := Suc ?p\<rparr>))"
  have new: "cmd_new (Some cp) k w = Some (?p, w1)"
    using assms(2) by (simp add: cmd_new_def fresh_def upd_client_def w1_def put_cmd_def put_client_def)
  have w1: "w_clients w1 cp = Some (client\<lparr>hc_last_cmd := Some ?p\<rparr>)" "w_cmds w1 ?p = Some (empty_cmd (Some cp) k)"
    "w_cfg w1 = w_cfg w" "w_msgpack w1 = w_msgpack w"
    by (simp_all add: w1_def put_client_def put_cmd_def)
  define cmd0 where "cmd0 = (empty_cmd (Some cp) k)\<lparr>cmd_fd := hc_fd client, cmd_database := database (w_cfg w)\<rparr>"
  obtain n1 f1 cmd1 where sel:
      "cmd_select_format (w_msgpack w) (client\<lparr>hc_last_cmd := Some ?p\<rparr>) cmd0 uri n = (n1, f1, cmd1)"
    by (metis prod_cases3)
  obtain off len db where parse: "parse_command uri n1 = (off, len, db)" by (metis prod_cases3)
  obtain w2 where w2: "cmd_setup ?p cp (put_cmd ?p cmd1 w1) = Some w2"
    using assms(1) new w1 sel by (auto simp: cmd_prepare_def cmd0_def split: bind_splits)
  obtain cmd2 where cmd2: "w2 = put_client cp (taken_options (client\<lparr>hc_last_cmd := Some ?p\<rparr>)) (put_cmd ?p cmd2 (put_cmd ?p cmd1 w1))"
      "same_command cmd1 cmd2" "cmd_w cmd2"
    by (rule cmd_setup_eq [OF w2]) (use w1 in simp)
  define cmd3 where "cmd3 = (case db of
      Some db_num \<Rightarrow> cmd2\<lparr>cmd_database := db_num, cmd_count := cmd_count cmd2 - 1\<rparr> | None \<Rightarrow> cmd2)
    \<lparr>cmd_argv := (cmd_argv cmd2)[0 := slice uri off len]\<rparr>"
  have result: "p = ?p" "n' = n1" "w' = put_cmd ?p cmd3 w2"
    using assms(1) new w1 sel w2 parse
    by (auto simp: cmd_prepare_def cmd0_def cmd2(1) upd_cmd_def cmd3_def Let_def split: option.splits)
  have same: "same_command cmd0 cmd2"
    using select_format_same [OF sel] cmd2(2) by (simp add: same_command_def)
  have cmd3: "cmd_w cmd3 \<and> cmd_http_client cmd3 = Some cp \<and> cmd_ac cmd3 = None \<and> cmd_pub_sub_client cmd3 = None \<and>
      \<not> cmd_is_websocket cmd3 \<and> cmd_argv cmd3 = (replicate k [])[0 := slice uri off len] \<and>
      cmd_database cmd3 = (case db of Some d \<Rightarrow> d | None \<Rightarrow> database (w_cfg w)) \<and>
      cmd_count cmd3 = int k - (if db = None then 0 else 1)"
    using same cmd2(3) by (cases db) (auto simp: cmd3_def cmd0_def same_command_def empty_cmd_def)
  have "silent w w'" "w_acs w' = w_acs w" "w_pool w' = w_pool w"
    by (simp_all add: result(3) cmd2(1) w1_def silent_def put_cmd_def put_client_def redis_io_def)
  moreover have "w_cmds w' = (w_cmds w)(p \<mapsto> cmd3)"
    "w_clients w' = (w_clients w)(cp \<mapsto> (taken_options client)\<lparr>hc_last_cmd := Some p\<rparr>)"
    by (auto simp: result cmd2(1) w1_def taken_options_def put_cmd_def put_client_def)
  ultimately show ?thesis using cmd3 parse result(1,2) by auto
qed

text \<open>
  Every request that a client's URL causes is part of setting up a connection, or it is a command
  whose name the access rules permit to this client.
\<close>

lemma cmd_dispatch_requests:
  assumes "cmd_dispatch p cp uri n body f w = Some (r, w')" "w_cmds w p = Some cmd" "cmd_argv cmd \<noteq> []"
  shows "requests (\<lambda>e. setup_request (w_cfg w) e \<or>
    (r = CMD_SENT \<and> (\<exists>ap argv. e = Redis ap argv \<and> argv \<noteq> [] \<and> hd argv = cmd_arg cmd 0))) w w'"
    (is "requests ?P w w'")
proof -
  obtain v where v: "cmd_connect p cp w = Some v"
    using assms(1) by (auto simp: cmd_dispatch_def split: bind_splits)
  obtain c where c: "w_cmds v p = Some c" "cmd_argv c = cmd_argv cmd" "cmd_count c = cmd_count cmd"
    and conn: "requests (setup_request (w_cfg w)) w v"
    using cmd_connect_requests [OF v assms(2)] by blast
  have head: "hd (take (nat i) argv) = cmd_arg cmd 0"
    if "store_args (cmd_argv c) 1 args = Some argv" "take (nat i) argv \<noteq> []" for i args argv
    using store_args_fixed [OF that(1)] that(2) assms(3) c(2)
    by (cases argv) (auto simp: cmd_arg_def hd_conv_nth take_Cons')
  have sent: "requests ?P v u" if "redisAsyncCommandArgv ap fn argv u' = Some u" "requests ?P v u'"
      "r = CMD_SENT" "argv \<noteq> [] \<Longrightarrow> hd argv = cmd_arg cmd 0" for ap fn argv u u'
    using that(2) requests_mono [OF command_requests [OF that(1)], of ?P] that(3,4)
    by (blast intro: requests_trans)
  have "requests ?P v w'"
  proof (cases "memchr uri 0 (CHR ''/'') n")
    case None
    then show ?thesis
      using assms(1) v c sent [of _ _ "[cmd_arg c 0]" v]
      by (cases "cmd_ac c") (auto simp: cmd_dispatch_def cmd_arg_def split: bind_splits
          dest!: silent_cmd_free intro: requests_silent)
  next
    case (Some slash)
    obtain off len db where parse: "parse_command uri n = (off, len, db)" by (metis prod_cases3)
    obtain argv where argv: "store_args (cmd_argv c) 1
        (uri_args uri n (off + len + 1) @ (if has_body body then [the body] else [])) = Some argv"
      using assms(1) v c(1) Some parse by (auto simp: cmd_dispatch_def split: bind_splits)
    let ?v = "put_cmd p (c\<lparr>cmd_argv := argv\<rparr>) v"
    show ?thesis
    proof (cases "cmd_ac c")
      case None
      then have "\<exists>u. cmd_free (Some p) ?v = Some u \<and> upd_client cp (\<lambda>c. c\<lparr>hc_reused_cmd := None\<rparr>) u = Some w'"
        using assms(1) v c(1) Some parse argv by (auto simp: cmd_dispatch_def upd_cmd_def split: bind_splits)
      then have "silent v w'" using silent_cmd_free silent_upd_client silent_stores(4) by (metis silent_trans)
      then show ?thesis by (rule requests_silent)
    next
      case (Some ap)
      then have send: "redisAsyncCommandArgv ap (Format f p) (take (nat (cmd_count c)) argv) ?v = Some w'" "r = CMD_SENT"
        using assms(1) v c(1) \<open>memchr uri 0 (CHR ''/'') n = Some slash\<close> parse argv
        by (auto simp: cmd_dispatch_def upd_cmd_def cmd_send_def split: bind_splits)
      show ?thesis by (rule sent [OF send(1) _ send(2)], simp, rule head [OF argv])
    qed
  qed
  then show ?thesis
    using requests_mono [OF conn, of ?P] by (blast intro: requests_trans)
qed

lemma cmd_run_requests:
  assumes "cmd_run cp uri body w = Some (r, w')" "w_clients w cp = Some client"
  shows "requests (\<lambda>e. setup_request (w_cfg w) e \<or>
    (r = CMD_SENT \<and> (\<exists>ap argv. e = Redis ap argv \<and> argv \<noteq> [] \<and> permitted (w_cfg w) client (hd argv)))) w w'"
    (is "requests ?P w w'")
proof -
  let ?n = "uri_length uri" and ?k = "param_count uri body"
  show ?thesis
  proof (cases "?k = 0")
    case True
    then show ?thesis using assms(1) by (simp add: cmd_run_def)
  next
    case False
    then obtain p n' f v where prep: "cmd_prepare cp uri ?n ?k w = Some (p, n', f, v)"
      using assms(1) by (auto simp: cmd_run_def split: bind_splits)
    obtain cmd where cmd: "w_cmds v p = Some cmd" "cmd_argv cmd \<noteq> []"
      and v: "silent w v" "w_clients v cp = Some ((taken_options client)\<lparr>hc_last_cmd := Some p\<rparr>)"
      using cmd_prepare_eq [OF prep assms(2)] False by (fastforce split: prod.splits)
    have cfg: "w_cfg v = w_cfg w" using v(1) by (simp add: silent_def)
    have run: "cmd_run cp uri body w =
        (if acl_allow_command cmd (w_cfg w) ((taken_options client)\<lparr>hc_last_cmd := Some p\<rparr>)
         then cmd_dispatch p cp uri n' body f v
         else do { w \<leftarrow> cmd_free (Some p) v; Some (CMD_ACL_FAIL, w) })"
      using False prep cmd(1) v(2) cfg by (simp add: cmd_run_def)
    have perm: "permitted cfg ((taken_options client)\<lparr>hc_last_cmd := Some p\<rparr>) x = permitted cfg client x" for cfg x
      by (rule permitted_cong) (simp_all add: taken_options_def)
    have "requests ?P v w'"
    proof (cases "acl_allow_command cmd (w_cfg w) ((taken_options client)\<lparr>hc_last_cmd := Some p\<rparr>)")
      case True
      then have "permitted (w_cfg w) client (cmd_arg cmd 0)" by (simp add: acl_allow_permitted perm)
      then show ?thesis
        using assms(1) True cfg unfolding run
        by (auto intro!: requests_mono [OF cmd_dispatch_requests [OF _ cmd]])
    next
      case False
      then show ?thesis
        using assms(1) unfolding run
        by (auto split: bind_splits dest!: silent_cmd_free intro: requests_silent)
    qed
    with v(1) show ?thesis by (blast intro: requests_trans requests_silent)
  qed
qed

end
