(* ===== verification/Cmd_Url.thy ===== *)
theory Cmd_Url
  imports Cmd
begin

text \<open>
  From a URL to the command that Redis receives: the lemmas on the reading of a URL by \<open>cmd_run\<close>,
  and the properties of \<open>cmd_run\<close>.
\<close>

section \<open>Lemmas: from a URL to a command\<close>

text \<open>
  The URL of a command: its name and its arguments, each after a slash and percent-encoded as
  clients do it. What follows the path is an extension that names a format, or nothing, and a
  query string.
\<close>

definition isalnum :: "char \<Rightarrow> bool" where
  "isalnum c = (isdigit c \<or> (65 \<le> code c \<and> code c \<le> 90) \<or> (97 \<le> code c \<and> code c \<le> 122))"

definition url_encode :: "string \<Rightarrow> string" where
  "url_encode s = concat (map (\<lambda>c. if isalnum c then [c]
     else [CHR ''%'', xdigit (code c div 16), xdigit (code c mod 16)]) s)"

definition command_url :: "string \<Rightarrow> string list \<Rightarrow> string" where
  "command_url name args = name @ concat (map (\<lambda>a. CHR ''/'' # url_encode a) args)"

lemma url_encode_Nil [simp]: "url_encode [] = []"
  by (simp add: url_encode_def)

lemma url_encode_Cons:
  "url_encode (c # s) = (if isalnum c then [c]
     else [CHR ''%'', xdigit (code c div 16), xdigit (code c mod 16)]) @ url_encode s"
  by (simp add: url_encode_def)

lemma at_c_Cons [simp]: "at_c (c # s) 0 = c" "at_c (c # s) (Suc i) = at_c s i"
  by (simp_all add: at_c_def)

lemma isalnum_special: "isalnum c \<Longrightarrow> c \<noteq> CHR ''?'' \<and> c \<noteq> CHR ''+'' \<and> c \<noteq> CHR ''%'' \<and> c \<noteq> CHR ''/'' \<and> c \<noteq> CHR ''.''"
  by (auto simp: isalnum_def isdigit_def code_def)

lemma xdigit_alnum [simp]: "d < 16 \<Longrightarrow> isalnum (xdigit d)"
  by (auto simp: isalnum_def isdigit_def xdigit_def)

lemma url_encode_set: "c \<in> set (url_encode s) \<Longrightarrow> isalnum c \<or> c = CHR ''%''"
  by (induction s) (auto simp: url_encode_Cons less_mult_imp_div_less split: if_splits)

lemma url_encode_no_sep [simp]: "CHR ''/'' \<notin> set (url_encode s)" "CHR ''?'' \<notin> set (url_encode s)"
  "CHR ''.'' \<notin> set (url_encode s)"
  using url_encode_set [of _ s] isalnum_special by fastforce+

text \<open>Decoding gives back what was encoded, whatever bytes it has.\<close>

lemma decode_url_encode:
  "drop p uri = url_encode s @ t \<Longrightarrow> decode_from uri p (p + length (url_encode s)) True = s"
proof (induction s arbitrary: p)
  case Nil
  then show ?case by (simp add: decode_from.simps)
next
  case (Cons c s)
  let ?rest = "url_encode s @ t"
  show ?case
  proof (cases "isalnum c")
    case True
    with Cons.prems have d: "drop p uri = c # ?rest" by (simp add: url_encode_Cons)
    then have "at_c uri p = c" "drop (p + 1) uri = ?rest"
      using at_c_drop [of p uri 0] by (simp_all add: drop_Suc flip: tl_drop)
    then show ?thesis
      using True isalnum_special [OF True] Cons.IH [of "p + 1"]
      by (subst decode_from.simps) (simp add: url_encode_Cons)
  next
    case False
    with Cons.prems have d: "drop p uri = CHR ''%'' # xdigit (code c div 16) # xdigit (code c mod 16) # ?rest"
      by (simp add: url_encode_Cons)
    then have "drop (3 + p) uri = ?rest" using drop_drop [of 3 p uri] by simp
    moreover have "at_c uri p = CHR ''%''" "at_c uri (p + 1) = xdigit (code c div 16)"
      "at_c uri (p + 2) = xdigit (code c mod 16)"
      using at_c_drop [of p uri 0] at_c_drop [of p uri 1] at_c_drop [of p uri 2] d by (simp_all add: numeral_2_eq_2)
    moreover have "code c div 16 < 16" using code_bound [of c] by linarith
    ultimately show ?thesis
      using False Cons.IH [of "p + 3"]
      by (subst decode_from.simps) (simp add: url_encode_Cons numeral_3_eq_3 numeral_2_eq_2)
  qed
qed


lemma memchr_found:
  "drop p uri = s @ c # t \<Longrightarrow> c \<notin> set s \<Longrightarrow> length s < n \<Longrightarrow> memchr uri p c n = Some (p + length s)"
proof (induction s arbitrary: p n)
  case Nil
  then show ?case using at_c_drop [of p uri 0] by (cases n) simp_all
next
  case (Cons x s)
  then show ?case
    using at_c_drop [of p uri 0] by (cases n) (auto simp: drop_Suc simp flip: tl_drop)
qed

lemma memchr_missing:
  "drop p uri = s @ t \<Longrightarrow> c \<notin> set s \<Longrightarrow> n \<le> length s \<Longrightarrow> memchr uri p c n = None"
proof (induction s arbitrary: p n)
  case (Cons x s)
  then show ?case
    using at_c_drop [of p uri 0] by (cases n) (auto simp: drop_Suc simp flip: tl_drop)
qed simp

text \<open>The fields of a path.\<close>

abbreviation fields :: "string list \<Rightarrow> string" where
  "fields fs \<equiv> concat (map (Cons (CHR ''/'')) fs)"

lemma drop_prefix: "drop p uri = s @ t \<Longrightarrow> drop (p + length s) uri = t"
  by (metis add.commute append_eq_conv_conj drop_drop)

lemma drop_field: "drop p uri = s @ c # t \<Longrightarrow> drop (Suc (p + length s)) uri = t"
  using drop_prefix [of p uri "s @ [c]" t] by simp

lemma count_params_fields:
  assumes "drop p uri = c # s @ fields fs @ e @ t" "n = p + length (c # s @ fields fs @ e)"
    "CHR ''/'' \<notin> set s" "list_all (\<lambda>f. CHR ''/'' \<notin> set f) fs" "CHR ''/'' \<notin> set e"
  shows "count_params uri n p = Suc (length fs)"
  using assms
proof (induction fs arbitrary: p c s)
  case Nil
  then have "drop (p + 1) uri = (s @ e) @ t" using drop_field [of p uri "[]" c] by simp
  then have "memchr uri (p + 1) (CHR ''/'') (n - (p + 1)) = None"
    by (rule memchr_missing) (use Nil in auto)
  then show ?case using Nil by (subst count_params.simps) simp
next
  case (Cons f fs)
  let ?q = "p + 1 + length s"
  have d: "drop (p + 1) uri = s @ CHR ''/'' # f @ fields fs @ e @ t"
    using Cons.prems drop_field [of p uri "[]" c] by simp
  have "memchr uri (p + 1) (CHR ''/'') (n - (p + 1)) = Some ?q"
    by (rule memchr_found [OF d]) (use Cons in auto)
  moreover have "drop ?q uri = CHR ''/'' # f @ fields fs @ e @ t"
    using drop_prefix [OF d] by simp
  then have "count_params uri n ?q = Suc (length fs)"
    by (rule Cons.IH) (use Cons.prems in auto)
  ultimately show ?case using Cons.prems by (subst count_params.simps) simp
qed

lemma url_encode_empty [simp]: "url_encode s = [] \<longleftrightarrow> s = []"
  by (cases s) (auto simp: url_encode_Cons)

text \<open>
  The loop over the arguments gives them back. It does not see an empty argument at the end.
\<close>

definition seen_args :: "string list \<Rightarrow> string list" where
  "seen_args args = (if args \<noteq> [] \<and> last args = [] then butlast args else args)"

lemma uri_args_fields:
  assumes "drop p uri = url_encode a @ fields (map url_encode args) @ t"
    "n = p + length (url_encode a @ fields (map url_encode args))"
  shows "uri_args uri n p = seen_args (a # args)"
  using assms
proof (induction args arbitrary: p a)
  case Nil
  then have "memchr uri p (CHR ''/'') (n - p) = None"
    by (intro memchr_missing [of p uri "url_encode a" t]) auto
  moreover have "decode_uri uri p (length (url_encode a)) True = a"
    using Nil decode_url_encode [of p uri a t] by (simp add: decode_uri_def)
  ultimately show ?case using Nil by (subst uri_args.simps) (auto simp: seen_args_def)
next
  case (Cons b args)
  let ?rest = "url_encode b @ fields (map url_encode args)" and ?q = "p + length (url_encode a)"
  have d: "drop p uri = url_encode a @ CHR ''/'' # ?rest @ t" using Cons.prems by simp
  have "memchr uri p (CHR ''/'') (n - p) = Some ?q"
    by (rule memchr_found [OF d]) (use Cons.prems in auto)
  moreover have "uri_args uri n (?q + 1) = seen_args (b # args)"
    by (rule Cons.IH) (use Cons.prems drop_field [OF d] in auto)
  moreover have "decode_uri uri p (length (url_encode a)) True = a"
    using decode_url_encode [OF d] by (simp add: decode_uri_def)
  ultimately show ?case using Cons.prems by (subst uri_args.simps) (auto simp: seen_args_def)
qed

lemma command_url_fields: "command_url name args = name @ fields (map url_encode args)"
  by (simp add: command_url_def comp_def)

text \<open>What follows the path: the extension of a known format or none, then a query string or none.\<close>

definition known_ext :: "bool \<Rightarrow> string \<Rightarrow> formatting_fun \<Rightarrow> bool" where
  "known_ext msgpack ext f =
     (ext = [] \<and> f = json_reply_fun \<or>
      (\<exists>e ct. ext = CHR ''.'' # e \<and> (e, f, ct) \<in> set (reply_formats msgpack)))"

definition is_query :: "string \<Rightarrow> bool" where
  "is_query q = (q = [] \<or> hd q = CHR ''?'')"

lemma reply_formats_names:
  "(e, f, ct) \<in> set (reply_formats m) \<Longrightarrow>
     e \<noteq> [] \<and> NUL \<notin> set e \<and> CHR ''/'' \<notin> set e \<and> CHR ''?'' \<notin> set e \<and> CHR ''.'' \<notin> set e"
  by (auto simp: reply_formats_def split: if_splits)

lemma distinct_reply_formats: "distinct (map fst (reply_formats m))"
  by (simp add: reply_formats_def)

lemma find_ext_None: "\<forall>j. 0 < j \<and> j \<le> i \<longrightarrow> at_c uri j \<noteq> CHR ''.'' \<Longrightarrow> find_ext uri i = None"
  by (induction i) auto

lemma find_ext_Some:
  "at_c uri n = CHR ''.'' \<Longrightarrow> 0 < n \<Longrightarrow> n \<le> i \<Longrightarrow>
     \<forall>j. n < j \<and> j \<le> i \<longrightarrow> at_c uri j \<noteq> CHR ''.'' \<and> at_c uri j \<noteq> CHR ''/'' \<Longrightarrow> find_ext uri i = Some (Suc n)"
  by (induction i) (auto simp: le_Suc_eq)

lemma format_loop_eq:
  assumes "NUL \<notin> set e" "list_all (\<lambda>(s, f, ct). NUL \<notin> set s) funs"
  shows "format_loop funs (e @ q) (length e) (found, f_format, cmd) =
    (case map_of (rev funs) e of
       None \<Rightarrow> (found, f_format, cmd)
     | Some (f, ct) \<Rightarrow> (True, f, cmd\<lparr>cmd_mime := Some ct, cmd_mime_free := False\<rparr>))"
proof -
  have key: "length e = length s \<and> strncmp (e @ q) s (length e) = 0 \<longleftrightarrow> s = e" if "NUL \<notin> set s" for s
  proof -
    have "cstr (e @ q) = e @ cstr q" using assms(1) by (induction e) (auto simp: cstr_Cons)
    then show ?thesis using that assms(1) by (auto simp: strncmp_eq_0 cstr_no_NUL simp del: strncmp.simps)
  qed
  show ?thesis
    using assms(2)
  proof (induction funs arbitrary: found f_format cmd)
    case (Cons x funs)
    obtain s f ct where x: "x = (s, f, ct)" by (cases x) auto
    then have s: "NUL \<notin> set s" using Cons.prems by simp
    have "format_loop (x # funs) (e @ q) (length e) (found, f_format, cmd) = format_loop funs (e @ q) (length e)
        (if s = e then (True, f, cmd\<lparr>cmd_mime := Some ct, cmd_mime_free := False\<rparr>) else (found, f_format, cmd))"
      by (simp only: format_loop.simps x key [OF s])
    with Cons show ?case by (auto simp: x split: option.splits)
  qed simp
qed

lemma cmd_select_format_url:
  assumes "CHR ''.'' \<notin> set u" "u \<noteq> []" "known_ext m ext f" "is_query q" "hc_type client = None"
  obtains cmd' where "cmd_select_format m client cmd (u @ ext @ q) (length (u @ ext)) = (length u, f, cmd')"
proof (cases "ext = []")
  case True
  have "find_ext (u @ q) (length u - 1) = None"
    using assms(1,2) by (intro find_ext_None) (auto simp: at_c_def nth_append in_set_conv_nth)
  then show ?thesis
    using True assms that by (simp add: cmd_select_format_def known_ext_def)
next
  case False
  then obtain e ct where e: "ext = CHR ''.'' # e" "(e, f, ct) \<in> set (reply_formats m)"
    using assms(3) by (auto simp: known_ext_def)
  note names = reply_formats_names [OF e(2)]
  have at: "at_c (u @ ext @ q) j = e ! (j - Suc (length u))" if "length u < j" "j < Suc (length u + length e)" for j
    using that by (auto simp: at_c_def e(1) nth_append nth_Cons' Suc_diff_Suc)
  have "find_ext (u @ ext @ q) (length u + length e) = Some (Suc (length u))"
  proof (rule find_ext_Some)
    show "at_c (u @ ext @ q) (length u) = CHR ''.''" by (simp add: at_c_def e(1) nth_append)
    show "\<forall>j. length u < j \<and> j \<le> length u + length e \<longrightarrow>
        at_c (u @ ext @ q) j \<noteq> CHR ''.'' \<and> at_c (u @ ext @ q) j \<noteq> CHR ''/''"
      using names at by (auto simp: in_set_conv_nth)
  qed (use assms(2) in auto)
  moreover have "map_of (rev (reply_formats m)) e = Some (f, ct)"
    using e(2) distinct_reply_formats by (simp add: rev_map [symmetric])
  moreover have "list_all (\<lambda>(s, f, ct). NUL \<notin> set s) (reply_formats m)"
    using reply_formats_names by (fastforce simp: list_all_iff)
  ultimately show ?thesis
    using names assms(2,5) that
    by (auto simp: cmd_select_format_def e(1) format_loop_eq [of e _ q] Let_def)
qed

text \<open>A name that is not read as a database number.\<close>

definition command_name :: "string \<Rightarrow> bool" where
  "command_name name =
     ((\<exists>c \<in> set name. \<not> isdigit c) \<and> CHR ''/'' \<notin> set name \<and> CHR ''?'' \<notin> set name \<and> CHR ''.'' \<notin> set name)"

lemma db_digits_None: "\<exists>c \<in> set s. \<not> isdigit c \<Longrightarrow> db_digits s d = None"
  by (induction s arbitrary: d) auto

lemma parse_command_url:
  assumes "command_name name"
  shows "parse_command (command_url name args @ t) (length (command_url name args)) = (0, length name, None)"
    and "memchr (command_url name args @ t) 0 (CHR ''/'') (length (command_url name args)) =
      (if args = [] then None else Some (length name))"
proof -
  have name: "CHR ''/'' \<notin> set name" using assms by (simp add: command_name_def)
  show memchr: "memchr (command_url name args @ t) 0 (CHR ''/'') (length (command_url name args)) =
      (if args = [] then None else Some (length name))"
  proof (cases args)
    case Nil
    then show ?thesis
      using memchr_missing [of 0 "name @ t" name t] name by (simp add: command_url_def)
  next
    case (Cons a as)
    then show ?thesis
      using memchr_found [of 0 "command_url name args @ t" name "CHR ''/''" "url_encode a @ fields (map url_encode as) @ t"] name
      by (simp add: command_url_fields del: memchr.simps)
  qed
  show "parse_command (command_url name args @ t) (length (command_url name args)) = (0, length name, None)"
  proof -
    have "db_digits (take (length name) (command_url name args @ t)) 0 = None"
      using assms by (simp add: command_url_def command_name_def db_digits_None)
    then show ?thesis unfolding parse_command_def memchr by (simp add: command_url_def)
  qed
qed

lemma uri_length_url:
  assumes "command_name name" "known_ext m ext f" "is_query q"
  shows "uri_length (command_url name args @ ext @ q) = length (command_url name args @ ext)"
proof -
  let ?u = "command_url name args @ ext"
  have u: "CHR ''?'' \<notin> set ?u"
    using assms(1,2) reply_formats_names by (auto simp: command_name_def command_url_def known_ext_def)
  show ?thesis
  proof (cases q)
    case Nil
    then show ?thesis using memchr_missing [of 0 ?u ?u "[]"] u by (simp add: uri_length_def)
  next
    case (Cons c q')
    then have "?u @ q = ?u @ CHR ''?'' # q'" using assms(3) by (simp add: is_query_def)
    then show ?thesis
      using memchr_found [of 0 "?u @ q" ?u "CHR ''?''" q' "length (?u @ q)"] u by (simp add: uri_length_def)
  qed
qed

lemma param_count_url:
  assumes "command_name name" "known_ext m ext f" "is_query q"
  shows "param_count (command_url name args @ ext @ q) body = Suc (length args) + (if has_body body then 1 else 0)"
proof -
  let ?n = "length (command_url name args @ ext)" and ?uri = "command_url name args @ ext @ q"
  obtain c s where name: "name = c # s" using assms(1) by (cases name) (auto simp: command_name_def)
  have "drop 0 ?uri = c # s @ fields (map url_encode args) @ ext @ q"
    by (simp add: command_url_fields name)
  then have "count_params ?uri ?n 0 = Suc (length (map url_encode args))"
    by (rule count_params_fields)
      (use assms(1,2) reply_formats_names in \<open>auto simp: name command_url_fields command_name_def known_ext_def list_all_iff\<close>)
  then show ?thesis by (simp add: param_count_def uri_length_url [OF assms])
qed

lemma uri_args_url:
  "uri_args (command_url name args @ t) (length (command_url name args)) (Suc (length name)) = seen_args args"
proof (cases args)
  case Nil
  then show ?thesis by (simp add: command_url_def uri_args.simps seen_args_def)
next
  case (Cons a as)
  then show ?thesis
    by (intro uri_args_fields [of _ _ a as t, folded Cons]) (auto simp: command_url_fields)
qed

lemma store_args_eq:
  "length args \<le> k \<Longrightarrow>
     store_args (xs @ replicate k []) (length xs) args = Some (xs @ args @ replicate (k - length args) [])"
proof (induction args arbitrary: xs k)
  case (Cons a args)
  then obtain j where "k = Suc j" by (cases k) auto
  with Cons.prems Cons.IH [of j "xs @ [a]"] show ?case by simp
qed simp

text \<open>A client whose headers are complete; then \<open>cmd_setup\<close> and what is before it do not fail.\<close>

definition complete_headers :: "http_client \<Rightarrow> bool" where
  "complete_headers client =
     (hc_header_count client \<le> length (hc_headers client) \<and> list_all (\<lambda>h. h_val h \<noteq> None) (hc_headers client))"

lemma setup_headers_total: "list_all (\<lambda>h. h_val h \<noteq> None) hs \<Longrightarrow> \<exists>cmd'. setup_headers hs cmd = Some cmd'"
  by (induction hs arbitrary: cmd) auto

lemma cmd_setup_total:
  assumes "w_cmds w p = Some cmd" "w_clients w cp = Some client" "complete_headers client"
  shows "\<exists>w'. cmd_setup p cp w = Some w'"
  using assms setup_headers_total [of "hc_headers client"
      "cmd\<lparr>cmd_keep_alive := hc_keep_alive client, cmd_w := True\<rparr>"]
  by (auto simp: cmd_setup_def complete_headers_def Let_def)

lemma select_format_client:
  "cmd_select_format m (client\<lparr>hc_last_cmd := p\<rparr>) cmd uri n = cmd_select_format m client cmd uri n"
proof -
  have "hc_type (client\<lparr>hc_last_cmd := p\<rparr>) = hc_type client" by simp
  then show ?thesis by (simp only: cmd_select_format_def)
qed

lemma cmd_prepare_total:
  assumes "w_clients w cp = Some client" "complete_headers client"
  obtains cmd n' f cmd' w' where "cmd_select_format (w_msgpack w) client cmd uri n = (n', f, cmd')"
    "cmd_prepare cp uri n k w = Some (w_next w, n', f, w')"
proof -
  let ?p = "w_next w" and ?client = "client\<lparr>hc_last_cmd := Some (w_next w)\<rparr>"
  define cmd where "cmd = (empty_cmd (Some cp) k)\<lparr>cmd_fd := hc_fd client, cmd_database := database (w_cfg w)\<rparr>"
  define w1 where "w1 = put_client cp ?client (put_cmd ?p (empty_cmd (Some cp) k) (w\<lparr>w_next := Suc ?p\<rparr>))"
  obtain n' f cmd' where sel: "cmd_select_format (w_msgpack w) client cmd uri n = (n', f, cmd')"
    by (metis prod_cases3)
  have new: "cmd_new (Some cp) k w = Some (?p, w1)"
    using assms(1) by (simp add: cmd_new_def fresh_def upd_client_def w1_def put_cmd_def put_client_def)
  have w1: "w_clients w1 cp = Some ?client" "w_cmds w1 ?p = Some (empty_cmd (Some cp) k)"
    "w_cfg w1 = w_cfg w" "w_msgpack w1 = w_msgpack w"
    by (simp_all add: w1_def put_client_def put_cmd_def)
  have "complete_headers ?client" using assms(2) by (simp add: complete_headers_def)
  then obtain w2 where w2: "cmd_setup ?p cp (put_cmd ?p cmd' w1) = Some w2"
    using cmd_setup_total [of "put_cmd ?p cmd' w1" ?p cmd' cp ?client] w1(1) by auto
  obtain cmd2 where "w_cmds w2 ?p = Some cmd2" by (rule cmd_setup_eq [OF w2]) simp
  moreover obtain off len db where "parse_command uri n' = (off, len, db)" by (metis prod_cases3)
  ultimately have "\<exists>w'. cmd_prepare cp uri n k w = Some (?p, n', f, w')"
    using new w1 w2 sel by (simp add: cmd_prepare_def cmd_def select_format_client upd_cmd_def)
  with sel that show ?thesis by blast
qed

text \<open>A command that \<open>__redisAsyncCommand\<close> does not treat in a special way.\<close>

declare strncasecmp.simps [simp del]

definition ordinary :: "string \<Rightarrow> bool" where
  "ordinary name =
     (let cname = (if tolower (hd_c (name @ CRLF)) = CHR ''p'' then drop 1 name else name)
      in \<not> is_command cname ''subscribe'' \<and> \<not> is_command cname ''unsubscribe'' \<and> \<not> is_command cname ''monitor'')"

lemma cstr_append: "NUL \<notin> set s \<Longrightarrow> cstr (s @ t) = s @ cstr t"
  by (induction s) (auto simp: cstr_Cons)

lemma is_command_same:
  assumes "length arg = length name" "strncasecmp arg name (length name) = 0" "NUL \<notin> set name"
  shows "is_command arg name"
proof -
  have eq: "map tolower (cstr arg) = map tolower name"
    using assms by (simp add: strncasecmp_eq_0 cstr_no_NUL del: strncasecmp.simps)
  then have "length (cstr arg) = length arg" using assms(1) map_eq_imp_length_eq by fastforce
  then have "cstr arg = arg" unfolding cstr_def by (metis append_self_conv length_0_conv length_append takeWhile_dropWhile_id add_cancel_right_right)
  then have "NUL \<notin> set arg" by (metis NUL_notin_cstr)
  with assms eq show ?thesis
    by (simp add: is_command_def strncasecmp_eq_0 cstr_append cstr_no_NUL cstr_Cons del: strncasecmp.simps)
qed

lemma tolower_sp: "tolower (CHR ''s'') = CHR ''s''" "tolower (CHR ''p'') = CHR ''p''"
  by code_simp+

lemma ordinary_not_subscribe:
  assumes "ordinary name" "cmd_pub_sub_client cmd = None" "cmd_arg cmd 0 = name"
  shows "\<not> cmd_is_subscribe cmd"
proof
  assume "cmd_is_subscribe cmd"
  then consider "length name = 9" "strncasecmp name ''subscribe'' 9 = 0"
    | "length name = 10" "strncasecmp name ''psubscribe'' 10 = 0"
    using assms(2,3) by (auto simp: cmd_is_subscribe_def cmd_is_subscribe_args_def simp del: strncasecmp.simps)
  then show False
  proof cases
    case 1
    then have "is_command name ''subscribe''" by (intro is_command_same) (simp_all add: eval_nat_numeral)
    moreover obtain c s where name: "name = c # s" using 1(1) by (cases name) auto
    have "strncasecmp (c # s) (CHR ''s'' # ''ubscribe'') (Suc 8) = 0" using 1(2) by (simp add: name)
    then have "tolower c \<noteq> CHR ''p''"
      unfolding strncasecmp.simps(2) by (auto simp: code_eq_iff tolower_sp split: if_splits)
    ultimately show False using assms(1) by (simp add: ordinary_def name)
  next
    case 2
    then obtain c s where name: "name = c # s" by (cases name) auto
    have "strncasecmp (c # s) (CHR ''p'' # ''subscribe'') (Suc 9) = 0" using 2(2) by (simp add: name)
    then have c: "tolower c = CHR ''p''" and s: "strncasecmp s ''subscribe'' 9 = 0"
      unfolding strncasecmp.simps(2) by (auto simp: code_eq_iff tolower_sp split: if_splits)
    then have "is_command s ''subscribe''"
      using 2(1) by (intro is_command_same) (simp_all add: name eval_nat_numeral)
    then show False using assms(1) c by (simp add: ordinary_def name)
  qed
qed

lemma ordinary_command:
  assumes "w_acs w ap = Some ac" "\<not> ac_disconnecting ac" "\<not> ac_freeing ac" "\<not> ac_subscribed ac" "ordinary name"
  shows "redisAsyncCommandArgv ap fn (name # args) w =
    Some (emit (Redis ap (name # args)) (put_ac ap (ac\<lparr>ac_replies := ac_replies ac @
      [\<lparr>cb_fn = fn, cb_pending_subs = 1\<rparr>]\<rparr>) w))"
  using assms by (simp add: redisAsyncCommandArgv_def ordinary_def Let_def split: if_splits)

text \<open>
  What \<open>cmd_run\<close> sends. A body is dropped when the URL has no argument, and it stands in front of
  an empty last argument.
\<close>

definition body_args :: "string option \<Rightarrow> string list" where
  "body_args body = (if has_body body then [the body] else [])"

definition sent_argv :: "string \<Rightarrow> string list \<Rightarrow> string option \<Rightarrow> string list" where
  "sent_argv name args body =
     (if args = [] then [name]
      else if last args = [] then name # butlast args @ body_args body @ [[]]
      else name # args @ body_args body)"

lemma store_url_args:
  assumes "args \<noteq> []"
  shows "store_args (name # replicate (length args + length (body_args body)) []) 1 (seen_args args @ body_args body) =
    Some (sent_argv name args body)"
proof (cases "last args = []")
  case True
  then obtain as where as: "args = as @ [[]]" using assms by (metis append_butlast_last_id)
  then show ?thesis
    using store_args_eq [of "as @ body_args body" "length args + length (body_args body)" "[name]"]
    by (simp add: seen_args_def sent_argv_def Suc_diff_le)
next
  case False
  with assms show ?thesis
    using store_args_eq [of "args @ body_args body" "length args + length (body_args body)" "[name]"]
    by (simp add: seen_args_def sent_argv_def)
qed

lemma length_sent_argv: "args \<noteq> [] \<Longrightarrow> length (sent_argv name args body) = Suc (length args + length (body_args body))"
  by (cases args rule: rev_cases) (auto simp: sent_argv_def)

lemma sent_argv_Cons: obtains rest where "sent_argv name args body = name # rest"
  by (cases "args = []"; cases "last args = []") (simp_all add: sent_argv_def)

lemma sent_argv_eq:
  "(has_body body \<longrightarrow> args \<noteq> [] \<and> last args \<noteq> []) \<Longrightarrow> sent_argv name args body = name # args @ body_args body"
  by (cases args rule: rev_cases) (auto simp: sent_argv_def body_args_def)

lemma cmd_dispatch_sends:
  assumes cmd: "w_cmds w p = Some cmd" "cmd_argv cmd = name # replicate (length args + length (body_args body)) []"
    "cmd_count cmd = int (Suc (length args + length (body_args body)))" "cmd_pub_sub_client cmd = None"
    "cmd_database cmd = database (w_cfg w)"
    and name: "command_name name" "ordinary name"
    and pool: "pool_get_context (w_pool w) = Some (Some ap, pl)" "w_acs w ap = Some ac"
      "\<not> ac_disconnecting ac" "\<not> ac_freeing ac" "\<not> ac_subscribed ac"
  shows "\<exists>w'. cmd_dispatch p cp (command_url name args @ t) (length (command_url name args)) body f w =
      Some (CMD_SENT, w') \<and> redis_io w' = redis_io w @ [Redis ap (sent_argv name args body)] \<and>
    w_acs w' = (w_acs w)(ap \<mapsto> ac\<lparr>ac_replies := ac_replies ac @ [\<lparr>cb_fn = Format f p, cb_pending_subs = 1\<rparr>]\<rparr>)"
proof -
  have arg: "cmd_arg cmd 0 = name" by (simp add: cmd_arg_def cmd(2))
  have "\<not> cmd_is_subscribe cmd" by (rule ordinary_not_subscribe [OF name(2) cmd(4) arg])
  then have connect: "cmd_connect p cp w = Some (put_cmd p (cmd\<lparr>cmd_ac := Some ap\<rparr>) (w\<lparr>w_pool := pl\<rparr>))"
    using cmd pool(1) by (simp add: cmd_connect_def get_context_def upd_cmd_def)
  have [simp]: "cmd_arg (cmd\<lparr>cmd_ac := Some ap\<rparr>) 0 = name" by (simp add: cmd_arg_def cmd(2))
  note send = ordinary_command [OF _ pool(3-5) name(2)]
  show ?thesis
  proof (cases "args = []")
    case True
    then show ?thesis
      using connect pool(2)
      by (simp add: cmd_dispatch_def parse_command_url(2) [OF name(1)] send sent_argv_def)
  next
    case False
    obtain rest where rest: "sent_argv name args body = name # rest" by (rule sent_argv_Cons)
    show ?thesis
      using False connect pool(2) cmd(2,3) store_url_args [of args name body] length_sent_argv [of args name body]
      by (simp add: cmd_dispatch_def parse_command_url [OF name(1)] uri_args_url upd_cmd_def cmd_send_def
          flip: body_args_def) (simp add: rest send)
  qed
qed

lemma cmd_run_url:
  assumes "w_clients w cp = Some client" "complete_headers client" "hc_type client = None"
    and "command_name name" "ordinary name" "permitted (w_cfg w) client name"
    and "known_ext (w_msgpack w) ext f" "is_query q"
    and "pool_get_context (w_pool w) = Some (Some ap, pl)" "w_acs w ap = Some ac"
      "\<not> ac_disconnecting ac" "\<not> ac_freeing ac" "\<not> ac_subscribed ac"
  shows "\<exists>w'. cmd_run cp (command_url name args @ ext @ q) body w = Some (CMD_SENT, w') \<and>
    redis_io w' = redis_io w @ [Redis ap (sent_argv name args body)] \<and>
    w_acs w' = (w_acs w)(ap \<mapsto> ac\<lparr>ac_replies := ac_replies ac @
      [\<lparr>cb_fn = Format f (w_next w), cb_pending_subs = 1\<rparr>]\<rparr>)"
proof -
  let ?u = "command_url name args" and ?p = "w_next w"
  let ?uri = "?u @ ext @ q" and ?b = "body_args body"
  have count: "param_count ?uri body = Suc (length args + length ?b)"
    using param_count_url [OF assms(4,7,8)] by (simp add: body_args_def)
  note len = uri_length_url [OF assms(4,7,8)]
  have u: "?u \<noteq> []" "CHR ''.'' \<notin> set ?u"
    using assms(4) by (auto simp: command_name_def command_url_def)
  obtain cmd0 n' f' cmd1 w1 where prep:
      "cmd_select_format (w_msgpack w) client cmd0 ?uri (length (?u @ ext)) = (n', f', cmd1)"
      "cmd_prepare cp ?uri (length (?u @ ext)) (param_count ?uri body) w = Some (?p, n', f', w1)"
    by (rule cmd_prepare_total [OF assms(1,2)])
  have sel: "n' = length ?u" "f' = f"
    using prep(1) by (auto intro: cmd_select_format_url [OF u(2,1) assms(7,8,3), of cmd0])
  have name: "slice ?uri 0 (length name) = name" by (simp add: slice_eq_take_drop command_url_def)
  note parse = parse_command_url(1) [OF assms(4), of args "ext @ q"]
  obtain cmd where cmd: "w_cmds w1 ?p = Some cmd" "cmd_argv cmd = name # replicate (length args + length ?b) []"
      "cmd_count cmd = int (Suc (length args + length ?b))" "cmd_pub_sub_client cmd = None"
      "cmd_database cmd = database (w_cfg w)"
    and w1: "silent w w1" "w_acs w1 = w_acs w" "w_pool w1 = w_pool w"
      "w_clients w1 cp = Some ((taken_options client)\<lparr>hc_last_cmd := Some ?p\<rparr>)"
    using cmd_prepare_eq [OF prep(2) assms(1)] by (auto simp: sel parse count name)
  have "acl_allow_command cmd (w_cfg w1) ((taken_options client)\<lparr>hc_last_cmd := Some ?p\<rparr>)"
    using assms(6) w1(1) cmd(2,3) permitted_cong [of "(taken_options client)\<lparr>hc_last_cmd := Some ?p\<rparr>" client]
    by (simp add: acl_allow_permitted cmd_arg_def taken_options_def silent_def)
  then have "cmd_run cp ?uri body w = cmd_dispatch ?p cp ?uri (length ?u) body f w1"
    using prep(2) cmd(1) w1(4) by (simp add: cmd_run_def len count sel)
  then show ?thesis
    using cmd_dispatch_sends [OF cmd(1-4) _ assms(4,5) _ _ assms(11-13), of ap pl cp "ext @ q" f]
      cmd(5) w1 assms(9,10) by (simp add: silent_def)
qed

section \<open>Properties\<close>


text \<open>A worker with one client at address 4 and one connection to Redis at address 2.\<close>

definition serving_world :: world where
  "serving_world = put_ac 2 (new_context True) (put_client 4 (http_client_new 5 0)
     ((idle_world (conf_defaults plain_system))
        \<lparr>w_pool := \<lparr>pool_ac = [Some 2], pool_count = 1, pool_cur = 0\<rparr>, w_next := 6\<rparr>))"

lemma serving_world_fields:
  "w_clients serving_world 4 = Some (http_client_new 5 0)" "w_acs serving_world 2 = Some (new_context True)"
  "pool_get_context (w_pool serving_world) = Some (Some 2, w_pool serving_world)"
  "w_cfg serving_world = conf_defaults plain_system" "w_msgpack serving_world = False"
  by (simp_all add: serving_world_def put_ac_def put_client_def idle_world_def pool_get_context_def
      numeral_nat)

lemma serving_conditions:
  "complete_headers (http_client_new 5 0)" "hc_type (http_client_new 5 0) = None"
  "known_ext False ''.raw'' raw_reply_fun" "is_query ''?x''"
  by (simp_all add: complete_headers_def http_client_new_def known_ext_def reply_formats_def is_query_def)

lemma serving_set: "command_name ''SET''" "ordinary ''SET''"
  by code_simp+

lemma serving_permitted: "permitted (conf_defaults plain_system) (http_client_new 5 0) ''SET''"
proof -
  have "\<not> (\<exists>off \<in> set always_off. strncasecmp off ''SET'' (length ''SET'') = 0)" by code_simp
  then show ?thesis by (simp add: permitted_def conf_defaults_def)
qed

lemmas serving = serving_world_fields serving_conditions serving_set serving_permitted


text \<open>
  C7: the URL of a command reaches Redis as this command. For a name and any arguments, given as
  \<open>name/arg1/arg2...\<close> with the arguments percent-encoded, with the extension of a format, a query
  string and a body, \<open>cmd_run\<close> sends exactly the name, the arguments byte for byte, and the body as
  the last argument, on the connection of the pool; the callback is the function of the format with
  this command. A body needs an argument before it, and one that is not empty.
\<close>

theorem cmd_run_sends:
  assumes "w_clients w cp = Some client" "complete_headers client" "hc_type client = None"
    and "command_name name" "ordinary name" "permitted (w_cfg w) client name"
    and "known_ext (w_msgpack w) ext f" "is_query q"
    and "has_body body \<longrightarrow> args \<noteq> [] \<and> last args \<noteq> []"
    and "pool_get_context (w_pool w) = Some (Some ap, pl)" "w_acs w ap = Some ac"
      "\<not> ac_disconnecting ac" "\<not> ac_freeing ac" "\<not> ac_subscribed ac"
  shows "\<exists>w'. cmd_run cp (command_url name args @ ext @ q) body w = Some (CMD_SENT, w') \<and>
    redis_io w' = redis_io w @ [Redis ap (name # args @ (if has_body body then [the body] else []))] \<and>
    w_acs w' = (w_acs w)(ap \<mapsto> ac\<lparr>ac_replies := ac_replies ac @
      [\<lparr>cb_fn = Format f (w_next w), cb_pending_subs = 1\<rparr>]\<rparr>)"
  using cmd_run_url [OF assms(1-8,10-14), of args body] assms(9)
  by (simp add: sent_argv_eq body_args_def)

theorem cmd_run_sends_witness:
  "\<exists>w'. cmd_run 4 (command_url ''SET'' [''a/b'', ''.?''] @ ''.raw'' @ ''?x'') (Some ''v'') serving_world = Some (CMD_SENT, w') \<and>
     redis_io w' = redis_io serving_world @ [Redis 2 [''SET'', ''a/b'', ''.?'', ''v'']]"
  using cmd_run_sends [of serving_world 4 "http_client_new 5 0" "''SET''" "''.raw''" raw_reply_fun "''?x''"
      "Some ''v''" "[''a/b'', ''.?'']" 2 _ "new_context True"] serving
  by (auto simp: has_body_def new_context_def)

text \<open>
  C26: where a body is not the last argument. With a command name and no argument the body is dropped
  and Redis receives the name alone. When the URL ends in a slash, that is, with an empty last
  argument, the body is sent before this argument.
\<close>

theorem cmd_run_misplaces_body:
  assumes "w_clients w cp = Some client" "complete_headers client" "hc_type client = None"
    and "command_name name" "ordinary name" "permitted (w_cfg w) client name"
    and "pool_get_context (w_pool w) = Some (Some ap, pl)" "w_acs w ap = Some ac"
      "\<not> ac_disconnecting ac" "\<not> ac_freeing ac" "\<not> ac_subscribed ac"
  shows "(\<exists>w'. cmd_run cp name (Some (c # cs)) w = Some (CMD_SENT, w') \<and> redis_io w' = redis_io w @ [Redis ap [name]]) \<and>
    (\<exists>w'. cmd_run cp (command_url name [a, []]) (Some (c # cs)) w = Some (CMD_SENT, w') \<and>
      redis_io w' = redis_io w @ [Redis ap [name, a, c # cs, []]])"
  using cmd_run_url [OF assms(1-6) _ _ assms(7-11), of "[]" json_reply_fun "[]" "[]" "Some (c # cs)"]
    cmd_run_url [OF assms(1-6) _ _ assms(7-11), of "[]" json_reply_fun "[]" "[a, []]" "Some (c # cs)"]
  by (auto simp: known_ext_def is_query_def command_url_def sent_argv_def body_args_def has_body_def)

theorem cmd_run_misplaces_body_witness:
  "(\<exists>w'. cmd_run 4 ''SET'' (Some ''v'') serving_world = Some (CMD_SENT, w') \<and>
      redis_io w' = redis_io serving_world @ [Redis 2 [''SET'']]) \<and>
   (\<exists>w'. cmd_run 4 ''SET/a/'' (Some ''v'') serving_world = Some (CMD_SENT, w') \<and>
      redis_io w' = redis_io serving_world @ [Redis 2 [''SET'', ''a'', ''v'', []]])"
proof -
  have "command_url ''SET'' [''a'', []]  = ''SET/a/''" by code_simp
  then show ?thesis
    using cmd_run_misplaces_body [of serving_world 4 "http_client_new 5 0" "''SET''" 2 _ "new_context True"
        "CHR ''v''" "[]" "''a''"] serving
    by (simp add: new_context_def)
qed

end
