(* ===== verification/Hash_Blocks.thy ===== *)
theory Hash_Blocks
  imports C_Lib
begin

unbundle bit_operations_syntax

text \<open>
  What MD5 and SHA-1 have in common: a message is cut into blocks of 64 bytes, each block changes
  the registers, and at the end the message is padded with a bit, zeros and its length. The locale
  is the contract of an implementation that takes the message in pieces.
\<close>

type_synonym word32 = "32 word"

text \<open>The registers after the whole blocks of a message, and the rest of the message.\<close>

function absorb :: "('h \<Rightarrow> byte list \<Rightarrow> 'h) \<Rightarrow> 'h \<Rightarrow> byte list \<Rightarrow> 'h \<times> byte list" where
  "absorb process h m =
     (if length m < 64 then (h, m) else absorb process (process h (take 64 m)) (drop 64 m))"
  by pat_completeness auto
termination by (relation "measure (\<lambda>(process, h, m). length m)") auto

declare absorb.simps [simp del]

text \<open>The padding: one bit, zeros up to 8 bytes before the end of a block, and the length.\<close>

definition pad_zeros :: "nat \<Rightarrow> nat" where
  "pad_zeros n = nat ((55 - int n) mod 64)"

definition padded :: "(nat \<Rightarrow> byte list) \<Rightarrow> byte list \<Rightarrow> byte list" where
  "padded length_bytes m = m @ [0x80] @ replicate (pad_zeros (length m)) 0 @ length_bytes (8 * length m)"

text \<open>The length modulo \<open>2 ^ 64\<close>, least significant byte first.\<close>

definition le64 :: "nat \<Rightarrow> byte list" where
  "le64 n = map (\<lambda>i. word_of_nat (n div 2 ^ (8 * i))) [0..<8]"

section \<open>Lemmas\<close>

lemma unat_bound: "unat (x :: word32) < 2 ^ 32"
  using unsigned_less [of x, where 'a = nat] by simp

lemma unat_word_of_int: "0 \<le> k \<Longrightarrow> unat (word_of_int k :: word32) = nat k mod 2 ^ 32"
  by (simp add: unsigned_of_int take_bit_eq_mod nat_mod_distrib)

lemma unat_and_63: "unat (w AND (63 :: word32)) = unat w mod 64"
proof -
  have "(63 :: word32) = mask 6" by (simp add: mask_eq_exp_minus_1)
  then have "unat (w AND 63) = unat (take_bit 6 w)" by (simp only: take_bit_eq_mask)
  then show ?thesis by (simp only: unsigned_take_bit_eq) (simp add: take_bit_eq_mod)
qed

lemma unat_drop_bit: "unat (drop_bit k (w :: word32)) = unat w div 2 ^ k"
  by (subst unat_drop_bit_eq) (rule drop_bit_eq_div)

lemma byte_of_count: "(ucast (drop_bit k (w :: word32)) :: byte) = word_of_nat (unat w div 2 ^ k)"
  by (simp add: unat_drop_bit [symmetric])

lemma byte_mod_eq: "a mod 256 = b mod (256 :: nat) \<Longrightarrow> (word_of_nat a :: byte) = word_of_nat b"
  by (simp add: word_of_nat_eq_iff take_bit_eq_mod)

lemma digits_mod:
  fixes n :: nat
  assumes "k + 8 \<le> l"
  shows "n mod 2 ^ l div 2 ^ k mod 256 = n div 2 ^ k mod 256"
proof -
  have "take_bit 8 (drop_bit k (take_bit l n)) = take_bit 8 (drop_bit k n)"
    using assms by (simp add: drop_bit_take_bit min_absorb1)
  then show ?thesis by (simp add: take_bit_eq_mod drop_bit_eq_div)
qed

lemma absorb_short: "length m < 64 \<Longrightarrow> absorb process h m = (h, m)"
  by (simp add: absorb.simps)

lemma absorb_block: "64 \<le> length m \<Longrightarrow> absorb process h m = absorb process (process h (take 64 m)) (drop 64 m)"
  by (subst absorb.simps) simp

lemma absorb_rest: "length (snd (absorb process h m)) = length m mod 64"
proof (induction process h m rule: absorb.induct)
  case (1 process h m)
  then show ?case
    by (cases "length m < 64") (simp_all add: absorb_short absorb_block le_mod_geq)
qed

lemma absorb_append:
  "absorb process h (m @ d) = (case absorb process h m of (h', r) \<Rightarrow> absorb process h' (r @ d))"
proof (induction process h m rule: absorb.induct)
  case (1 process h m)
  show ?case
  proof (cases "length m < 64")
    case True
    then show ?thesis by (simp add: absorb_short)
  next
    case False
    then show ?thesis using 1 absorb_block [of "m @ d" process h] by (simp add: absorb_block)
  qed
qed

lemma length_padded:
  assumes "\<And>n. length (length_bytes n) = 8"
  shows "length (padded length_bytes m) mod 64 = 0"
proof -
  have "(int (length m) + 9 + (55 - int (length m)) mod 64) mod 64 = (int (length m) + 9 + (55 - int (length m))) mod 64"
    by (rule mod_add_right_eq)
  then have "int (length (padded length_bytes m)) mod 64 = 0"
    by (simp add: padded_def pad_zeros_def assms ac_simps)
  then show ?thesis by presburger
qed

section \<open>Messages in pieces\<close>

locale streaming_hash =
  fixes init :: 's
    and input :: "'s \<Rightarrow> byte list \<Rightarrow> 's"
    and rep :: "'s \<Rightarrow> byte list \<Rightarrow> bool"
    and fits :: "nat \<Rightarrow> bool"
  assumes rep_init: "rep init []"
    and rep_input: "rep s m \<Longrightarrow> fits (length (m @ d)) \<Longrightarrow> rep (input s d) (m @ d)"
    and fits_mono: "fits n \<Longrightarrow> k \<le> n \<Longrightarrow> fits k"
begin

lemma rep_pieces:
  assumes "rep s m" "fits (length (m @ concat ds))"
  shows "rep (foldl input s ds) (m @ concat ds)"
  using assms
proof (induction ds arbitrary: s m)
  case (Cons d ds)
  then have "rep (input s d) (m @ d)" using fits_mono [of _ "length (m @ d)"] by (auto intro: rep_input)
  with Cons show ?case by (simp flip: append_assoc)
qed simp

lemma rep_message: "fits (length (concat ds)) \<Longrightarrow> rep (foldl input init ds) (concat ds)"
  using rep_pieces [OF rep_init] by simp

end

end
