(* ===== verification/Md5.thy ===== *)
theory Md5
  imports Hash_Blocks
begin

unbundle bit_operations_syntax

text \<open>
  MD5, \<open>md5/md5.c\<close>. Words are 32 bits wide and wrap around. The state takes the message in pieces
  of any size; the lemmas show that the digest is the one of RFC 1321: all blocks of the padded
  message, in order, with the 64-bit length at the end.
\<close>

section \<open>Model\<close>

record md5_state_t =
  md5_count0 :: word32
  md5_count1 :: word32
  md5_abcd :: "word32 \<times> word32 \<times> word32 \<times> word32"
  md5_buf :: "byte list"

definition T_MASK :: word32 where
  "T_MASK = NOT 0"

definition md5_table :: "word32 list" where
  "md5_table =
     [T_MASK XOR 0x28955b87, T_MASK XOR 0x173848a9, 0x242070db, T_MASK XOR 0x3e423111,
      T_MASK XOR 0x0a83f050, 0x4787c62a, T_MASK XOR 0x57cfb9ec, T_MASK XOR 0x02b96afe,
      0x698098d8, T_MASK XOR 0x74bb0850, T_MASK XOR 0x0000a44e, T_MASK XOR 0x76a32841,
      0x6b901122, T_MASK XOR 0x02678e6c, T_MASK XOR 0x5986bc71, 0x49b40821,
      T_MASK XOR 0x09e1da9d, T_MASK XOR 0x3fbf4cbf, 0x265e5a51, T_MASK XOR 0x16493855,
      T_MASK XOR 0x29d0efa2, 0x02441453, T_MASK XOR 0x275e197e, T_MASK XOR 0x182c0437,
      0x21e1cde6, T_MASK XOR 0x3cc8f829, T_MASK XOR 0x0b2af278, 0x455a14ed,
      T_MASK XOR 0x561c16fa, T_MASK XOR 0x03105c07, 0x676f02d9, T_MASK XOR 0x72d5b375,
      T_MASK XOR 0x0005c6bd, T_MASK XOR 0x788e097e, 0x6d9d6122, T_MASK XOR 0x021ac7f3,
      T_MASK XOR 0x5b4115bb, 0x4bdecfa9, T_MASK XOR 0x0944b49f, T_MASK XOR 0x4140438f,
      0x289b7ec6, T_MASK XOR 0x155ed805, T_MASK XOR 0x2b10cf7a, 0x04881d05,
      T_MASK XOR 0x262b2fc6, T_MASK XOR 0x1924661a, 0x1fa27cf8, T_MASK XOR 0x3b53a99a,
      T_MASK XOR 0x0bd6ddbb, 0x432aff97, T_MASK XOR 0x546bdc58, T_MASK XOR 0x036c5fc6,
      0x655b59c3, T_MASK XOR 0x70f3336d, T_MASK XOR 0x00100b82, T_MASK XOR 0x7a7ba22e,
      0x6fa87e4f, T_MASK XOR 0x01d3191f, T_MASK XOR 0x5cfebceb, 0x4e0811a1,
      T_MASK XOR 0x08ac817d, T_MASK XOR 0x42c50dca, 0x2ad7d2bb, T_MASK XOR 0x14792c6e]"

definition T :: "nat \<Rightarrow> word32" where
  "T i = md5_table ! (i - 1)"

definition ROTATE_LEFT :: "word32 \<Rightarrow> nat \<Rightarrow> word32" where
  "ROTATE_LEFT x n = push_bit n x OR drop_bit (32 - n) x"

definition md5_F :: "word32 \<Rightarrow> word32 \<Rightarrow> word32 \<Rightarrow> word32" where
  "md5_F x y z = (x AND y) OR (NOT x AND z)"

definition md5_G :: "word32 \<Rightarrow> word32 \<Rightarrow> word32 \<Rightarrow> word32" where
  "md5_G x y z = (x AND z) OR (y AND NOT z)"

definition md5_H :: "word32 \<Rightarrow> word32 \<Rightarrow> word32 \<Rightarrow> word32" where
  "md5_H x y z = x XOR y XOR z"

definition md5_I :: "word32 \<Rightarrow> word32 \<Rightarrow> word32 \<Rightarrow> word32" where
  "md5_I x y z = y XOR (x OR NOT z)"

text \<open>
  \<open>SET(a, b, c, d, k, s, Ti)\<close>. The next operation has the registers in the order \<open>d a b c\<close>, so the
  result is in this order; after four operations the order is the first one again.
\<close>

type_synonym registers = "word32 \<times> word32 \<times> word32 \<times> word32"

fun SET :: "(word32 \<Rightarrow> word32 \<Rightarrow> word32 \<Rightarrow> word32) \<Rightarrow> word32 list \<Rightarrow> registers \<Rightarrow> nat \<times> nat \<times> word32 \<Rightarrow> registers" where
  "SET f X (a, b, c, d) (k, s, Ti) =
     (let t = a + f b c d + X ! k + Ti in (d, ROTATE_LEFT t s + b, b, c))"

definition md5_round1 :: "(nat \<times> nat \<times> word32) list" where
  "md5_round1 =
     [(0, 7, T 1), (1, 12, T 2), (2, 17, T 3), (3, 22, T 4),
      (4, 7, T 5), (5, 12, T 6), (6, 17, T 7), (7, 22, T 8),
      (8, 7, T 9), (9, 12, T 10), (10, 17, T 11), (11, 22, T 12),
      (12, 7, T 13), (13, 12, T 14), (14, 17, T 15), (15, 22, T 16)]"

definition md5_round2 :: "(nat \<times> nat \<times> word32) list" where
  "md5_round2 =
     [(1, 5, T 17), (6, 9, T 18), (11, 14, T 19), (0, 20, T 20),
      (5, 5, T 21), (10, 9, T 22), (15, 14, T 23), (4, 20, T 24),
      (9, 5, T 25), (14, 9, T 26), (3, 14, T 27), (8, 20, T 28),
      (13, 5, T 29), (2, 9, T 30), (7, 14, T 31), (12, 20, T 32)]"

definition md5_round3 :: "(nat \<times> nat \<times> word32) list" where
  "md5_round3 =
     [(5, 4, T 33), (8, 11, T 34), (11, 16, T 35), (14, 23, T 36),
      (1, 4, T 37), (4, 11, T 38), (7, 16, T 39), (10, 23, T 40),
      (13, 4, T 41), (0, 11, T 42), (3, 16, T 43), (6, 23, T 44),
      (9, 4, T 45), (12, 11, T 46), (15, 16, T 47), (2, 23, T 48)]"

definition md5_round4 :: "(nat \<times> nat \<times> word32) list" where
  "md5_round4 =
     [(0, 6, T 49), (7, 10, T 50), (14, 15, T 51), (5, 21, T 52),
      (12, 6, T 53), (3, 10, T 54), (10, 15, T 55), (1, 21, T 56),
      (8, 6, T 57), (15, 10, T 58), (6, 15, T 59), (13, 21, T 60),
      (4, 6, T 61), (11, 10, T 62), (2, 15, T 63), (9, 21, T 64)]"

text \<open>The block as sixteen words, least significant byte first.\<close>

definition md5_words :: "byte list \<Rightarrow> word32 list" where
  "md5_words data = map (\<lambda>i. ucast (data ! (4 * i)) + push_bit 8 (ucast (data ! (4 * i + 1))) +
     push_bit 16 (ucast (data ! (4 * i + 2))) + push_bit 24 (ucast (data ! (4 * i + 3)))) [0..<16]"

definition md5_process :: "registers \<Rightarrow> byte list \<Rightarrow> registers" where
  "md5_process abcd data =
     (let X = md5_words data;
          r = foldl (SET md5_F X) abcd md5_round1;
          r = foldl (SET md5_G X) r md5_round2;
          r = foldl (SET md5_H X) r md5_round3;
          (a, b, c, d) = foldl (SET md5_I X) r md5_round4
      in case abcd of (a0, b0, c0, d0) \<Rightarrow> (a0 + a, b0 + b, c0 + c, d0 + d))"

text \<open>The buffer is not set by \<open>md5_init\<close>; its contents are an argument.\<close>

definition md5_registers :: registers where
  "md5_registers = (0x67452301, T_MASK XOR 0x10325476, T_MASK XOR 0x67452301, 0x10325476)"

definition md5_init :: "byte list \<Rightarrow> md5_state_t" where
  "md5_init buf = \<lparr>md5_count0 = 0, md5_count1 = 0, md5_abcd = md5_registers, md5_buf = buf\<rparr>"

function md5_full_blocks :: "registers \<Rightarrow> byte list \<Rightarrow> registers \<times> byte list" where
  "md5_full_blocks abcd p =
     (if length p \<ge> 64 then md5_full_blocks (md5_process abcd (take 64 p)) (drop 64 p) else (abcd, p))"
  by pat_completeness auto
termination by (relation "measure (\<lambda>(abcd, p). length p)") auto

declare md5_full_blocks.simps [simp del]

definition md5_copy :: "byte list \<Rightarrow> nat \<Rightarrow> byte list \<Rightarrow> byte list" where
  "md5_copy buf offset p = take offset buf @ p @ drop (offset + length p) buf"

text \<open>The message length: 64 bits in two words.\<close>

definition md5_add_length :: "int \<Rightarrow> md5_state_t \<Rightarrow> md5_state_t" where
  "md5_add_length nbytes pms =
     (let nbits = word_of_int (nbytes * 8);
          pms = pms\<lparr>md5_count1 := md5_count1 pms + word_of_int (nbytes div 2 ^ 29)\<rparr>;
          pms = pms\<lparr>md5_count0 := md5_count0 pms + nbits\<rparr>
      in if md5_count0 pms < nbits then pms\<lparr>md5_count1 := md5_count1 pms + 1\<rparr> else pms)"

text \<open>\<open>data\<close> are at least \<open>nbytes\<close> bytes.\<close>

definition md5_append :: "md5_state_t \<Rightarrow> byte list \<Rightarrow> int \<Rightarrow> md5_state_t" where
  "md5_append pms data nbytes =
     (let offset = unat (drop_bit 3 (md5_count0 pms) AND 63) in
      if nbytes \<le> 0 then pms
      else
        let p = take (nat nbytes) data;
            pms = md5_add_length nbytes pms;
            copy = (if to_int32 (int offset + nbytes) > 64 then 64 - offset else nat nbytes);
            pms1 = pms\<lparr>md5_buf := md5_copy (md5_buf pms) offset (take copy p)\<rparr>
        in if offset \<noteq> 0 \<and> offset + copy < 64 then pms1
           else
             let pms = (if offset \<noteq> 0 then pms1\<lparr>md5_abcd := md5_process (md5_abcd pms1) (md5_buf pms1)\<rparr> else pms);
                 p = (if offset \<noteq> 0 then drop copy p else p);
                 (abcd, p) = md5_full_blocks (md5_abcd pms) p
             in pms\<lparr>md5_abcd := abcd, md5_buf := md5_copy (md5_buf pms) 0 p\<rparr>)"

definition md5_pad :: "byte list" where
  "md5_pad = 0x80 # replicate 63 0"

definition md5_length_bytes :: "md5_state_t \<Rightarrow> byte list" where
  "md5_length_bytes pms =
     map (\<lambda>i. ucast (drop_bit (8 * (i mod 4)) (if i div 4 = 0 then md5_count0 pms else md5_count1 pms))) [0..<8]"

definition md5_digest :: "registers \<Rightarrow> byte list" where
  "md5_digest r =
     (case r of (a, b, c, d) \<Rightarrow> map (\<lambda>i. ucast (drop_bit (8 * (i mod 4)) ([a, b, c, d] ! (i div 4)))) [0..<16])"

definition md5_finish :: "md5_state_t \<Rightarrow> byte list" where
  "md5_finish pms =
     (let data = md5_length_bytes pms;
          pms = md5_append pms md5_pad (int (unat ((55 - drop_bit 3 (md5_count0 pms)) AND 63)) + 1);
          pms = md5_append pms data 8
      in md5_digest (md5_abcd pms))"

section \<open>Lemmas\<close>

lemma md5_full_blocks_eq: "md5_full_blocks abcd p = absorb md5_process abcd p"
proof (induction abcd p rule: md5_full_blocks.induct)
  case (1 abcd p)
  then show ?case
    by (subst md5_full_blocks.simps, subst absorb.simps) (auto simp: not_less)
qed

text \<open>The two words of the length as one number.\<close>

definition md5_bits :: "md5_state_t \<Rightarrow> nat" where
  "md5_bits pms = unat (md5_count0 pms) + 2 ^ 32 * unat (md5_count1 pms)"

lemma unat_add_carry:
  fixes x y :: word32
  shows "unat (x + y) + (if x + y < y then 2 ^ 32 else 0) = unat x + unat y"
proof (cases "unat x + unat y < 2 ^ 32")
  case True
  then have "unat (x + y) = unat x + unat y" by (simp add: unat_word_ariths)
  then show ?thesis by (simp add: word_less_nat_alt)
next
  case False
  moreover have "unat x < 2 ^ 32" "unat y < 2 ^ 32" using unat_bound [of x] unat_bound [of y] by simp_all
  ultimately have "unat (x + y) = unat x + unat y - 2 ^ 32"
    by (simp add: unat_word_ariths mod_if)
  with False \<open>unat x < 2 ^ 32\<close> show ?thesis by (simp add: word_less_nat_alt)
qed

lemma combine_mod:
  fixes x y :: nat
  assumes "x < 2 ^ 32"
  shows "x + 2 ^ 32 * (y mod 2 ^ 32) = (x + 2 ^ 32 * y) mod 2 ^ 64"
  using mod_mult2_eq [of "x + 2 ^ 32 * y" "2 ^ 32" "2 ^ 32"] assms by (simp add: power_add [symmetric])

lemma md5_add_length_bits:
  assumes "0 \<le> n" "n < 2 ^ 31"
  shows "md5_bits (md5_add_length n pms) = (md5_bits pms + 8 * nat n) mod 2 ^ 64"
proof -
  let ?r = "word_of_int (n * 8) :: word32" and ?q = "word_of_int (n div 2 ^ 29) :: word32"
  let ?c = "if md5_count0 pms + ?r < ?r then 1 else 0 :: nat"
  have r: "unat ?r = 8 * nat n mod 2 ^ 32"
    using assms unat_word_of_int [of "n * 8"] by (simp add: nat_mult_distrib mult.commute del: of_int_mult)
  have q: "unat ?q = 8 * nat n div 2 ^ 32"
    using assms unat_word_of_int [of "n div 2 ^ 29"] by (simp add: nat_div_distrib)
  have c0: "unat (md5_count0 pms + ?r) + 2 ^ 32 * ?c = unat (md5_count0 pms) + 8 * nat n mod 2 ^ 32"
    using unat_add_carry [of "md5_count0 pms" ?r] r by (simp split: if_splits)
  have "md5_bits (md5_add_length n pms) =
      unat (md5_count0 pms + ?r) + 2 ^ 32 * ((unat (md5_count1 pms) + 8 * nat n div 2 ^ 32 + ?c) mod 2 ^ 32)"
    using q by (simp add: md5_bits_def md5_add_length_def Let_def unat_word_ariths mod_simps)
  also have "\<dots> = (unat (md5_count0 pms + ?r) + 2 ^ 32 * (unat (md5_count1 pms) + 8 * nat n div 2 ^ 32 + ?c)) mod 2 ^ 64"
    using unat_bound [of "md5_count0 pms + ?r"] by (intro combine_mod) simp
  also have "unat (md5_count0 pms + ?r) + 2 ^ 32 * (unat (md5_count1 pms) + 8 * nat n div 2 ^ 32 + ?c) =
      md5_bits pms + 8 * nat n"
    using c0 div_mult_mod_eq [of "8 * nat n" "2 ^ 32"] by (simp add: md5_bits_def algebra_simps)
  finally show ?thesis .
qed

lemma md5_add_length_fields [simp]:
  "md5_abcd (md5_add_length n pms) = md5_abcd pms" "md5_buf (md5_add_length n pms) = md5_buf pms"
  by (simp_all add: md5_add_length_def Let_def)

text \<open>A state that has read the message \<open>m\<close>.\<close>

definition md5_rep :: "md5_state_t \<Rightarrow> byte list \<Rightarrow> bool" where
  "md5_rep pms m =
     (length (md5_buf pms) = 64 \<and> md5_bits pms = 8 * length m mod 2 ^ 64 \<and>
      absorb md5_process md5_registers m = (md5_abcd pms, take (length m mod 64) (md5_buf pms)))"

lemma md5_rep_init: "length buf = 64 \<Longrightarrow> md5_rep (md5_init buf) []"
  by (simp add: md5_rep_def md5_init_def md5_bits_def absorb_short)

lemma md5_count0_eq: "md5_rep pms m \<Longrightarrow> unat (md5_count0 pms) = 8 * length m mod 2 ^ 32"
proof -
  assume "md5_rep pms m"
  then have "md5_bits pms mod 2 ^ 32 = 8 * length m mod 2 ^ 64 mod 2 ^ 32" by (simp add: md5_rep_def)
  moreover have "md5_bits pms mod 2 ^ 32 = unat (md5_count0 pms)"
    using unat_bound [of "md5_count0 pms"] by (simp add: md5_bits_def)
  moreover have "8 * length m mod 2 ^ 64 mod 2 ^ 32 = 8 * length m mod 2 ^ 32"
    by (rule mod_mod_cancel) (simp add: le_imp_power_dvd)
  ultimately show ?thesis by simp
qed

lemma bytes_mod: "8 * n mod 2 ^ 32 div 8 mod 64 = n mod (64 :: nat)"
proof -
  have "8 * n mod 2 ^ 32 = 8 * (n mod 2 ^ 29)" using mult_mod_right [of 8 n "2 ^ 29"] by simp
  then show ?thesis by (simp add: mod_mod_cancel)
qed

lemma md5_offset:
  "md5_rep pms m \<Longrightarrow> unat (drop_bit 3 (md5_count0 pms) AND 63) = length m mod 64"
  using bytes_mod [of "length m"] by (simp add: unat_and_63 unat_drop_bit md5_count0_eq)

lemma length_md5_copy: "length buf = 64 \<Longrightarrow> offset + length p \<le> 64 \<Longrightarrow> length (md5_copy buf offset p) = 64"
  by (simp add: md5_copy_def)

lemma take_md5_copy:
  "length buf = 64 \<Longrightarrow> offset + length p \<le> 64 \<Longrightarrow> take (offset + length p) (md5_copy buf offset p) = take offset buf @ p"
  by (simp add: md5_copy_def)

lemma take_copy_0 [simp]: "take (length p) (md5_copy buf 0 p) = p"
  by (simp add: md5_copy_def)

lemma md5_rep_append:
  assumes rep: "md5_rep pms m" and d: "take (nat n) data = d" "int (length d) = n" "n < 2 ^ 31 - 64"
  shows "md5_rep (md5_append pms data n) (m @ d)"
proof (cases "n \<le> 0")
  case True
  then show ?thesis using rep d by (simp add: md5_append_def)
next
  case False
  let ?off = "length m mod 64" and ?pms = "md5_add_length n pms"
  let ?r = "take ?off (md5_buf pms)"
  have off: "unat (drop_bit 3 (md5_count0 pms) AND 63) = ?off" by (rule md5_offset [OF rep])
  have buf: "length (md5_buf pms) = 64" and r: "length ?r = ?off" and off64: "?off < 64"
    using rep by (simp_all add: md5_rep_def)
  have n: "nat n = length d" using d(2) by simp
  have bits: "md5_bits ?pms = 8 * length (m @ d) mod 2 ^ 64"
    using md5_add_length_bits [of n pms] False d rep
    by (simp add: md5_rep_def n mod_simps algebra_simps)
  have small: "to_int32 (int ?off + n) = int (?off + length d)"
  proof -
    have "int k + n = int (k + length d)" "- (2 ^ 31) \<le> int k + n" "int k + n < 2 ^ 31" if "k < 64" for k
      using d(2,3) that by simp_all
    with off64 show ?thesis by (metis to_int32_id)
  qed
  have absorb: "absorb md5_process md5_registers (m @ d) = absorb md5_process (md5_abcd pms) (?r @ d)"
    using rep by (subst absorb_append) (simp add: md5_rep_def)
  have rest: "length (snd (absorb md5_process h p)) = length p mod 64" for h p by (rule absorb_rest)
  have tail: "md5_rep (pms'\<lparr>md5_abcd := fst (absorb md5_process h p),
      md5_buf := md5_copy b 0 (snd (absorb md5_process h p))\<rparr>) (m @ d)"
    if "absorb md5_process (md5_abcd pms) (?r @ d) = absorb md5_process h p" "length b = 64"
      "md5_bits pms' = md5_bits ?pms" for pms' b h p
  proof -
    have len: "length (m @ d) mod 64 = length (snd (absorb md5_process h p))"
      using rest [of md5_registers "m @ d"] absorb that(1) by simp
    then have "length (snd (absorb md5_process h p)) \<le> 64" by simp
    then show ?thesis
      using that bits absorb len
      by (simp add: md5_rep_def md5_bits_def length_md5_copy prod_eq_iff del: length_append)
  qed
  consider "?off = 0" | "?off \<noteq> 0" "?off + length d < 64" | "?off \<noteq> 0" "64 \<le> ?off + length d" by linarith
  then show ?thesis
  proof cases
    case 1
    then show ?thesis
      using tail [of "md5_abcd pms" d "md5_buf pms" ?pms] False buf
      by (simp add: md5_append_def off Let_def md5_full_blocks_eq d(1) split_beta)
  next
    case 2
    then have "absorb md5_process md5_registers (m @ d) = (md5_abcd pms, ?r @ d)"
      using absorb r by (simp add: absorb_short)
    moreover have "length (m @ d) mod 64 = ?off + length d"
      using mod_add_left_eq [of "length m" 64 "length d"] mod_less [OF 2(2)] by (metis length_append)
    ultimately show ?thesis
      using 2 False bits buf small d(1)
      by (simp add: md5_append_def off Let_def n md5_rep_def md5_bits_def length_md5_copy take_md5_copy)
  next
    case 3
    let ?copy = "64 - ?off"
    have copy: "(if to_int32 (int ?off + n) > 64 then 64 - ?off else nat n) = ?copy" "?copy \<le> length d"
      using 3 small off64 n by auto
    let ?b = "md5_copy (md5_buf pms) ?off (take ?copy d)"
    have b: "?b = ?r @ take ?copy d" "length ?b = 64" using copy(2) buf off64 by (auto simp: md5_copy_def)
    have step: "absorb md5_process (md5_abcd pms) (?r @ d) = absorb md5_process (md5_process (md5_abcd pms) ?b) (drop ?copy d)"
      using 3 r b by (subst absorb_block) auto
    show ?thesis
      using tail [OF step b(2), of "?pms\<lparr>md5_buf := ?b, md5_abcd := md5_process (md5_abcd pms) ?b\<rparr>"] 3(1) False off64
      by (simp add: md5_append_def off copy(1) Let_def md5_full_blocks_eq d(1) split_beta md5_bits_def)
  qed
qed

text \<open>The digest of RFC 1321.\<close>

definition md5_spec :: "byte list \<Rightarrow> byte list" where
  "md5_spec m = md5_digest (fst (absorb md5_process md5_registers (padded le64 m)))"

lemma md5_count1_eq: "md5_rep pms m \<Longrightarrow> unat (md5_count1 pms) = 8 * length m div 2 ^ 32 mod 2 ^ 32"
proof -
  assume "md5_rep pms m"
  then have "md5_bits pms div 2 ^ 32 = 8 * length m mod 2 ^ 64 div 2 ^ 32" by (simp add: md5_rep_def)
  moreover have "md5_bits pms div 2 ^ 32 = unat (md5_count1 pms)"
    using unat_bound [of "md5_count0 pms"] by (simp add: md5_bits_def)
  moreover have "drop_bit 32 (take_bit 64 k) = take_bit 32 (drop_bit 32 k)" for k :: nat
    by (simp add: drop_bit_take_bit)
  ultimately show ?thesis by (simp add: take_bit_eq_mod drop_bit_eq_div)
qed

lemma md5_length_bytes_eq:
  assumes "md5_rep pms m"
  shows "md5_length_bytes pms = le64 (8 * length m)"
proof -
  let ?n = "8 * length m"
  have "(ucast (drop_bit (8 * (i mod 4)) (if i div 4 = 0 then md5_count0 pms else md5_count1 pms)) :: byte) =
      word_of_nat (?n div 2 ^ (8 * i))" if "i < 8" for i
  proof (cases "i < 4")
    case True
    then have "?n mod 2 ^ 32 div 2 ^ (8 * i) mod 256 = ?n div 2 ^ (8 * i) mod 256" by (intro digits_mod) simp
    then have "(word_of_nat (?n mod 2 ^ 32 div 2 ^ (8 * i)) :: byte) = word_of_nat (?n div 2 ^ (8 * i))"
      by (rule byte_mod_eq)
    moreover have "i mod 4 = i" "i div 4 = 0" using True by simp_all
    ultimately show ?thesis by (simp only: byte_of_count md5_count0_eq [OF assms] simp_thms if_True)
  next
    case False
    then obtain j where "i = 4 + j" using le_Suc_ex [of 4 i] by auto
    with that have j: "i = 4 + j" "j < 4" by simp_all
    then have "?n div 2 ^ 32 mod 2 ^ 32 div 2 ^ (8 * j) mod 256 = ?n div 2 ^ 32 div 2 ^ (8 * j) mod 256"
      by (intro digits_mod) simp
    moreover have "?n div 2 ^ 32 div 2 ^ (8 * j) = ?n div 2 ^ (8 * i)"
      by (simp add: j div_mult2_eq power_add)
    ultimately have "(word_of_nat (?n div 2 ^ 32 mod 2 ^ 32 div 2 ^ (8 * j)) :: byte) = word_of_nat (?n div 2 ^ (8 * i))"
      by (metis byte_mod_eq)
    moreover have "i mod 4 = j" "i div 4 = 1" using j by simp_all
    ultimately show ?thesis
      by (simp only: byte_of_count md5_count1_eq [OF assms] one_neq_zero if_False)
  qed
  then show ?thesis by (auto simp: md5_length_bytes_def le64_def)
qed

lemma md5_pad_size:
  assumes "md5_rep pms m"
  shows "unat ((55 - drop_bit 3 (md5_count0 pms)) AND 63) = pad_zeros (length m)"
proof -
  let ?w = "drop_bit 3 (md5_count0 pms)"
  have w: "uint ?w mod 64 = int (length m) mod 64"
  proof -
    have "unat ?w mod 64 = length m mod 64"
      using bytes_mod [of "length m"] by (simp add: unat_drop_bit md5_count0_eq [OF assms])
    then have "int (unat ?w) mod 64 = int (length m) mod 64" by (metis of_nat_mod of_nat_numeral)
    then show ?thesis by simp
  qed
  have "uint (55 - ?w) mod 64 = (55 - uint ?w) mod 2 ^ 32 mod 64"
    by (simp add: uint_word_ariths)
  also have "\<dots> = (55 - uint ?w) mod 64" by (rule mod_mod_cancel) simp
  also have "\<dots> = (55 - int (length m)) mod 64" using w by (rule mod_diff_cong [OF refl])
  finally have "nat (uint (55 - ?w) mod 64) = nat ((55 - int (length m)) mod 64)" by simp
  then show ?thesis by (simp add: unat_and_63 pad_zeros_def nat_mod_distrib)
qed

lemma md5_finish_eq:
  assumes "md5_rep pms m"
  shows "md5_finish pms = md5_spec m"
proof -
  let ?z = "pad_zeros (length m)" and ?d = "le64 (8 * length m)"
  have z: "?z < 64" by (simp add: pad_zeros_def)
  have pad: "take (nat (int ?z + 1)) md5_pad = 0x80 # replicate ?z 0"
    using z by (simp add: md5_pad_def nat_add_distrib)
  have "md5_rep (md5_append pms md5_pad (int ?z + 1)) (m @ 0x80 # replicate ?z 0)"
    by (rule md5_rep_append [OF assms pad]) (use z in simp_all)
  then have "md5_rep (md5_append (md5_append pms md5_pad (int ?z + 1)) ?d 8) ((m @ 0x80 # replicate ?z 0) @ ?d)"
    by (rule md5_rep_append) (simp_all add: le64_def)
  then show ?thesis
    by (simp add: md5_finish_def Let_def md5_length_bytes_eq [OF assms] md5_pad_size [OF assms] md5_rep_def
        md5_spec_def padded_def)
qed

definition md5_fits :: "nat \<Rightarrow> bool" where
  "md5_fits n = (n < 2 ^ 31 - 64)"

interpretation md5: streaming_hash "md5_init (replicate 64 0)" "\<lambda>pms d. md5_append pms d (int (length d))"
  md5_rep md5_fits
  by unfold_locales (simp_all add: md5_rep_init md5_fits_def md5_rep_append)

section \<open>Properties\<close>

text \<open>
  C23: however a message is cut into pieces for \<open>md5_append\<close>, \<open>md5_finish\<close> gives its MD5 digest as
  RFC 1321 defines it: the registers after all blocks of the message padded with a bit, zeros and
  the 64-bit length. The message has less than \<open>2 ^ 31 - 64\<close> bytes.
\<close>

theorem md5_pieces:
  assumes "length (concat pieces) < 2 ^ 31 - 64"
  shows "md5_finish (foldl (\<lambda>pms d. md5_append pms d (int (length d))) (md5_init (replicate 64 0)) pieces) =
    md5_spec (concat pieces)"
  using md5.rep_message [of pieces] assms by (simp add: md5_fits_def md5_finish_eq)

text \<open>With the digest that the RFC lists for the message \<open>abc\<close>.\<close>

theorem md5_pieces_witness:
  "md5_spec (map byte_of_char ''abc'') =
     [0x90, 0x01, 0x50, 0x98, 0x3C, 0xD2, 0x4F, 0xB0, 0xD6, 0x96, 0x3F, 0x7D, 0x28, 0xE1, 0x7F, 0x72]"
proof -
  let ?ps = "[map byte_of_char ''a'', [], map byte_of_char ''bc'']"
  have "length (concat ?ps) < 2 ^ 31 - 64" "concat ?ps = map byte_of_char ''abc''" by simp_all
  moreover have "md5_finish (foldl (\<lambda>pms d. md5_append pms d (int (length d))) (md5_init (replicate 64 0)) ?ps) =
      [0x90, 0x01, 0x50, 0x98, 0x3C, 0xD2, 0x4F, 0xB0, 0xD6, 0x96, 0x3F, 0x7D, 0x28, 0xE1, 0x7F, 0x72]"
    by code_simp
  ultimately show ?thesis using md5_pieces [of ?ps] by (simp only:)
qed

end
