(* ===== verification/Format_Common.thy ===== *)
theory Format_Common
  imports Cmd Md5
begin

text \<open>
  What the output formats share, \<open>formats/common.c\<close>: the ETag of a body, the length of a printed
  integer, and \<open>format_send_reply\<close>, which answers a request, a WebSocket message or a
  subscription.
\<close>

section \<open>ETags\<close>

text \<open>\<open>%.2x\<close> of a byte.\<close>

definition hex_byte :: "byte \<Rightarrow> string" where
  "hex_byte b = [xdigit (unat b div 16), xdigit (unat b mod 16)]"

text \<open>The number of bytes is cast to an \<open>int\<close>. The buffer of the MD5 state is uninitialised.\<close>

definition etag_of :: "string \<Rightarrow> string" where
  "etag_of p =
     (let pms = md5_init (replicate 64 0);
          pms = md5_append pms (map byte_of_char p) (to_int32 (int (length p)))
      in DQUOTE # concat (map hex_byte (md5_finish pms)) @ [DQUOTE])"

definition etag_new :: "string \<Rightarrow> world \<Rightarrow> string option \<times> world" where
  "etag_new p w = (let (ok, w) = sys_alloc w in (if ok then Some (etag_of p) else None, w))"

section \<open>Replies\<close>

text \<open>The headers of a reply with a body, after \<open>http_response_init\<close>.\<close>

definition disposition_header :: "cmd \<Rightarrow> http_response \<Rightarrow> http_response" where
  "disposition_header c r =
     (case cmd_filename c of
        Some f \<Rightarrow> http_response_set_header r ''Content-Disposition'' f HEADER_COPY_VALUE | None \<Rightarrow> r)"

definition send_stream_start :: "cmd \<Rightarrow> string \<Rightarrow> string \<Rightarrow> world \<Rightarrow> world option" where
  "send_stream_start c p ct w =
     do { let (resp, w) = http_response_init (cmd_w c) 200 (Some ''OK'') w;
       rp \<leftarrow> resp;
       w \<leftarrow> upd_resp rp (\<lambda>r.
         let r = disposition_header c (r\<lparr>r_http_version := cmd_http_version c\<rparr>);
             r = http_response_set_header r ''Content-Type'' ct HEADER_COPY_VALUE;
             r = http_response_set_keep_alive r True;
             r = http_response_set_header r ''Transfer-Encoding'' ''chunked'' HEADER_COPY_NONE
         in http_response_set_body r (Some p)) w;
       http_response_write rp (cmd_fd c) w }"

definition same_etag :: "cmd \<Rightarrow> string \<Rightarrow> bool" where
  "same_etag c etag = (case cmd_if_none_match c of Some m \<Rightarrow> strcmp m etag = 0 | None \<Rightarrow> False)"

definition send_with_etag :: "cmd \<Rightarrow> string \<Rightarrow> string \<Rightarrow> string \<Rightarrow> world \<Rightarrow> world option" where
  "send_with_etag c p ct etag w =
     do { let (resp, w) = (if same_etag c etag then http_response_init (cmd_w c) 304 (Some ''Not Modified'') w
                           else http_response_init (cmd_w c) 200 (Some ''OK'') w);
       rp \<leftarrow> resp;
       w \<leftarrow> upd_resp rp (\<lambda>r.
         let r = (if same_etag c etag then r
                  else let r = disposition_header c r;
                         r = http_response_set_header r ''Content-Type'' ct HEADER_COPY_VALUE;
                         r = http_response_set_header r ''ETag'' etag HEADER_COPY_VALUE
                    in http_response_set_body r (Some p))
         in http_response_set_keep_alive (r\<lparr>r_http_version := cmd_http_version c\<rparr>) (cmd_keep_alive c)) w;
       http_response_write rp (cmd_fd c) w }"

text \<open>When the ETag cannot be allocated, \<open>format_send_error\<close> frees the command before the cleanup does.\<close>

definition format_send_reply :: "ptr \<Rightarrow> string \<Rightarrow> string \<Rightarrow> world \<Rightarrow> world option" where
  "format_send_reply p body content_type w =
     do { c \<leftarrow> w_cmds w p;
       let ct = (case cmd_mime c of Some m \<Rightarrow> m | None \<Rightarrow> content_type);
       if cmd_is_websocket c
       then do { cp \<leftarrow> cmd_http_client c; client \<leftarrow> w_clients w cp; wp \<leftarrow> hc_ws client;
         (_, w) \<leftarrow> ws_frame_and_send_response wp WS_BINARY_FRAME body w;
         if cmd_is_subscribe c then Some w else cmd_free (Some p) w }
       else if cmd_is_subscribe c
       then (if \<not> cmd_started_responding c
             then send_stream_start c body ct (put_cmd p (c\<lparr>cmd_started_responding := True\<rparr>) w)
             else http_response_write_chunk (cmd_fd c) (cmd_w c) body w)
       else do {
         let (etag, w) = etag_new body w;
         w \<leftarrow> (case etag of
                Some etag \<Rightarrow> send_with_etag c body ct etag w
              | None \<Rightarrow> format_send_error p 503 ''Service Unavailable'' w);
         cmd_free (Some p) w } }"

section \<open>Printed integers\<close>

text \<open>The absolute value is stored in an \<open>int\<close>.\<close>

function count_digits :: "int \<Rightarrow> nat" where
  "count_digits ci = (if ci > 0 then Suc (count_digits (ci div 10)) else 0)"
  by pat_completeness auto
termination by (relation "measure nat") auto

declare count_digits.simps [simp del]

definition integer_length :: "int \<Rightarrow> nat" where
  "integer_length i =
     (if i = 0 then 1
      else if i < 0 then Suc (count_digits (to_int32 (abs i)))
      else count_digits (to_int32 (abs i)))"

section \<open>Lemmas: printed integers\<close>

lemma count_digits_show: "count_digits (int n) = (if n = 0 then 0 else length (show_nat n))"
proof (induction n rule: show_nat.induct)
  case (1 n)
  show ?case
  proof (cases "n < 10")
    case True
    then have "count_digits (int n div 10) = 0" by (simp add: count_digits.simps)
    with True show ?thesis by (subst count_digits.simps, subst show_nat.simps) simp
  next
    case False
    then have "count_digits (int (n div 10)) = length (show_nat (n div 10))" using 1 by simp
    with False show ?thesis by (subst count_digits.simps, subst show_nat.simps) (simp add: zdiv_int)
  qed
qed

lemma integer_length_show:
  assumes "\<bar>i\<bar> < 2 ^ 31"
  shows "integer_length i = length (show_int i)"
proof -
  have "to_int32 \<bar>i\<bar> = int (nat \<bar>i\<bar>)" using assms by (simp add: to_int32_id)
  then show ?thesis
    using count_digits_show [of "nat \<bar>i\<bar>"]
    by (auto simp: integer_length_def show_int_def show_nat.simps [of 0])
qed

lemma integer_length_nat: "n < 2 ^ 31 \<Longrightarrow> integer_length (int n) = length (show_nat n)"
  using integer_length_show [of "int n"] by (simp add: show_int_def)

end
