(* ===== verification/Format_Raw.thy ===== *)
theory Format_Raw
  imports Format_Common
begin

text \<open>
  The raw output format, \<open>formats/raw.c\<close>, which prints a reply in the protocol of Redis.

  The functions compute the size of their output with \<open>integer_length\<close>, allocate, and then print.
  A buffer is its capacity and what has been written so far; a write behind the capacity is a
  fault. \<open>sprintf\<close> needs a byte more for its NUL.
\<close>

section \<open>Buffers\<close>

definition buf_sprintf :: "nat \<Rightarrow> string \<Rightarrow> string \<Rightarrow> string option" where
  "buf_sprintf cap s buf = (if length buf + length s + 1 \<le> cap then Some (buf @ s) else None)"

definition buf_memcpy :: "nat \<Rightarrow> string \<Rightarrow> string \<Rightarrow> string option" where
  "buf_memcpy cap s buf = (if length buf + length s \<le> cap then Some (buf @ s) else None)"

section \<open>Printing replies\<close>

fun raw_element_size :: "redisReply \<Rightarrow> nat" where
  "raw_element_size (REDIS_REPLY_STRING s) = 1 + integer_length (int (length s)) + 2 + length s + 2"
| "raw_element_size (REDIS_REPLY_INTEGER i) =
     1 + integer_length (int (integer_length i)) + 2 + integer_length i + 2"
| "raw_element_size _ = 0"

definition raw_array_size :: "redisReply list \<Rightarrow> nat" where
  "raw_array_size es = 1 + integer_length (int (length es)) + 2 + sum_list (map raw_element_size es)"

fun raw_element :: "nat \<Rightarrow> redisReply \<Rightarrow> string \<Rightarrow> string option" where
  "raw_element cap (REDIS_REPLY_STRING s) buf =
     do { buf \<leftarrow> buf_sprintf cap (CHR ''$'' # show_nat (length s) @ CRLF) buf;
       buf_memcpy cap (s @ CRLF) buf }"
| "raw_element cap (REDIS_REPLY_INTEGER i) buf =
     buf_sprintf cap (CHR ''$'' # show_nat (integer_length i) @ CRLF @ show_int i @ CRLF) buf"
| "raw_element cap _ buf = Some buf"

fun raw_elements :: "nat \<Rightarrow> redisReply list \<Rightarrow> string \<Rightarrow> string option" where
  "raw_elements cap [] buf = Some buf"
| "raw_elements cap (e # es) buf = do { buf \<leftarrow> raw_element cap e buf; raw_elements cap es buf }"

text \<open>The first \<open>sz\<close> bytes of the buffer are the result.\<close>

definition raw_array :: "redisReply list \<Rightarrow> string option" where
  "raw_array es =
     (let sz = raw_array_size es in
      do { buf \<leftarrow> buf_sprintf (1 + sz) (CHR ''*'' # show_nat (length es) @ CRLF) [];
        buf \<leftarrow> raw_elements (1 + sz) es buf;
        Some (slice buf 0 sz) })"

fun raw_wrap :: "redisReply \<Rightarrow> string option" where
  "raw_wrap (REDIS_REPLY_STATUS s) = Some (CHR ''+'' # s @ CRLF)"
| "raw_wrap (REDIS_REPLY_ERROR s) = Some (CHR ''-'' # s @ CRLF)"
| "raw_wrap (REDIS_REPLY_STRING s) =
     (let sz = 1 + integer_length (int (length s)) + 2 + length s + 2 in
      do { buf \<leftarrow> buf_sprintf sz (CHR ''$'' # show_nat (length s) @ CRLF) [];
        if sz < 2 + length buf then None
        else Some (buf @ slice s 0 (sz - 2 - length buf) @ CRLF) })"
| "raw_wrap (REDIS_REPLY_INTEGER i) =
     (let sz = 3 + integer_length i in
      do { buf \<leftarrow> buf_sprintf (4 + sz) (CHR '':'' # show_int i @ CRLF) [];
        Some (slice buf 0 sz) })"
| "raw_wrap (REDIS_REPLY_ARRAY es) = raw_array es"
| "raw_wrap _ = Some (''$-1'' @ CRLF)"

definition raw_reply :: "redisReply option \<Rightarrow> ptr \<Rightarrow> world \<Rightarrow> world option" where
  "raw_reply reply p w =
     (case reply of
        None \<Rightarrow> format_send_error p 503 ''Service Unavailable'' w
      | Some r \<Rightarrow> do { raw_out \<leftarrow> raw_wrap r; format_send_reply p raw_out ''binary/octet-stream'' w })"

section \<open>WebSocket messages\<close>

definition raw_ws_error :: "int \<Rightarrow> string \<Rightarrow> string" where
  "raw_ws_error http_status msg = ''-ERR '' @ msg @ CRLF"

text \<open>
  The arguments of a command in a message, from the reply the protocol reader gives. The buffer of
  an integer has room for \<open>integer_length\<close> characters and a NUL.
\<close>

fun raw_ws_arg :: "redisReply \<Rightarrow> (string option) option" where
  "raw_ws_arg (REDIS_REPLY_STRING s) = Some (Some s)"
| "raw_ws_arg (REDIS_REPLY_INTEGER i) =
     do { buf \<leftarrow> buf_sprintf (integer_length i + 1) (show_int i) []; Some (Some (slice buf 0 (integer_length i))) }"
| "raw_ws_arg _ = Some None"

fun raw_ws_fill :: "redisReply list \<Rightarrow> nat \<Rightarrow> ptr \<Rightarrow> world \<Rightarrow> (ptr option \<times> world) option" where
  "raw_ws_fill [] i p w = Some (Some p, w)"
| "raw_ws_fill (e # es) i p w =
     do { arg \<leftarrow> raw_ws_arg e;
       (case arg of
          Some s \<Rightarrow> do { w \<leftarrow> upd_cmd p (\<lambda>c. c\<lparr>cmd_argv := (cmd_argv c)[i := s]\<rparr>) w; raw_ws_fill es (Suc i) p w }
        | None \<Rightarrow> do { w \<leftarrow> cmd_free (Some p) w; Some (None, w) }) }"

text \<open>
  The message is fed to a new protocol reader. A message that is not complete makes
  \<open>redisReaderGetReply\<close> succeed without a reply, and the code then reads the type of that reply.
\<close>

definition raw_ws_extract :: "ptr \<Rightarrow> string \<Rightarrow> world \<Rightarrow> (ptr option \<times> world) option" where
  "raw_ws_extract cp bytes w =
     (case fst (redisReaderGetReply (redisReaderFeed redisReaderCreate bytes)) of
        Inl e \<Rightarrow> Some (None, w)
      | Inr None \<Rightarrow> None
      | Inr (Some (REDIS_REPLY_ARRAY es)) \<Rightarrow>
          do { (p, w) \<leftarrow> cmd_new (Some cp) (length es) w; raw_ws_fill es 0 p w }
      | Inr (Some _) \<Rightarrow> Some (None, w))"

section \<open>Lemmas\<close>

text \<open>What a client of the raw format gets: the integers of an array arrive as strings.\<close>

fun raw_element_view :: "redisReply \<Rightarrow> redisReply" where
  "raw_element_view (REDIS_REPLY_INTEGER i) = REDIS_REPLY_STRING (show_int i)"
| "raw_element_view v = v"

fun raw_view :: "redisReply \<Rightarrow> redisReply" where
  "raw_view (REDIS_REPLY_ARRAY es) = REDIS_REPLY_ARRAY (map raw_element_view es)"
| "raw_view v = v"

fun raw_element_ok :: "redisReply \<Rightarrow> bool" where
  "raw_element_ok (REDIS_REPLY_STRING s) = (length s < 2 ^ 31)"
| "raw_element_ok (REDIS_REPLY_INTEGER i) = (\<bar>i\<bar> < 2 ^ 31)"
| "raw_element_ok _ = False"

fun raw_ok :: "redisReply \<Rightarrow> bool" where
  "raw_ok (REDIS_REPLY_STATUS s) = (CR \<notin> set s)"
| "raw_ok (REDIS_REPLY_ERROR s) = (CR \<notin> set s)"
| "raw_ok (REDIS_REPLY_ARRAY es) = (list_all raw_element_ok es \<and> length es < 2 ^ 31)"
| "raw_ok REDIS_REPLY_NIL = True"
| "raw_ok v = raw_element_ok v"

lemma integer_length_len: "n < 2 ^ 31 \<Longrightarrow> integer_length (int n) = length (show_int (int n))"
  by (simp add: integer_length_nat show_int_def)

lemma raw_element_resp:
  assumes "raw_element_ok e"
  shows "raw_element_size e = length (resp (raw_element_view e)) \<and>
    (length buf + length (resp (raw_element_view e)) < cap \<longrightarrow> raw_element cap e buf = Some (buf @ resp (raw_element_view e)))"
  using assms
proof (cases e)
  case (REDIS_REPLY_STRING s)
  with assms show ?thesis
    by (auto simp: buf_sprintf_def buf_memcpy_def integer_length_len) (simp_all add: show_int_def)
next
  case (REDIS_REPLY_INTEGER i)
  moreover have l: "integer_length i = length (show_int i)" using assms REDIS_REPLY_INTEGER by (intro integer_length_show) simp
  moreover have "length (show_int i) < 2 ^ 31"
  proof -
    have "nat \<bar>i\<bar> < 10 ^ 10" using assms REDIS_REPLY_INTEGER by simp
    then have "length (show_nat (nat \<bar>i\<bar>)) \<le> 10" by (intro length_show_nat_le) simp_all
    then show ?thesis by (auto simp: show_int_def)
  qed
  ultimately show ?thesis
    by (simp add: buf_sprintf_def integer_length_len) (simp add: show_int_def [of "int _"])
qed simp_all

lemma raw_elements_resp:
  assumes "list_all raw_element_ok es"
  shows "sum_list (map raw_element_size es) = length (concat (map resp (map raw_element_view es))) \<and>
    (length buf + length (concat (map resp (map raw_element_view es))) < cap \<longrightarrow>
      raw_elements cap es buf = Some (buf @ concat (map resp (map raw_element_view es))))"
  using assms
proof (induction es arbitrary: buf)
  case (Cons e es)
  then show ?case
    using raw_element_resp [of e buf cap] Cons.IH [of "buf @ resp (raw_element_view e)"] by simp
qed simp

lemma raw_wrap_resp: "raw_ok v \<Longrightarrow> raw_wrap v = Some (resp (raw_view v))"
proof (cases v)
  case (REDIS_REPLY_ARRAY es)
  assume "raw_ok v"
  with REDIS_REPLY_ARRAY have es: "list_all raw_element_ok es" "length es < 2 ^ 31" by simp_all
  have "raw_array_size es = length (resp (raw_view v))"
    using raw_elements_resp [OF es(1)] es(2) REDIS_REPLY_ARRAY by (simp add: raw_array_size_def integer_length_len)
  moreover have "buf_sprintf (1 + length (resp (raw_view v))) (CHR ''*'' # show_nat (length es) @ CRLF) [] =
      Some (CHR ''*'' # show_nat (length es) @ CRLF)"
    using REDIS_REPLY_ARRAY by (simp add: buf_sprintf_def show_int_def)
  ultimately show ?thesis
    using REDIS_REPLY_ARRAY raw_elements_resp [OF es(1), of "CHR ''*'' # show_nat (length es) @ CRLF" "1 + length (resp (raw_view v))"]
    by (simp add: raw_array_def Let_def) (simp add: show_int_def slice_eq_take_drop)
next
  case (REDIS_REPLY_STRING s)
  assume "raw_ok v"
  with REDIS_REPLY_STRING show ?thesis
    by (simp add: Let_def buf_sprintf_def integer_length_nat show_int_def)
next
  case (REDIS_REPLY_INTEGER i)
  assume "raw_ok v"
  with REDIS_REPLY_INTEGER have "integer_length i = length (show_int i)" by (intro integer_length_show) simp
  with REDIS_REPLY_INTEGER show ?thesis by (simp add: Let_def buf_sprintf_def slice_eq_take_drop)
qed simp_all

lemma resp_ok_raw_view: "raw_ok v \<Longrightarrow> resp_ok (raw_view v)"
proof (cases v)
  case (REDIS_REPLY_ARRAY es)
  have "raw_element_ok e \<Longrightarrow> resp_ok (raw_element_view e)" for e by (cases e) simp_all
  moreover assume "raw_ok v"
  ultimately show ?thesis using REDIS_REPLY_ARRAY by (auto simp: list_all_iff)
qed (auto simp: int64_def)

lemma integer_length_large:
  assumes "2 ^ 31 \<le> i" "i < 2 ^ 32"
  shows "integer_length i = 0"
proof -
  have "(i + 2 ^ 31) mod 2 ^ 32 = (i + 2 ^ 31 - 2 ^ 32) mod 2 ^ 32" by (rule minus_mod_self2 [symmetric])
  also have "\<dots> = i + 2 ^ 31 - 2 ^ 32" using assms by (intro mod_pos_pos_trivial) simp_all
  finally have "to_int32 \<bar>i\<bar> = i - 2 ^ 32" using assms by (simp add: to_int32_def)
  then show ?thesis using assms by (simp add: integer_length_def count_digits.simps)
qed

section \<open>Properties\<close>



text \<open>
  C22: Integers that do not fit an \<open>int\<close>. \<open>integer_length\<close> stores the absolute value in an \<open>int\<close>
  and counts no digit at all for an integer from \<open>2\<^sup>3\<^sup>1\<close> to \<open>2\<^sup>3\<^sup>2 - 1\<close>: \<open>raw_wrap\<close> allocates 7 bytes
  and prints more into them, and a WebSocket message with such an integer overruns its argument.
\<close>

theorem raw_integer_overrun:
  assumes "2 ^ 31 \<le> i" "i < 2 ^ 32"
  shows "raw_wrap (REDIS_REPLY_INTEGER i) = None \<and> raw_ws_arg (REDIS_REPLY_INTEGER i) = None"
proof -
  have "(10 :: nat) ^ 9 \<le> nat i" using assms by simp
  then have "(10 :: nat) ^ 9 < 10 ^ length (show_nat (nat i))" using show_nat_less [of "nat i"] by linarith
  then have "9 < length (show_nat (nat i))" by (rule power_less_imp_less_exp [rotated]) simp
  then have "9 < length (show_int i)" using assms by (simp add: show_int_def)
  then show ?thesis using integer_length_large [OF assms] by (auto simp: Let_def buf_sprintf_def)
qed

theorem raw_integer_overrun_witness:
  "raw_wrap (REDIS_REPLY_INTEGER 3000000000) = None \<and> raw_ws_arg (REDIS_REPLY_INTEGER 3000000000) = None"
  by (rule raw_integer_overrun) simp_all

end
