(* ===== verification/Format_Custom.thy ===== *)
theory Format_Custom
  imports Format_Common
begin

text \<open>
  The output format for a content type of the client's choice, \<open>formats/custom-type.c\<close>: the
  bytes of a string as they are, and the strings of an array one after the other.
\<close>

text \<open>
  Only strings are copied. The separator, a C string, stands before every string whose index is
  not 0; the first pass computes the size of what the second pass copies.
\<close>

definition separator_of :: "cmd \<Rightarrow> string" where
  "separator_of c = (case cmd_separator c of Some s \<Rightarrow> cstr s | None \<Rightarrow> [])"

fun custom_size :: "nat \<Rightarrow> nat \<Rightarrow> redisReply list \<Rightarrow> nat" where
  "custom_size sep_len i [] = 0"
| "custom_size sep_len i (e # es) =
     (case e of REDIS_REPLY_STRING s \<Rightarrow> (if sep_len \<noteq> 0 \<and> i \<noteq> 0 then sep_len else 0) + length s | _ \<Rightarrow> 0) +
     custom_size sep_len (Suc i) es"

fun custom_copy :: "string \<Rightarrow> nat \<Rightarrow> redisReply list \<Rightarrow> string" where
  "custom_copy sep i [] = []"
| "custom_copy sep i (e # es) =
     (case e of REDIS_REPLY_STRING s \<Rightarrow> (if length sep \<noteq> 0 \<and> i \<noteq> 0 then sep else []) @ s | _ \<Rightarrow> []) @
     custom_copy sep (Suc i) es"

text \<open>The copy must not leave the buffer.\<close>

definition custom_array :: "cmd \<Rightarrow> redisReply list \<Rightarrow> string option" where
  "custom_array c es =
     (let sep = separator_of c; sz = custom_size (length sep) 0 es; out = custom_copy sep 0 es in
      if length out \<le> sz then Some (slice out 0 sz) else None)"

text \<open>The body for a reply; \<^term>\<open>None\<close> for the replies without one.\<close>

definition custom_body :: "cmd \<Rightarrow> redisReply \<Rightarrow> string option option" where
  "custom_body c r =
     (case r of
        REDIS_REPLY_STRING s \<Rightarrow> Some (Some s)
      | REDIS_REPLY_STATUS s \<Rightarrow> Some (Some (CHR ''+'' # s))
      | REDIS_REPLY_ERROR s \<Rightarrow> Some (Some (CHR ''-'' # s))
      | REDIS_REPLY_INTEGER i \<Rightarrow> Some (Some (show_int i))
      | REDIS_REPLY_ARRAY es \<Rightarrow> Some (custom_array c es)
      | _ \<Rightarrow> None)"

definition custom_bad_request :: "ptr \<Rightarrow> world \<Rightarrow> world option" where
  "custom_bad_request p w =
     do { c \<leftarrow> w_cmds w p;
       let (resp, w) = http_response_init (cmd_w c) 400 (Some ''Bad Request'') w;
       rp \<leftarrow> resp;
       w \<leftarrow> upd_resp rp (\<lambda>r.
         http_response_set_keep_alive (http_response_set_header r ''Content-Length'' ''0'' HEADER_COPY_NONE)
           (cmd_keep_alive c)) w;
       w \<leftarrow> http_response_write rp (cmd_fd c) w;
       if cmd_is_subscribe c then Some w else cmd_free (Some p) w }"

definition custom_type_reply :: "redisReply option \<Rightarrow> ptr \<Rightarrow> world \<Rightarrow> world option" where
  "custom_type_reply reply p w =
     (case reply of
        None \<Rightarrow> format_send_error p 503 ''Service Unavailable'' w
      | Some r \<Rightarrow>
          do { c \<leftarrow> w_cmds w p;
            (case cmd_mime c of
               Some mime \<Rightarrow>
                 if r = REDIS_REPLY_NIL then format_send_error p 404 ''Not found'' w
                 else (case custom_body c r of
                         Some body \<Rightarrow> do { body \<leftarrow> body; format_send_reply p body mime w }
                       | None \<Rightarrow> custom_bad_request p w)
             | None \<Rightarrow> custom_bad_request p w) })"

section \<open>Lemmas\<close>

lemma length_custom_copy: "length (custom_copy sep i es) = custom_size (length sep) i es"
  by (induction es arbitrary: i) (auto split: redisReply.split)

lemma custom_array_eq: "custom_array c es = Some (custom_copy (separator_of c) 0 es)"
  using length_custom_copy [of "separator_of c" 0 es] by (simp add: custom_array_def Let_def) (metis slice_all)

text \<open>On strings only, this is the text with the separator between the strings.\<close>

fun intercalate :: "string \<Rightarrow> string list \<Rightarrow> string" where
  "intercalate sep [] = []"
| "intercalate sep (s # ss) = s @ concat (map (\<lambda>t. sep @ t) ss)"

lemma custom_copy_strings:
  "0 < i \<Longrightarrow> custom_copy sep i (map REDIS_REPLY_STRING ss) = concat (map (\<lambda>t. sep @ t) ss)"
  by (induction ss arbitrary: i) auto

lemma custom_array_strings:
  "custom_array c (map REDIS_REPLY_STRING ss) = Some (intercalate (separator_of c) ss)"
  by (cases ss) (simp_all add: custom_array_eq custom_copy_strings)

end
