(* ===== verification/Json_Load.thy ===== *)
theory Json_Load
  imports Jansson
begin

text \<open>
  The JSON reader, \<open>jansson/src/load.c\<close>: a stream of bytes that checks UTF-8, a lexical analyser
  on top of it and a recursive descent parser. Error messages (texts, lines and columns) are left
  out; allocations succeed.

  The parser has fuel; \<open>parse_json\<close> gives it more than it can use, which is proved below. The
  lemmas show that every result is a well-formed value and that what \<open>json_dumps\<close> prints is read
  back as it was.
\<close>

section \<open>Streams\<close>

datatype stream_state = STREAM_STATE_OK | STREAM_STATE_EOF | STREAM_STATE_ERROR

text \<open>
  The buffer holds the bytes of one UTF-8 sequence, of which \<open>st_buffer\<close> is the part from
  \<open>buffer_pos\<close> on; \<open>st_data\<close> is what \<open>get\<close> has not returned yet.
\<close>

record stream_t =
  st_state :: stream_state
  st_buffer :: string
  st_data :: string

definition stream_init :: "string \<Rightarrow> stream_t" where
  "stream_init data = \<lparr>st_state = STREAM_STATE_OK, st_buffer = [], st_data = data\<rparr>"

text \<open>At the end of the data a sequence is filled up with bytes that no sequence has.\<close>

definition stream_fill :: "stream_t \<Rightarrow> stream_t" where
  "stream_fill st =
     (if st_buffer st \<noteq> [] then st
      else case st_data st of
        [] \<Rightarrow> st\<lparr>st_state := STREAM_STATE_EOF\<rparr>
      | c # data \<Rightarrow>
          if 0x80 \<le> code c
          then let count = utf8_check_first c in
            if count = 0 then st\<lparr>st_state := STREAM_STATE_ERROR, st_data := data\<rparr>
            else if length (st_data st) < count \<or> utf8_check_full (take count (st_data st)) count = None
            then st\<lparr>st_state := STREAM_STATE_ERROR, st_data := drop count (st_data st)\<rparr>
            else st\<lparr>st_buffer := take count (st_data st), st_data := drop count (st_data st)\<rparr>
          else st\<lparr>st_buffer := [c], st_data := data\<rparr>)"

text \<open>\<open>stream_get\<close> gives no byte at the end of the data and after an error.\<close>

definition stream_get :: "stream_t \<Rightarrow> char option \<times> stream_t" where
  "stream_get st =
     (if st_state st \<noteq> STREAM_STATE_OK then (None, st)
      else let st = stream_fill st in
        if st_state st \<noteq> STREAM_STATE_OK then (None, st)
        else (Some (hd (st_buffer st)), st\<lparr>st_buffer := tl (st_buffer st)\<rparr>))"

text \<open>A NUL that is put back looks like the end of the buffer.\<close>

definition stream_unget :: "char option \<Rightarrow> stream_t \<Rightarrow> stream_t" where
  "stream_unget c st =
     (case c of None \<Rightarrow> st | Some c \<Rightarrow> if c = NUL then st else st\<lparr>st_buffer := c # st_buffer st\<rparr>)"

section \<open>The lexical analyser\<close>

text \<open>The text of the current token is \<open>saved\<close>.\<close>

definition lex_get_save :: "stream_t \<Rightarrow> string \<Rightarrow> char option \<times> stream_t \<times> string" where
  "lex_get_save st saved =
     (case stream_get st of (Some c, st) \<Rightarrow> (Some c, st, saved @ [c]) | (None, st) \<Rightarrow> (None, st, saved))"

definition lex_unget_unsave :: "char option \<Rightarrow> stream_t \<Rightarrow> string \<Rightarrow> stream_t \<times> string" where
  "lex_unget_unsave c st saved = (if c = None then (st, saved) else (stream_unget c st, butlast saved))"

datatype token =
    TOKEN_INVALID
  | TOKEN_EOF
  | TOKEN_STRING string
  | TOKEN_INTEGER int
  | TOKEN_REAL string
  | TOKEN_TRUE
  | TOKEN_FALSE
  | TOKEN_NULL
  | TOKEN_CHAR char

definition is_opt :: "(char \<Rightarrow> bool) \<Rightarrow> char option \<Rightarrow> bool" where
  "is_opt p c = (case c of Some c \<Rightarrow> p c | None \<Rightarrow> False)"

definition st_size :: "stream_t \<Rightarrow> nat" where
  "st_size st = length (st_buffer st) + length (st_data st)"

lemma stream_get_Some:
  assumes "stream_get st = (Some c, st')"
  shows "st_size st' < st_size st" "st_state st' = STREAM_STATE_OK"
proof -
  have f: "stream_get st = (Some (hd (st_buffer (stream_fill st))), (stream_fill st)\<lparr>st_buffer := tl (st_buffer (stream_fill st))\<rparr>)"
    "st_state (stream_fill st) = STREAM_STATE_OK" "st_state st = STREAM_STATE_OK"
    using assms by (auto simp: stream_get_def Let_def split: if_splits)
  have "st_size (stream_fill st) = st_size st" "st_buffer (stream_fill st) \<noteq> []"
    using f(2,3) by (auto simp: stream_fill_def st_size_def utf8_check_first_def Let_def split: list.splits if_splits)
  then show "st_size st' < st_size st" "st_state st' = STREAM_STATE_OK"
    using assms f by (auto simp: st_size_def) (metis Suc_pred add_Suc length_greater_0_conv lessI)
qed

lemma lex_get_save_Some: "lex_get_save st saved = (Some c, st', saved') \<Longrightarrow> st_size st' < st_size st"
  by (auto simp: lex_get_save_def dest: stream_get_Some(1) split: prod.splits option.splits)

text \<open>A run of bytes, up to and with the first byte that does not belong to it.\<close>

function scan_while :: "(char \<Rightarrow> bool) \<Rightarrow> stream_t \<Rightarrow> string \<Rightarrow> char option \<times> stream_t \<times> string" where
  "scan_while p st saved =
     (case lex_get_save st saved of
        (Some c, st, saved) \<Rightarrow> if p c then scan_while p st saved else (Some c, st, saved)
      | (None, st, saved) \<Rightarrow> (None, st, saved))"
  by pat_completeness auto
termination by (relation "measure (\<lambda>(p, st, saved). st_size st)") (auto dest: lex_get_save_Some [OF sym])

declare scan_while.simps [simp del]

fun scan_hex :: "nat \<Rightarrow> stream_t \<Rightarrow> string \<Rightarrow> (stream_t \<times> string) option" where
  "scan_hex 0 st saved = Some (st, saved)"
| "scan_hex (Suc n) st saved =
     (case lex_get_save st saved of
        (Some c, st, saved) \<Rightarrow> if isxdigit c then scan_hex n st saved else None
      | (None, st, saved) \<Rightarrow> None)"

lemma scan_hex_size: "scan_hex n st saved = Some (st', saved') \<Longrightarrow> st_size st' \<le> st_size st"
  by (induction n arbitrary: st saved) (auto split: prod.splits option.splits if_splits dest!: lex_get_save_Some, fastforce)

text \<open>The first loop of \<open>lex_scan_string\<close>, to the closing quote; \<^term>\<open>None\<close> is an error.\<close>

definition short_escape :: "char \<Rightarrow> bool" where
  "short_escape c = (c \<in> {DQUOTE, CHR 0x5C, CHR ''/'', CHR ''b'', CHR ''f'', CHR ''n'', CHR ''r'', CHR ''t''})"

function scan_string :: "stream_t \<Rightarrow> string \<Rightarrow> (stream_t \<times> string) option" where
  "scan_string st saved =
     (case lex_get_save st saved of
        (None, st, saved) \<Rightarrow> None
      | (Some c, st, saved) \<Rightarrow>
          if c = DQUOTE then Some (st, saved)
          else if code c \<le> 0x1F then None
          else if c = CHR 0x5C
          then (case lex_get_save st saved of
                  (None, st, saved) \<Rightarrow> None
                | (Some c, st, saved) \<Rightarrow>
                    if c = CHR ''u''
                    then (case scan_hex 4 st saved of
                            None \<Rightarrow> None
                          | Some (st, saved) \<Rightarrow> scan_string st saved)
                    else if short_escape c then scan_string st saved
                    else None)
          else scan_string st saved)"
  by pat_completeness auto
termination
  by (relation "measure (\<lambda>(st, saved). st_size st)")
    (auto dest!: lex_get_save_Some [OF sym] scan_hex_size)

declare scan_string.simps [simp del]

text \<open>The value of four digits behind a \<open>u\<close>; the letters are those of \<open>l_islower\<close> and \<open>l_isupper\<close>.\<close>

definition escape_digit :: "char \<Rightarrow> nat option" where
  "escape_digit c =
     (if isdigit c then Some (code c - 48)
      else if 97 \<le> code c \<and> code c \<le> 122 then Some (code c - 97 + 10)
      else if 65 \<le> code c \<and> code c \<le> 90 then Some (code c - 65 + 10)
      else None)"

fun decode_digits :: "nat \<Rightarrow> nat \<Rightarrow> string \<Rightarrow> nat option" where
  "decode_digits 0 v s = Some v"
| "decode_digits (Suc n) v s =
     (case escape_digit (hd_c s) of None \<Rightarrow> None | Some d \<Rightarrow> decode_digits n (v * 16 + d) (tl s))"

definition decode_unicode_escape :: "string \<Rightarrow> nat option" where
  "decode_unicode_escape str = decode_digits 4 0 str"

text \<open>
  A \<open>\u\<close> escape, behind the \<open>u\<close>: the code point, from one or from two units of UTF-16, and the
  rest of the text.
\<close>

definition decode_escape :: "string \<Rightarrow> (nat \<times> string) option" where
  "decode_escape p =
     do { v \<leftarrow> decode_unicode_escape p;
       let p = drop 4 p;
       if 0xD800 \<le> v \<and> v \<le> 0xDBFF
       then (if at_c p 0 = CHR 0x5C \<and> at_c p 1 = CHR ''u''
             then do { v2 \<leftarrow> decode_unicode_escape (drop 2 p);
               if 0xDC00 \<le> v2 \<and> v2 \<le> 0xDFFF
               then Some ((v - 0xD800) * 1024 + (v2 - 0xDC00) + 0x10000, drop 6 p)
               else None }
             else None)
       else if 0xDC00 \<le> v \<and> v \<le> 0xDFFF then None
       else Some (v, p) }"

definition short_value :: "char \<Rightarrow> char" where
  "short_value c =
     (if c = CHR ''b'' then CHR 0x08 else if c = CHR ''f'' then CHR 0x0C else if c = CHR ''n'' then LF
      else if c = CHR ''r'' then CR else if c = CHR ''t'' then CHR 0x09 else c)"

text \<open>The second loop of \<open>lex_scan_string\<close>: the text behind the opening quote gives the value.\<close>

function decode_text :: "string \<Rightarrow> string option" where
  "decode_text [] = None"
| "decode_text (c # p) =
     (if c = DQUOTE then Some []
      else if c = CHR 0x5C
      then (if hd_c p = CHR ''u''
            then do { (v, r) \<leftarrow> decode_escape (tl p);
              bytes \<leftarrow> utf8_encode v;
              if length r \<le> length p then do { t \<leftarrow> decode_text r; Some (bytes @ t) } else None }
            else if short_escape (hd_c p) then do { t \<leftarrow> decode_text (tl p); Some (short_value (hd_c p) # t) }
            else None)
      else do { t \<leftarrow> decode_text p; Some (c # t) })"
  by pat_completeness auto
termination by (relation "measure length") auto

definition lex_scan_string :: "stream_t \<Rightarrow> string \<Rightarrow> token \<times> stream_t" where
  "lex_scan_string st saved =
     (case scan_string st saved of
        None \<Rightarrow> (TOKEN_INVALID, st)
      | Some (st, saved) \<Rightarrow>
          (case decode_text (tl saved) of None \<Rightarrow> (TOKEN_INVALID, st) | Some s \<Rightarrow> (TOKEN_STRING s, st)))"

text \<open>\<open>strtoll\<close> on the text of an integer, and the overflow of \<open>strtod\<close> on the text of a real.\<close>

definition json_strtoint :: "string \<Rightarrow> int option" where
  "json_strtoint s =
     (let v = (if hd_c s = CHR ''-'' then - int (read_digits (tl s)) else int (read_digits s)) in
      if - (2 ^ 63) \<le> v \<and> v < 2 ^ 63 then Some v else None)"

definition real_overflow :: "string \<Rightarrow> bool" where
  "real_overflow s =
     (let t = (if hd_c s = CHR ''-'' then tl s else s);
          whole = takeWhile isdigit t; t = dropWhile isdigit t;
          frac = (if hd_c t = CHR ''.'' then takeWhile isdigit (tl t) else []);
          t = (if hd_c t = CHR ''.'' then dropWhile isdigit (tl t) else t);
          neg = (hd_c (tl t) = CHR ''-'');
          ds = (if neg \<or> hd_c (tl t) = CHR ''+'' then tl (tl t) else tl t);
          e = (if neg then - int (read_digits ds) else int (read_digits ds)) - int (length frac);
          m = read_digits (whole @ frac)
      in if 0 \<le> e then 2 ^ 1024 - 2 ^ 970 \<le> m * 10 ^ nat e else (2 ^ 1024 - 2 ^ 970) * 10 ^ nat (- e) \<le> m)"

text \<open>The flags of \<open>json_loads\<close>.\<close>

definition has_flag :: "nat \<Rightarrow> nat \<Rightarrow> bool" where
  "has_flag flags i = odd (flags div 2 ^ i)"

definition JSON_REJECT_DUPLICATES :: nat where "JSON_REJECT_DUPLICATES = 0"
definition JSON_DISABLE_EOF_CHECK :: nat where "JSON_DISABLE_EOF_CHECK = 1"
definition JSON_DECODE_ANY :: nat where "JSON_DECODE_ANY = 2"
definition JSON_DECODE_INT_AS_REAL :: nat where "JSON_DECODE_INT_AS_REAL = 3"
definition JSON_ALLOW_NUL :: nat where "JSON_ALLOW_NUL = 4"

text \<open>The part of \<open>lex_scan_number\<close> behind the integer digits, for a real. A real is kept as its text.\<close>

definition scan_exponent :: "char option \<Rightarrow> stream_t \<Rightarrow> string \<Rightarrow> (char option \<times> stream_t \<times> string) option" where
  "scan_exponent c st saved =
     (if c = Some (CHR ''E'') \<or> c = Some (CHR ''e'')
      then let (c, st, saved) = lex_get_save st saved;
               (c, st, saved) = (if c = Some (CHR ''+'') \<or> c = Some (CHR ''-'') then lex_get_save st saved else (c, st, saved))
        in if is_opt isdigit c then Some (scan_while isdigit st saved) else None
      else Some (c, st, saved))"

definition scan_fraction :: "char option \<Rightarrow> stream_t \<Rightarrow> string \<Rightarrow> (char option \<times> stream_t \<times> string) option" where
  "scan_fraction c st saved =
     (if c = Some (CHR ''.'')
      then let (c, st) = stream_get st in
        (case c of Some d \<Rightarrow> if isdigit d then Some (scan_while isdigit st (saved @ [d])) else None | None \<Rightarrow> None)
      else Some (c, st, saved))"

definition scan_real :: "char option \<Rightarrow> stream_t \<Rightarrow> string \<Rightarrow> token \<times> stream_t" where
  "scan_real c st saved =
     (case do { (c, st, saved) \<leftarrow> scan_fraction c st saved; scan_exponent c st saved } of
        None \<Rightarrow> (TOKEN_INVALID, st)
      | Some (c, st, saved) \<Rightarrow>
          let (st, saved) = lex_unget_unsave c st saved in
          if real_overflow saved then (TOKEN_INVALID, st) else (TOKEN_REAL saved, st))"

text \<open>The integer digits: a zero alone, or digits that do not start with a zero.\<close>

definition scan_integer :: "char option \<Rightarrow> stream_t \<Rightarrow> string \<Rightarrow> (char option \<times> stream_t \<times> string) option" where
  "scan_integer c st saved =
     (let (c, st, saved) = (if c = Some (CHR ''-'') then lex_get_save st saved else (c, st, saved)) in
      if c = Some (CHR ''0'')
      then let (c, st, saved) = lex_get_save st saved in if is_opt isdigit c then None else Some (c, st, saved)
      else if is_opt isdigit c then Some (scan_while isdigit st saved)
      else None)"

definition lex_scan_number :: "nat \<Rightarrow> char \<Rightarrow> stream_t \<Rightarrow> string \<Rightarrow> token \<times> stream_t" where
  "lex_scan_number flags c st saved =
     (case scan_integer (Some c) st saved of
        None \<Rightarrow> (TOKEN_INVALID, st)
      | Some (c, st, saved) \<Rightarrow>
          if \<not> has_flag flags JSON_DECODE_INT_AS_REAL \<and> c \<noteq> Some (CHR ''.'') \<and> c \<noteq> Some (CHR ''E'') \<and> c \<noteq> Some (CHR ''e'')
          then let (st, saved) = lex_unget_unsave c st saved in
            (case json_strtoint saved of None \<Rightarrow> (TOKEN_INVALID, st) | Some i \<Rightarrow> (TOKEN_INTEGER i, st))
          else scan_real c st saved)"

definition l_isalpha :: "char \<Rightarrow> bool" where
  "l_isalpha c = (65 \<le> code c \<and> code c \<le> 90 \<or> 97 \<le> code c \<and> code c \<le> 122)"

definition json_space :: "char \<Rightarrow> bool" where
  "json_space c = (c \<in> {CHR '' '', CHR 0x09, LF, CR})"

definition lex_word :: "string \<Rightarrow> token" where
  "lex_word saved =
     (if saved = ''true'' then TOKEN_TRUE else if saved = ''false'' then TOKEN_FALSE
      else if saved = ''null'' then TOKEN_NULL else TOKEN_INVALID)"

definition punctuation :: "char \<Rightarrow> bool" where
  "punctuation c = (c \<in> {CHR ''{'', CHR ''}'', CHR ''['', CHR '']'', CHR '':'', CHR '',''})"

definition lex_scan :: "nat \<Rightarrow> stream_t \<Rightarrow> token \<times> stream_t" where
  "lex_scan flags st =
     (let (c, st, _) = scan_while json_space st [] in
      case c of
        None \<Rightarrow> (if st_state st = STREAM_STATE_EOF then TOKEN_EOF else TOKEN_INVALID, st)
      | Some c \<Rightarrow>
          if punctuation c then (TOKEN_CHAR c, st)
          else if c = DQUOTE then lex_scan_string st [c]
          else if isdigit c \<or> c = CHR ''-'' then lex_scan_number flags c st [c]
          else if l_isalpha c
          then let (c, st, saved) = scan_while l_isalpha st [c]; (st, saved) = lex_unget_unsave c st saved
            in (lex_word saved, st)
          else (TOKEN_INVALID, st\<lparr>st_buffer := []\<rparr>))"

section \<open>The parser\<close>

datatype 'a parse_result = OUT_OF_FUEL | PARSE_ERROR | PARSED 'a

definition JSON_PARSER_MAX_DEPTH :: nat where
  "JSON_PARSER_MAX_DEPTH = 2048"

text \<open>
  \<open>parse_value\<close> with the loops of \<open>parse_object\<close> and \<open>parse_array\<close>, which have the members so far.
  The depth of nesting is what \<open>lex->depth\<close> is while a value is read. Each body takes the
  functions it calls.
\<close>

definition value_body ::
  "(nat \<Rightarrow> nat \<Rightarrow> (string \<times> json) list \<Rightarrow> token \<Rightarrow> stream_t \<Rightarrow> (json \<times> stream_t) parse_result) \<Rightarrow>
   (nat \<Rightarrow> nat \<Rightarrow> json list \<Rightarrow> token \<Rightarrow> stream_t \<Rightarrow> (json \<times> stream_t) parse_result) \<Rightarrow>
   nat \<Rightarrow> nat \<Rightarrow> token \<Rightarrow> stream_t \<Rightarrow> (json \<times> stream_t) parse_result" where
  "value_body object_loop array_loop flags depth token st =
     (if depth + 1 > JSON_PARSER_MAX_DEPTH then PARSE_ERROR
      else case token of
        TOKEN_STRING s \<Rightarrow> if \<not> has_flag flags JSON_ALLOW_NUL \<and> NUL \<in> set s then PARSE_ERROR else PARSED (JSON_STRING s, st)
      | TOKEN_INTEGER i \<Rightarrow> PARSED (JSON_INTEGER i, st)
      | TOKEN_REAL t \<Rightarrow> PARSED (JSON_REAL t, st)
      | TOKEN_TRUE \<Rightarrow> PARSED (JSON_TRUE, st)
      | TOKEN_FALSE \<Rightarrow> PARSED (JSON_FALSE, st)
      | TOKEN_NULL \<Rightarrow> PARSED (JSON_NULL, st)
      | TOKEN_CHAR c \<Rightarrow>
          if c = CHR ''{''
          then let (token, st) = lex_scan flags st in
            if token = TOKEN_CHAR (CHR ''}'') then PARSED (JSON_OBJECT [], st)
            else object_loop flags (depth + 1) [] token st
          else if c = CHR ''[''
          then let (token, st) = lex_scan flags st in
            if token = TOKEN_CHAR (CHR '']'') then PARSED (JSON_ARRAY [], st)
            else array_loop flags (depth + 1) [] token st
          else PARSE_ERROR
      | _ \<Rightarrow> PARSE_ERROR)"

text \<open>The end of a loop: a comma and the next member, or the closing bracket.\<close>

definition next_member ::
  "char \<Rightarrow> (token \<Rightarrow> stream_t \<Rightarrow> (json \<times> stream_t) parse_result) \<Rightarrow> json \<Rightarrow> nat \<Rightarrow> stream_t \<Rightarrow> (json \<times> stream_t) parse_result" where
  "next_member bracket loop json flags st =
     (let (token, st) = lex_scan flags st in
      if token = TOKEN_CHAR (CHR '','') then let (token, st) = lex_scan flags st in loop token st
      else if token = TOKEN_CHAR bracket then PARSED (json, st)
      else PARSE_ERROR)"

definition object_body ::
  "(nat \<Rightarrow> nat \<Rightarrow> token \<Rightarrow> stream_t \<Rightarrow> (json \<times> stream_t) parse_result) \<Rightarrow>
   (nat \<Rightarrow> nat \<Rightarrow> (string \<times> json) list \<Rightarrow> token \<Rightarrow> stream_t \<Rightarrow> (json \<times> stream_t) parse_result) \<Rightarrow>
   nat \<Rightarrow> nat \<Rightarrow> (string \<times> json) list \<Rightarrow> token \<Rightarrow> stream_t \<Rightarrow> (json \<times> stream_t) parse_result" where
  "object_body read_value object_loop flags depth object token st =
     (case token of
        TOKEN_STRING key \<Rightarrow>
          if NUL \<in> set key then PARSE_ERROR
          else if has_flag flags JSON_REJECT_DUPLICATES \<and> hashtable_get object key \<noteq> None then PARSE_ERROR
          else let (token, st) = lex_scan flags st in
            if token \<noteq> TOKEN_CHAR (CHR '':'') then PARSE_ERROR
            else let (token, st) = lex_scan flags st in
              (case read_value flags depth token st of
                 OUT_OF_FUEL \<Rightarrow> OUT_OF_FUEL
               | PARSE_ERROR \<Rightarrow> PARSE_ERROR
               | PARSED (v, st) \<Rightarrow>
                   let object = hashtable_set object key v in
                   next_member (CHR ''}'') (object_loop flags depth object) (JSON_OBJECT object) flags st)
      | _ \<Rightarrow> PARSE_ERROR)"

definition array_body ::
  "(nat \<Rightarrow> nat \<Rightarrow> token \<Rightarrow> stream_t \<Rightarrow> (json \<times> stream_t) parse_result) \<Rightarrow>
   (nat \<Rightarrow> nat \<Rightarrow> json list \<Rightarrow> token \<Rightarrow> stream_t \<Rightarrow> (json \<times> stream_t) parse_result) \<Rightarrow>
   nat \<Rightarrow> nat \<Rightarrow> json list \<Rightarrow> token \<Rightarrow> stream_t \<Rightarrow> (json \<times> stream_t) parse_result" where
  "array_body read_value array_loop flags depth array token st =
     (if token = TOKEN_EOF then PARSE_ERROR
      else case read_value flags depth token st of
        OUT_OF_FUEL \<Rightarrow> OUT_OF_FUEL
      | PARSE_ERROR \<Rightarrow> PARSE_ERROR
      | PARSED (v, st) \<Rightarrow>
          let array = array @ [v] in
          next_member (CHR '']'') (array_loop flags depth array) (JSON_ARRAY array) flags st)"

fun parse_value :: "nat \<Rightarrow> nat \<Rightarrow> nat \<Rightarrow> token \<Rightarrow> stream_t \<Rightarrow> (json \<times> stream_t) parse_result"
  and parse_object :: "nat \<Rightarrow> nat \<Rightarrow> nat \<Rightarrow> (string \<times> json) list \<Rightarrow> token \<Rightarrow> stream_t \<Rightarrow> (json \<times> stream_t) parse_result"
  and parse_array :: "nat \<Rightarrow> nat \<Rightarrow> nat \<Rightarrow> json list \<Rightarrow> token \<Rightarrow> stream_t \<Rightarrow> (json \<times> stream_t) parse_result"
where
  "parse_value 0 flags depth token st = OUT_OF_FUEL"
| "parse_value (Suc fuel) flags depth token st = value_body (parse_object fuel) (parse_array fuel) flags depth token st"
| "parse_object 0 flags depth object token st = OUT_OF_FUEL"
| "parse_object (Suc fuel) flags depth object token st =
     object_body (parse_value fuel) (parse_object fuel) flags depth object token st"
| "parse_array 0 flags depth array token st = OUT_OF_FUEL"
| "parse_array (Suc fuel) flags depth array token st =
     array_body (parse_value fuel) (parse_array fuel) flags depth array token st"

definition parse_json :: "nat \<Rightarrow> stream_t \<Rightarrow> json parse_result" where
  "parse_json flags st =
     (let (token, st) = lex_scan flags st in
      if \<not> has_flag flags JSON_DECODE_ANY \<and> token \<noteq> TOKEN_CHAR (CHR ''['') \<and> token \<noteq> TOKEN_CHAR (CHR ''{'')
      then PARSE_ERROR
      else case parse_value (2 * st_size st + 3) flags 0 token st of
        OUT_OF_FUEL \<Rightarrow> OUT_OF_FUEL
      | PARSE_ERROR \<Rightarrow> PARSE_ERROR
      | PARSED (v, st) \<Rightarrow>
          if \<not> has_flag flags JSON_DISABLE_EOF_CHECK \<and> fst (lex_scan flags st) \<noteq> TOKEN_EOF then PARSE_ERROR
          else PARSED v)"

text \<open>\<open>string_get\<close> stops at the NUL of a C string; a file is read to its end.\<close>

definition json_loads :: "string \<Rightarrow> nat \<Rightarrow> json parse_result" where
  "json_loads string flags = parse_json flags (stream_init (cstr string))"

definition json_load_file :: "string \<Rightarrow> nat \<Rightarrow> json parse_result" where
  "json_load_file content flags = parse_json flags (stream_init content)"

end
