(* ===== verification/Json_Text.thy ===== *)
theory Json_Text
  imports Json_Load
begin

text \<open>
  Lemmas on the JSON reader: it always returns, and it reads the tokens that the printer prints.
\<close>

section \<open>The reader returns\<close>

lemma stream_get_size: "stream_get st = (c, st') \<Longrightarrow> st_size st' + (if c = None then 0 else 1) \<le> st_size st"
proof -
  assume a: "stream_get st = (c, st')"
  show ?thesis
  proof (cases c)
    case None
    with a show ?thesis
      by (auto simp: stream_get_def stream_fill_def st_size_def Let_def split: if_splits list.splits)
  next
    case (Some d)
    with a stream_get_Some(1) [of st d st'] show ?thesis by simp
  qed
qed

lemma lex_get_save_size: "lex_get_save st saved = (c, st', saved') \<Longrightarrow> st_size st' + (if c = None then 0 else 1) \<le> st_size st"
  using stream_get_size [of st] by (auto simp: lex_get_save_def split: prod.splits option.splits)

lemma scan_while_size: "scan_while p st saved = (c, st', saved') \<Longrightarrow> st_size st' + (if c = None then 0 else 1) \<le> st_size st"
proof (induction p st saved rule: scan_while.induct)
  case (1 p st saved)
  obtain d st1 saved1 where g: "lex_get_save st saved = (d, st1, saved1)" by (cases "lex_get_save st saved")
  have s: "scan_while p st saved = (if is_opt p d then scan_while p st1 saved1 else (d, st1, saved1))"
    using g by (subst scan_while.simps) (simp add: is_opt_def split: option.split)
  show ?case
  proof (cases "is_opt p d")
    case True
    then obtain x where "d = Some x" "p x" by (auto simp: is_opt_def split: option.splits)
    with 1 g s True lex_get_save_size [OF g] show ?thesis by fastforce
  next
    case False
    with 1 s lex_get_save_size [OF g] show ?thesis by simp
  qed
qed

lemma scan_string_step:
  assumes "lex_get_save st saved = (Some c, st1, saved1)"
  shows "scan_string st saved =
    (if c = DQUOTE then Some (st1, saved1)
     else if code c \<le> 0x1F then None
     else if c = CHR 0x5C
     then (case lex_get_save st1 saved1 of
             (None, st, saved) \<Rightarrow> None
           | (Some c, st, saved) \<Rightarrow>
               if c = CHR ''u''
               then (case scan_hex 4 st saved of
                       None \<Rightarrow> None
                     | Some (st, saved) \<Rightarrow> scan_string st saved)
               else if short_escape c then scan_string st saved
               else None)
     else scan_string st1 saved1)"
  by (subst scan_string.simps) (simp only: assms prod.case option.case)

text \<open>What every byte keeps holds before the closing quote.\<close>

lemma scan_hex_inv:
  assumes "P st saved" "scan_hex n st saved = Some (st', saved')"
    and "\<And>st saved c st' saved'. P st saved \<Longrightarrow> lex_get_save st saved = (Some c, st', saved') \<Longrightarrow> P st' saved'"
  shows "P st' saved'"
  using assms(1,2)
proof (induction n arbitrary: st saved)
  case (Suc n)
  then obtain c st1 saved1 where "lex_get_save st saved = (Some c, st1, saved1)" "scan_hex n st1 saved1 = Some (st', saved')"
    by (auto split: prod.splits option.splits if_splits)
  with Suc assms(3) show ?case by blast
qed simp

lemma scan_string_inv:
  assumes "P st saved" "scan_string st saved = Some (st', saved')"
    and step: "\<And>st saved c st' saved'. P st saved \<Longrightarrow> lex_get_save st saved = (Some c, st', saved') \<Longrightarrow> P st' saved'"
  shows "\<exists>st0 saved0. P st0 saved0 \<and> lex_get_save st0 saved0 = (Some DQUOTE, st', saved')"
  using assms(1,2)
proof (induction st saved rule: scan_string.induct)
  case (1 st saved)
  obtain c st1 saved1 where g: "lex_get_save st saved = (Some c, st1, saved1)"
    using 1(5) by (subst (asm) scan_string.simps) (auto split: prod.splits option.splits)
  note s = scan_string_step [OF g] and P1 = step [OF 1(4) g]
  consider (quote) "c = DQUOTE" | (plain) "c \<noteq> DQUOTE" "\<not> code c \<le> 0x1F" "c \<noteq> CHR 0x5C"
    | (escape) "c = CHR 0x5C" "c \<noteq> DQUOTE" "\<not> code c \<le> 0x1F"
    using 1(5) s by (auto split: if_splits)
  then show ?case
  proof cases
    case quote
    with 1(4,5) s g show ?thesis by auto
  next
    case plain
    then show ?thesis using 1(3) [OF g [symmetric] refl refl] 1(5) s P1 by simp
  next
    case escape
    obtain c2 st2 saved2 where g2: "lex_get_save st1 saved1 = (Some c2, st2, saved2)"
      using 1(5) s escape by (auto split: prod.splits option.splits)
    note P2 = step [OF P1 g2]
    show ?thesis
    proof (cases "c2 = CHR ''u''")
      case True
      then obtain st3 saved3 where h: "scan_hex 4 st2 saved2 = Some (st3, saved3)" "scan_string st3 saved3 = Some (st', saved')"
        using 1(5) s escape g2 by (auto split: option.splits)
      have "P st3 saved3" by (rule scan_hex_inv [of P, OF P2 h(1)]) (rule step)
      then show ?thesis using 1(1) [OF g [symmetric] refl refl] escape g2 True h by simp
    next
      case False
      then have "short_escape c2" "scan_string st2 saved2 = Some (st', saved')"
        using 1(5) s escape g2 by (auto split: if_splits)
      then show ?thesis using 1(2) [OF g [symmetric] refl refl] escape g2 False P2 by simp
    qed
  qed
qed

lemma scan_string_size: "scan_string st saved = Some (st', saved') \<Longrightarrow> st_size st' \<le> st_size st"
proof -
  assume "scan_string st saved = Some (st', saved')"
  from scan_string_inv [of "\<lambda>st2 s. st_size st2 \<le> st_size st", OF _ this] show ?thesis
    using lex_get_save_Some by fastforce
qed

lemma unget_size: "st_size st' + (if c = None then 0 else 1) \<le> n \<Longrightarrow> st_size (fst (lex_unget_unsave c st' saved)) \<le> n"
  by (cases c) (auto simp: lex_unget_unsave_def stream_unget_def st_size_def)

lemma scan_integer_size: "scan_integer c st saved = Some (c', st', saved') \<Longrightarrow> st_size st' + (if c' = None then 0 else 1) \<le> st_size st"
  by (auto simp: scan_integer_def Let_def split: prod.splits if_splits
      dest!: lex_get_save_size scan_while_size)

lemma scan_fraction_size:
  "scan_fraction c st saved = Some (c', st', saved') \<Longrightarrow> st_size st + (if c = None then 0 else 1) \<le> n \<Longrightarrow>
     st_size st' + (if c' = None then 0 else 1) \<le> n"
  by (auto simp: scan_fraction_def Let_def split: prod.splits option.splits if_splits
      dest!: stream_get_size scan_while_size)

lemma scan_exponent_size:
  "scan_exponent c st saved = Some (c', st', saved') \<Longrightarrow> st_size st + (if c = None then 0 else 1) \<le> n \<Longrightarrow>
     st_size st' + (if c' = None then 0 else 1) \<le> n"
  by (auto simp: scan_exponent_def Let_def is_opt_def split: prod.splits option.splits if_splits
      dest!: lex_get_save_size scan_while_size)

lemma scan_real_size:
  assumes "scan_real c st saved = (tok, st')" "st_size st + (if c = None then 0 else 1) \<le> n"
  shows "st_size st' \<le> n"
proof (cases "do { (c, st, saved) \<leftarrow> scan_fraction c st saved; scan_exponent c st saved }")
  case None
  with assms show ?thesis by (simp add: scan_real_def)
next
  case (Some r)
  obtain c2 st2 saved2 where r: "r = (c2, st2, saved2)" by (cases r)
  obtain c1 st1 saved1 where "scan_fraction c st saved = Some (c1, st1, saved1)" "scan_exponent c1 st1 saved1 = Some (c2, st2, saved2)"
    using Some r by (auto simp: bind_eq_Some_conv split: prod.splits)
  then have "st_size st2 + (if c2 = None then 0 else 1) \<le> n"
    using scan_exponent_size [OF _ scan_fraction_size [OF _ assms(2)]] by blast
  from unget_size [OF this, of saved2] show ?thesis using assms(1) Some r by (auto simp: scan_real_def Let_def split: prod.splits if_splits)
qed

lemma lex_scan_number_size: "lex_scan_number flags c st saved = (tok, st') \<Longrightarrow> st_size st' \<le> st_size st"
proof -
  assume a: "lex_scan_number flags c st saved = (tok, st')"
  show ?thesis
  proof (cases "scan_integer (Some c) st saved")
    case None
    with a show ?thesis by (simp add: lex_scan_number_def)
  next
    case (Some r)
    obtain c2 st2 saved2 where r: "r = (c2, st2, saved2)" by (cases r)
    note le = scan_integer_size [OF Some [unfolded r]]
    from a Some r show ?thesis using unget_size [OF le, of saved2] scan_real_size [OF _ le, of saved2]
      by (auto simp: lex_scan_number_def Let_def split: if_splits prod.splits option.splits)
  qed
qed

lemma lex_scan_size:
  assumes "lex_scan flags st = (tok, st')"
  shows "if tok = TOKEN_EOF \<or> tok = TOKEN_INVALID then st_size st' \<le> st_size st else st_size st' < st_size st"
proof -
  obtain c st1 saved1 where w: "scan_while json_space st [] = (c, st1, saved1)" by (cases "scan_while json_space st []")
  note le = scan_while_size [OF w]
  show ?thesis
  proof (cases c)
    case None
    with assms w le show ?thesis by (auto simp: lex_scan_def split: if_splits)
  next
    case (Some d)
    then have less: "st_size st1 < st_size st" using le by simp
    have "st_size st' \<le> st_size st1"
    proof -
      have "lex_scan_string st1 [d] = (tok, st') \<Longrightarrow> st_size st' \<le> st_size st1"
        by (auto simp: lex_scan_string_def split: option.splits prod.splits dest: scan_string_size)
      moreover have "lex_scan_number flags d st1 [d] = (tok, st') \<Longrightarrow> st_size st' \<le> st_size st1"
        by (rule lex_scan_number_size)
      moreover have "st_size (fst (lex_unget_unsave c2 st2 saved2)) \<le> st_size st1"
        if "scan_while l_isalpha st1 [d] = (c2, st2, saved2)" for c2 st2 saved2
        using unget_size [OF scan_while_size [OF that]] .
      moreover have "st_size (st1\<lparr>st_buffer := []\<rparr>) \<le> st_size st1" by (simp add: st_size_def)
      ultimately show ?thesis using assms w Some
        by (auto simp: lex_scan_def split: if_splits prod.splits)
    qed
    with less show ?thesis by simp
  qed
qed

text \<open>Enough fuel for a value, and for the loops over the members of an object or an array.\<close>

definition returns :: "stream_t \<Rightarrow> (json \<times> stream_t) parse_result \<Rightarrow> bool" where
  "returns st r \<longleftrightarrow> r \<noteq> OUT_OF_FUEL \<and> (\<forall>v st'. r = PARSED (v, st') \<longrightarrow> st_size st' \<le> st_size st)"

definition loop_fuel :: "nat \<Rightarrow> token \<Rightarrow> stream_t \<Rightarrow> bool" where
  "loop_fuel fuel token st \<longleftrightarrow> 2 * st_size st + 4 \<le> fuel \<or> (token = TOKEN_EOF \<or> token = TOKEN_INVALID) \<and> 2 \<le> fuel"

lemma loop_fuel_scan:
  assumes "lex_scan flags st = (tok, st')" "2 * st_size st + 2 \<le> fuel"
  shows "loop_fuel fuel tok st'"
  using lex_scan_size [OF assms(1)] assms(2) by (auto simp: loop_fuel_def split: if_splits)

lemma scan_le: "lex_scan flags st = (tok, st') \<Longrightarrow> st_size st' \<le> st_size st"
  using lex_scan_size [of flags st tok st'] by (simp split: if_splits)

lemma parse_value_invalid: "0 < fuel \<Longrightarrow> token = TOKEN_EOF \<or> token = TOKEN_INVALID \<Longrightarrow> parse_value fuel flags depth token st = PARSE_ERROR"
  by (cases fuel) (auto simp: value_body_def)

lemma returns_le: "returns st' r \<Longrightarrow> st_size st' \<le> st_size st \<Longrightarrow> returns st r"
  by (cases r) (auto simp: returns_def)

lemma next_returns:
  assumes "st_size st' \<le> st_size st" "2 * st_size st + 3 \<le> fuel" "\<And>tok st. loop_fuel fuel tok st \<Longrightarrow> returns st (loop tok st)"
  shows "returns st (next_member bracket loop json flags st')"
proof -
  obtain t4 st4 where s4: "lex_scan flags st' = (t4, st4)" by (cases "lex_scan flags st'")
  obtain t5 st5 where s5: "lex_scan flags st4 = (t5, st5)" by (cases "lex_scan flags st4")
  have "st_size st4 \<le> st_size st" "st_size st5 \<le> st_size st"
    using scan_le [OF s4] scan_le [OF s5] assms(1) by simp_all
  moreover from this have "loop_fuel fuel t5 st5" using assms(2) by (intro loop_fuel_scan [OF s5]) simp
  ultimately show ?thesis using s4 s5 returns_le [OF assms(3), of t5 st5] by (simp add: next_member_def returns_def [of _ PARSE_ERROR] returns_def [of _ "PARSED _"])
qed

lemma parser_returns:
  "(2 * st_size st + 3 \<le> fuel \<longrightarrow> returns st (parse_value fuel flags depth token st)) \<and>
   (loop_fuel fuel token st \<longrightarrow> returns st (parse_object fuel flags depth object token st)) \<and>
   (loop_fuel fuel token st \<longrightarrow> returns st (parse_array fuel flags depth array token st))"
proof (induction fuel arbitrary: depth token st object array)
  case 0
  then show ?case by (simp add: loop_fuel_def)
next
  case (Suc fuel)
  note value_ok = Suc.IH [THEN conjunct1, rule_format]
    and object_ok = Suc.IH [THEN conjunct2, THEN conjunct1, rule_format]
    and array_ok = Suc.IH [THEN conjunct2, THEN conjunct2, rule_format]
  show ?case
  proof (intro conjI impI)
    assume f: "2 * st_size st + 3 \<le> Suc fuel"
    obtain t1 st1 where s: "lex_scan flags st = (t1, st1)" by (cases "lex_scan flags st")
    then have l: "loop_fuel fuel t1 st1" using f by (intro loop_fuel_scan [OF s]) simp
    have "st_size st1 \<le> st_size st" using lex_scan_size [OF s] by (simp split: if_splits)
    with object_ok [OF l] array_ok [OF l] have "returns st (parse_object fuel flags d [] t1 st1)" "returns st (parse_array fuel flags d [] t1 st1)" for d
      using returns_le by blast+
    moreover have "returns st PARSE_ERROR" "returns st (PARSED (v, st))" "returns st (PARSED (v, st1))" for v
      using \<open>st_size st1 \<le> st_size st\<close> by (simp_all add: returns_def)
    ultimately show "returns st (parse_value (Suc fuel) flags depth token st)"
      using s by (simp add: value_body_def split: token.split)
  next
    assume f: "loop_fuel (Suc fuel) token st"
    show "returns st (parse_object (Suc fuel) flags depth object token st)"
    proof (cases "\<exists>key. token = TOKEN_STRING key")
      case False
      then show ?thesis by (auto simp: object_body_def returns_def split: token.split)
    next
      case True
      then have m: "2 * st_size st + 3 \<le> fuel" using f by (auto simp: loop_fuel_def)
      obtain t1 st1 where s1: "lex_scan flags st = (t1, st1)" by (cases "lex_scan flags st")
      obtain t2 st2 where s2: "lex_scan flags st1 = (t2, st2)" by (cases "lex_scan flags st1")
      have le2: "st_size st2 \<le> st_size st" using scan_le [OF s1] scan_le [OF s2] by simp
      then have v: "returns st2 (parse_value fuel flags depth t2 st2)" using m by (intro value_ok) simp
      have after: "returns st (next_member (CHR ''}'') (parse_object fuel flags depth obj) (JSON_OBJECT obj) flags st3)"
        if "st_size st3 \<le> st_size st2" for st3 obj
        using that le2 m object_ok by (intro next_returns) simp_all
      from True v show ?thesis
        by (auto simp: object_body_def s1 s2 Let_def returns_def [of _ PARSE_ERROR] returns_def [of st2] intro!: after split: parse_result.split)
    qed
  next
    assume f: "loop_fuel (Suc fuel) token st"
    show "returns st (parse_array (Suc fuel) flags depth array token st)"
    proof (cases "token = TOKEN_EOF \<or> token = TOKEN_INVALID")
      case True
      moreover have "0 < fuel" using f by (auto simp: loop_fuel_def)
      ultimately show ?thesis using parse_value_invalid [of fuel token] by (auto simp: array_body_def returns_def)
    next
      case False
      then have m: "2 * st_size st + 3 \<le> fuel" using f by (auto simp: loop_fuel_def)
      then have v: "returns st (parse_value fuel flags depth token st)" by (rule value_ok)
      have after: "returns st (next_member (CHR '']'') (parse_array fuel flags depth arr) (JSON_ARRAY arr) flags st3)"
        if "st_size st3 \<le> st_size st" for st3 arr
        using that m array_ok by (intro next_returns) simp_all
      from False v show ?thesis
        by (auto simp: array_body_def Let_def returns_def [of _ PARSE_ERROR] returns_def [of st "parse_value _ _ _ _ _"]
            intro!: after split: parse_result.split)
    qed
  qed
qed

lemma parse_json_returns: "parse_json flags st \<noteq> OUT_OF_FUEL"
proof -
  obtain t1 st1 where s: "lex_scan flags st = (t1, st1)" by (cases "lex_scan flags st")
  have "returns st1 (parse_value (2 * st_size st1 + 3) flags 0 t1 st1)" using parser_returns by blast
  then show ?thesis by (auto simp: parse_json_def s returns_def split: parse_result.splits)
qed

section \<open>Reading tokens\<close>

text \<open>The rest of the input is \<open>s\<close>; a byte that was put back is still in the buffer.\<close>

abbreviation put_back :: "char \<Rightarrow> string \<Rightarrow> stream_t" where
  "put_back c d \<equiv> \<lparr>st_state = STREAM_STATE_OK, st_buffer = [c], st_data = d\<rparr>"

definition at_stream :: "stream_t \<Rightarrow> string \<Rightarrow> bool" where
  "at_stream st s \<longleftrightarrow> st = stream_init s \<or> (\<exists>c d. s = c # d \<and> st = put_back c d)"

lemma at_init [simp]: "at_stream (stream_init s) s"
  by (simp add: at_stream_def)

lemma at_put_back [simp]: "at_stream (put_back c d) (c # d)"
  by (simp add: at_stream_def)

lemma get_buffer: "stream_get \<lparr>st_state = STREAM_STATE_OK, st_buffer = c # b, st_data = d\<rparr> =
    (Some c, \<lparr>st_state = STREAM_STATE_OK, st_buffer = b, st_data = d\<rparr>)"
  by (simp add: stream_get_def stream_fill_def)

lemma get_at: "at_stream st (c # d) \<Longrightarrow> code c < 0x80 \<Longrightarrow> stream_get st = (Some c, stream_init d)"
  by (auto simp: at_stream_def stream_init_def get_buffer) (simp add: stream_get_def stream_fill_def)

lemma get_save_at: "at_stream st (c # d) \<Longrightarrow> code c < 0x80 \<Longrightarrow> lex_get_save st saved = (Some c, stream_init d, saved @ [c])"
  by (simp add: lex_get_save_def get_at)

lemma scan_while_at:
  assumes "\<forall>x \<in> set xs. p x \<and> code x < 0x80" "\<not> p c" "code c < 0x80" "at_stream st (xs @ c # d)"
  shows "scan_while p st saved = (Some c, stream_init d, saved @ xs @ [c])"
  using assms
proof (induction xs arbitrary: st saved)
  case Nil
  then have "lex_get_save st saved = (Some c, stream_init d, saved @ [c])" by (simp add: get_save_at)
  then show ?case using Nil by (subst scan_while.simps) simp
next
  case (Cons x xs)
  then have "lex_get_save st saved = (Some x, stream_init (xs @ c # d), saved @ [x])" by (simp add: get_save_at)
  moreover have "scan_while p (stream_init (xs @ c # d)) (saved @ [x]) = (Some c, stream_init d, (saved @ [x]) @ xs @ [c])"
    using Cons.prems by (intro Cons.IH) simp_all
  ultimately show ?case using Cons.prems by (subst scan_while.simps) simp
qed

lemma unget_at: "c \<noteq> NUL \<Longrightarrow> lex_unget_unsave (Some c) (stream_init d) (s @ [c]) = (put_back c d, s)"
  by (simp add: lex_unget_unsave_def stream_unget_def stream_init_def)

definition plain_char :: "char \<Rightarrow> bool" where
  "plain_char c \<longleftrightarrow> code c < 0x80 \<and> \<not> json_space c \<and> c \<noteq> NUL"

lemma first_char:
  assumes "at_stream st (c # d)" "plain_char c"
  shows "scan_while json_space st [] = (Some c, stream_init d, [c])"
  using scan_while_at [of "[]" json_space c st d "[]"] assms by (simp add: plain_char_def)

lemma punctuation_plain: "punctuation c \<Longrightarrow> plain_char c \<and> \<not> isdigit c \<and> \<not> l_isalpha c \<and> c \<notin> {CHR ''.'', CHR ''e'', CHR ''E''}"
  by (auto simp: punctuation_def plain_char_def json_space_def isdigit_def l_isalpha_def code_def)

lemma lex_punctuation: "at_stream st (c # d) \<Longrightarrow> punctuation c \<Longrightarrow> lex_scan flags st = (TOKEN_CHAR c, stream_init d)"
  using first_char [of st c d] punctuation_plain by (simp add: lex_scan_def)

lemma lex_words:
  assumes "at_stream st (t @ c # d)" "punctuation c" "t \<in> {''true'', ''false'', ''null''}"
  shows "lex_scan flags st = (lex_word t, put_back c d)"
proof -
  obtain x xs where t: "t = x # xs" using assms(3) by auto
  have xs: "\<forall>y \<in> set (x # xs). l_isalpha y \<and> code y < 0x80 \<and> y \<noteq> NUL \<and> y \<noteq> DQUOTE \<and> \<not> punctuation y \<and> \<not> json_space y \<and> \<not> isdigit y \<and> y \<noteq> CHR ''-''"
    using assms(3) t by (auto simp: l_isalpha_def punctuation_def json_space_def isdigit_def code_def)
  have c: "\<not> l_isalpha c" "code c < 0x80" "c \<noteq> NUL" using punctuation_plain [OF assms(2)] by (simp_all add: plain_char_def)
  have "scan_while json_space st [] = (Some x, stream_init (xs @ c # d), [x])"
    using first_char [of st x "xs @ c # d"] assms(1) t xs by (simp add: plain_char_def)
  moreover have "scan_while l_isalpha (stream_init (xs @ c # d)) [x] = (Some c, stream_init d, t @ [c])"
    using scan_while_at [of xs l_isalpha c "stream_init (xs @ c # d)" d "[x]"] xs c t by simp
  ultimately show ?thesis using unget_at [OF c(3), of d t] xs by (simp add: lex_scan_def)
qed

lemma lex_integer:
  assumes "at_stream st (show_int i @ c # d)" "punctuation c" "- (2 ^ 63) \<le> i" "i < 2 ^ 63"
    "\<not> has_flag flags JSON_DECODE_INT_AS_REAL"
  shows "lex_scan flags st = (TOKEN_INTEGER i, put_back c d)"
proof -
  have c: "\<not> isdigit c" "code c < 0x80" "c \<noteq> NUL" "c \<notin> {CHR ''.'', CHR ''e'', CHR ''E''}"
    using punctuation_plain [OF assms(2)] by (simp_all add: plain_char_def)
  define n where "n = nat \<bar>i\<bar>"
  obtain x xs where n: "show_nat n = x # xs" by (cases "show_nat n") simp_all
  have digits: "\<forall>y \<in> set (x # xs). isdigit y" using show_nat_digits [of _ n] n by auto
  have dig: "isdigit y \<Longrightarrow> code y < 0x80 \<and> plain_char y \<and> \<not> punctuation y \<and> y \<noteq> DQUOTE \<and> y \<noteq> CHR ''-''" for y
    by (auto simp: isdigit_def plain_char_def json_space_def punctuation_def code_def)
  have integer: "scan_integer (Some x) (stream_init (xs @ c # d)) saved = Some (Some c, stream_init d, saved @ xs @ [c])" for saved
  proof (cases "x = CHR ''0''")
    case True
    then have "hd_c (show_nat n) = CHR ''0''" using n by simp
    then have "n = 0" by (simp only: hd_show_nat)
    then have "xs = []" using n by (simp add: show_nat.simps [of 0])
    then show ?thesis using True c get_save_at [of "stream_init (c # d)" c d saved]
      by (simp add: scan_integer_def is_opt_def)
  next
    case False
    then show ?thesis
      using digits dig [of x] c scan_while_at [of xs isdigit c "stream_init (xs @ c # d)" d saved] dig
      by (simp add: scan_integer_def is_opt_def)
  qed
  have strto: "json_strtoint (show_int i) = Some i"
  proof -
    have "hd_c (show_nat n) \<noteq> CHR ''-''" using n dig [of x] digits by simp
    then show ?thesis using assms(3,4) by (auto simp: json_strtoint_def show_int_def n_def read_show_nat)
  qed
  have number: "lex_scan_number flags (hd (show_int i)) (stream_init (tl (show_int i) @ c # d)) [hd (show_int i)] =
      (TOKEN_INTEGER i, put_back c d)"
  proof (cases "i < 0")
    case True
    then have s: "show_int i = CHR ''-'' # x # xs" using n by (simp add: show_int_def n_def)
    have "scan_integer (Some (CHR ''-'')) (stream_init (x # xs @ c # d)) ''-'' = Some (Some c, stream_init d, show_int i @ [c])"
      using integer [of "''-'' @ [x]"] get_save_at [of "stream_init (x # xs @ c # d)" x "xs @ c # d" "''-''"] digits dig [of x] s
      by (simp add: scan_integer_def)
    then show ?thesis using s strto assms(5) c unget_at [OF c(3), of d "show_int i"] by (simp add: lex_scan_number_def)
  next
    case False
    then have s: "show_int i = x # xs" using n by (simp add: show_int_def n_def)
    then show ?thesis using integer [of "[x]"] strto assms(5) c unget_at [OF c(3), of d "show_int i"]
      by (simp add: lex_scan_number_def)
  qed
  have h: "show_int i = hd (show_int i) # tl (show_int i)" "isdigit (hd (show_int i)) \<or> hd (show_int i) = CHR ''-''"
    using n digits by (auto simp: show_int_def n_def)
  then have "plain_char (hd (show_int i))" "\<not> punctuation (hd (show_int i))" "hd (show_int i) \<noteq> DQUOTE"
    using dig by (auto simp: plain_char_def json_space_def punctuation_def code_def)
  moreover have "at_stream st (hd (show_int i) # tl (show_int i) @ c # d)" using assms(1) by (metis h(1) append_Cons)
  ultimately show ?thesis
    using number h(2) first_char [of st "hd (show_int i)" "tl (show_int i) @ c # d"] by (simp add: lex_scan_def)
qed

text \<open>Strings. The text of a string is scanned to its closing quote, and decoding it gives the string.\<close>

lemma scan_plain:
  assumes "code c < 0x80" "0x20 \<le> code c" "c \<noteq> DQUOTE" "c \<noteq> CHR 0x5C"
  shows "scan_string (stream_init (c # d)) saved = scan_string (stream_init d) (saved @ [c])"
  using assms scan_string_step [OF get_save_at [of "stream_init (c # d)" c d saved]] by simp

lemma scan_buffer:
  "\<forall>c \<in> set b. 0x80 \<le> code c \<Longrightarrow>
     scan_string \<lparr>st_state = STREAM_STATE_OK, st_buffer = b, st_data = d\<rparr> saved = scan_string (stream_init d) (saved @ b)"
proof (induction b arbitrary: saved)
  case (Cons c b)
  let ?st = "\<lparr>st_state = STREAM_STATE_OK, st_buffer = c # b, st_data = d\<rparr>"
  have "lex_get_save ?st saved = (Some c, \<lparr>st_state = STREAM_STATE_OK, st_buffer = b, st_data = d\<rparr>, saved @ [c])"
    by (simp add: lex_get_save_def get_buffer)
  moreover have "c \<noteq> DQUOTE" "c \<noteq> CHR 0x5C" using Cons.prems by (auto simp: code_def)
  ultimately have "scan_string ?st saved = scan_string \<lparr>st_state = STREAM_STATE_OK, st_buffer = b, st_data = d\<rparr> (saved @ [c])"
    using Cons.prems scan_string_step [of ?st saved c] by simp
  also have "\<dots> = scan_string (stream_init d) ((saved @ [c]) @ b)" using Cons by (intro Cons.IH) simp
  finally show ?case by simp
qed (simp add: stream_init_def)

lemma utf8_encode_check:
  assumes "utf8_encode cp = Some bs" "scalar_value cp" "0x80 \<le> cp"
  shows "0x80 \<le> code (hd bs)" "utf8_check_first (hd bs) = length bs" "utf8_check_full bs (length bs) \<noteq> None"
proof -
  have it: "utf8_iterate (bs @ []) = Some (cp, length bs)" by (rule utf8_iterate_encode [OF assms(2,1)])
  have bs: "bs \<noteq> []" using utf8_encode_nonempty [OF assms(1)] .
  show high: "0x80 \<le> code (hd bs)" using utf8_encode_high [OF assms(3,1), of "hd bs"] bs by simp
  have "hd_c bs = hd bs" using bs by (cases bs) simp_all
  then show "utf8_check_first (hd bs) = length bs" "utf8_check_full bs (length bs) \<noteq> None"
    using it high by (auto simp: utf8_iterate_def Let_def utf8_check_first_def split: if_splits)
qed

lemma scan_sequence:
  assumes "utf8_encode cp = Some bs" "scalar_value cp" "0x80 \<le> cp"
  shows "scan_string (stream_init (bs @ d)) saved = scan_string (stream_init d) (saved @ bs)"
proof -
  have bs: "bs \<noteq> []" using utf8_encode_nonempty [OF assms(1)] .
  let ?st = "\<lparr>st_state = STREAM_STATE_OK, st_buffer = bs, st_data = d\<rparr>"
  have "stream_fill (stream_init (bs @ d)) = ?st"
    using utf8_encode_check [OF assms] bs
    by (cases bs) (simp_all add: stream_fill_def stream_init_def Let_def)
  then have "stream_get (stream_init (bs @ d)) = stream_get ?st"
    using bs by (simp add: stream_get_def) (simp add: stream_init_def stream_fill_def)
  then have "scan_string (stream_init (bs @ d)) saved = scan_string ?st saved"
    by (subst (1 2) scan_string.simps) (simp add: lex_get_save_def)
  also have "\<dots> = scan_string (stream_init d) (saved @ bs)"
    using utf8_encode_high [OF assms(3,1)] by (intro scan_buffer) blast
  finally show ?thesis .
qed

lemma escape_digit_xdigit: "n < 16 \<Longrightarrow> escape_digit (toupper (xdigit n)) = Some n"
  by (auto simp: escape_digit_def xdigit_def toupper_def isdigit_def)

lemma scan_escape:
  assumes "cp = 92 \<or> cp = 34 \<or> cp < 0x20"
  shows "scan_string (stream_init (json_escape cp @ d)) saved = scan_string (stream_init d) (saved @ json_escape cp)"
proof -
  have short: "scan_string (stream_init (CHR 0x5C # c # d)) saved = scan_string (stream_init d) (saved @ [CHR 0x5C, c])"
    if "short_escape c" for c
  proof -
    have "code c < 0x80" "c \<noteq> CHR ''u''" using that by (auto simp: short_escape_def code_def)
    then show ?thesis
      using that scan_string_step [OF get_save_at [of "stream_init (CHR 0x5C # c # d)" "CHR 0x5C" "c # d" saved]]
        get_save_at [of "stream_init (c # d)" c d "saved @ [CHR 0x5C]"]
      by (simp add: code_def)
  qed
  have long: "scan_string (stream_init (CHR 0x5C # CHR ''u'' # [a, b, x, y] @ d)) saved =
      scan_string (stream_init d) (saved @ CHR 0x5C # CHR ''u'' # [a, b, x, y])"
    if "isxdigit a" "isxdigit b" "isxdigit x" "isxdigit y" for a b x y
  proof -
    have ascii: "isxdigit z \<Longrightarrow> code z < 0x80" for z by (auto simp: isxdigit_def isdigit_def)
    have "scan_hex 4 (stream_init ([a, b, x, y] @ d)) saved' = Some (stream_init d, saved' @ [a, b, x, y])" for saved'
      using that by (simp add: numeral_eq_Suc get_save_at [OF at_init ascii])
    then show ?thesis
      using scan_string_step [OF get_save_at [of "stream_init (CHR 0x5C # CHR ''u'' # [a, b, x, y] @ d)" "CHR 0x5C" "CHR ''u'' # [a, b, x, y] @ d" saved]]
        get_save_at [of "stream_init (CHR ''u'' # [a, b, x, y] @ d)" "CHR ''u''" "[a, b, x, y] @ d" "saved @ [CHR 0x5C]"]
      by (simp add: code_def)
  qed
  consider "cp = 92" | "cp = 34" | "cp = 8" | "cp = 12" | "cp = 10" | "cp = 13" | "cp = 9"
    | (u) "cp < 0x20" "cp \<noteq> 8" "cp \<noteq> 12" "cp \<noteq> 10" "cp \<noteq> 13" "cp \<noteq> 9"
    using assms by blast
  then show ?thesis
  proof cases
    case u
    have "isxdigit (CHR ''0'')" by (simp add: isxdigit_def isdigit_def code_def)
    with u show ?thesis using long [of "CHR ''0''" "CHR ''0''" "toupper (xdigit (cp div 16))" "toupper (xdigit (cp mod 16))"]
      by (simp add: json_escape_def)
  qed (simp_all add: json_escape_def short short_escape_def)
qed

lemma decode_four:
  assumes "escape_digit a = Some p" "escape_digit b = Some q" "escape_digit x = Some r" "escape_digit y = Some s"
  shows "decode_unicode_escape (a # b # x # y # d) = Some (((p * 16 + q) * 16 + r) * 16 + s)"
proof -
  have "decode_digits 4 0 (a # b # x # y # d) = decode_digits (Suc (Suc (Suc (Suc 0)))) 0 (a # b # x # y # d)"
    by (simp only: numeral_eq_Suc pred_numeral_simps eval_nat_numeral(3) BitM.simps numeral_One One_nat_def)
  then show ?thesis using assms by (simp add: decode_unicode_escape_def)
qed

lemma decode_escape_text:
  assumes "cp = 92 \<or> cp = 34 \<or> cp < 0x20"
  shows "decode_text (json_escape cp @ d) = map_option (\<lambda>t. char_of cp # t) (decode_text d)"
proof -
  consider "cp = 92" | "cp = 34" | "cp = 8" | "cp = 12" | "cp = 10" | "cp = 13" | "cp = 9"
    | (u) "cp < 0x20" "cp \<noteq> 8" "cp \<noteq> 12" "cp \<noteq> 10" "cp \<noteq> 13" "cp \<noteq> 9"
    using assms by blast
  then show ?thesis
  proof cases
    case u
    have "escape_digit (CHR ''0'') = Some 0" by (simp add: escape_digit_def isdigit_def code_def)
    moreover have "cp div 16 < 16" "cp mod 16 < 16" "cp div 16 * 16 + cp mod 16 = cp" using u by auto
    ultimately have "decode_escape (CHR ''0'' # CHR ''0'' # toupper (xdigit (cp div 16)) # toupper (xdigit (cp mod 16)) # d) = Some (cp, d)"
      using u decode_four [of "CHR ''0''" 0 "CHR ''0''" 0 _ "cp div 16" _ "cp mod 16" d]
      by (simp add: decode_escape_def escape_digit_xdigit)
    moreover have "utf8_encode cp = Some [char_of cp]" using u by (simp add: utf8_encode_def)
    ultimately show ?thesis using u by (cases "decode_text d") (simp_all add: json_escape_def)
  qed (cases "decode_text d"; simp add: json_escape_def short_escape_def short_value_def)+
qed

lemma decode_plain:
  "\<forall>c \<in> set xs. c \<noteq> CHR 0x5C \<and> c \<noteq> DQUOTE \<Longrightarrow> decode_text (xs @ d) = map_option (\<lambda>t. xs @ t) (decode_text d)"
proof (induction xs)
  case Nil
  then show ?case by (cases "decode_text d") simp_all
next
  case (Cons c xs)
  then show ?case by (cases "decode_text d") simp_all
qed

lemma json_escape_NUL: "cp < 256 \<Longrightarrow> NUL \<notin> set (json_escape cp)"
proof -
  assume "cp < 256"
  moreover have "toupper (xdigit d) \<noteq> NUL" if "d < 16" for d
  proof
    assume "toupper (xdigit d) = NUL"
    then have "isxdigit NUL" using toupper_xdigit(2) [OF that] by simp
    then show False by (simp add: isxdigit_def isdigit_def)
  qed
  then have "NUL \<noteq> toupper (xdigit d)" if "d < 16" for d using that by metis
  ultimately show ?thesis by (simp add: json_escape_def)
qed

lemma dump_text_read:
  "utf8_check_string s \<Longrightarrow> \<exists>t. dump_text s = Some t \<and> NUL \<notin> set t \<and>
     (\<forall>d saved. scan_string (stream_init (t @ DQUOTE # d)) saved = Some (stream_init d, saved @ t @ [DQUOTE])) \<and>
     (\<forall>d. decode_text (t @ DQUOTE # d) = Some s)"
proof (induction s rule: length_induct)
  case (1 s)
  show ?case
  proof (cases "s = []")
    case True
    have "scan_string (stream_init (DQUOTE # d)) saved = Some (stream_init d, saved @ [DQUOTE])" for d saved
      using scan_string_step [OF get_save_at [of "stream_init (DQUOTE # d)" DQUOTE d saved]] by (simp add: code_def)
    with True show ?thesis by (simp add: dump_text.simps)
  next
    case False
    with "1.prems" obtain cp n where it: "utf8_iterate s = Some (cp, n)"
      and rest: "utf8_check_string (drop n s)"
      by (auto simp: utf8_check_string_step)
    from utf8_iterate_sound [OF False it] have
      cp: "scalar_value cp" "utf8_encode cp = Some (take n s)" "0 < n" "n \<le> length s"
      by auto
    with False have "length (drop n s) < length s" by simp
    with "1.IH" rest obtain t where t: "dump_text (drop n s) = Some t" "NUL \<notin> set t"
      "scan_string (stream_init (t @ DQUOTE # d)) saved = Some (stream_init d, saved @ t @ [DQUOTE])"
      "decode_text (t @ DQUOTE # d) = Some (drop n s)" for d saved
      by blast
    let ?esc = "cp = 92 \<or> cp = 34 \<or> cp < 0x20"
    let ?u = "if ?esc then json_escape cp else take n s"
    have dump: "dump_text s = Some (?u @ t)" using False it t cp(3) by (subst dump_text.simps) (simp add: max_def)
    have plain: "\<forall>c \<in> set (take n s). c \<noteq> CHR 0x5C \<and> c \<noteq> DQUOTE \<and> 0x20 \<le> code c" if "\<not> ?esc"
    proof (cases "cp < 0x80")
      case True
      with cp have "take n s = [char_of cp]" by (simp add: utf8_encode_def)
      moreover have "code (char_of cp) = cp" using True by simp
      ultimately show ?thesis using that code_special by (auto simp: not_less)
    next
      case high: False
      have c: "0x80 \<le> code c" if "c \<in> set (take n s)" for c
        using utf8_encode_high [OF _ cp(2) that] high by simp
      with code_special show ?thesis by fastforce
    qed
    have one: "char_of cp # drop n s = s" if ?esc
    proof -
      have "utf8_encode cp = Some [char_of cp]" using that by (auto simp: utf8_encode_def)
      with cp show ?thesis by (metis append_Cons append_Nil append_take_drop_id option.inject)
    qed
    have "NUL \<notin> set (json_escape cp)" if ?esc using json_escape_NUL that by auto
    moreover have "NUL \<notin> set (take n s)" if "\<not> ?esc"
    proof
      assume "NUL \<in> set (take n s)"
      then have "0x20 \<le> code NUL" using plain [OF that] by blast
      then show False by simp
    qed
    ultimately have nul: "NUL \<notin> set (?u @ t)" using t(2) by simp
    have "scan_string (stream_init (?u @ d)) saved = scan_string (stream_init d) (saved @ ?u)" for d saved
    proof (cases ?esc)
      case True
      then show ?thesis using scan_escape by simp
    next
      case F: False
      show ?thesis
      proof (cases "cp < 0x80")
        case True
        with cp have "take n s = [char_of cp]" by (simp add: utf8_encode_def)
        then show ?thesis using F plain [OF F] True scan_plain [of "char_of cp" d saved] by simp
      next
        case False
        then show ?thesis using F scan_sequence [OF cp(2,1)] by simp
      qed
    qed
    then have scan: "scan_string (stream_init ((?u @ t) @ DQUOTE # d)) saved = Some (stream_init d, saved @ (?u @ t) @ [DQUOTE])" for d saved
      using t(3) by simp
    have "decode_text (?u @ d) = map_option (\<lambda>r. (if ?esc then [char_of cp] else take n s) @ r) (decode_text d)" for d
      using decode_escape_text [of cp d] decode_plain [of "take n s" d] plain by (cases ?esc) simp_all
    then have "decode_text ((?u @ t) @ DQUOTE # d) = Some s" for d
      using t(4) one by (cases ?esc) simp_all
    with dump nul scan show ?thesis by blast
  qed
qed

lemma dump_string_read:
  assumes "utf8_check_string s"
  obtains t where "dump_string s = Some t" "NUL \<notin> set t" "\<And>st d flags. at_stream st (t @ d) \<Longrightarrow> lex_scan flags st = (TOKEN_STRING s, stream_init d)"
proof -
  obtain t where t: "dump_text s = Some t" "NUL \<notin> set t"
    "scan_string (stream_init (t @ DQUOTE # d)) saved = Some (stream_init d, saved @ t @ [DQUOTE])"
    "decode_text (t @ DQUOTE # d) = Some s" for d saved
    using dump_text_read [OF assms] by blast
  show ?thesis
  proof (rule that)
    show "dump_string s = Some (DQUOTE # t @ [DQUOTE])" "NUL \<notin> set (DQUOTE # t @ [DQUOTE])" using t by (simp_all add: dump_string_def)
    fix st d flags
    assume "at_stream st ((DQUOTE # t @ [DQUOTE]) @ d)"
    moreover have "plain_char DQUOTE" "\<not> punctuation DQUOTE"
      by (simp_all add: plain_char_def json_space_def punctuation_def code_def)
    ultimately show "lex_scan flags st = (TOKEN_STRING s, stream_init d)"
      using first_char [of st DQUOTE "t @ DQUOTE # d"] t(3) [of d "[DQUOTE]"] t(4) [of "[]"]
      by (simp add: lex_scan_def lex_scan_string_def)
  qed
qed

end
