(* ===== verification/Json_Wf.thy ===== *)
theory Json_Wf
  imports Json_Text
begin

text \<open>
  The values the JSON reader gives are well formed: strings and keys are UTF-8, the keys of an
  object are distinct and have no NUL, integers have 64 bits, and the nesting is bounded.
\<close>

section \<open>UTF-8 in the stream\<close>

lemma utf8_check_append: "utf8_check_string a \<Longrightarrow> utf8_check_string (a @ b) = utf8_check_string b"
proof (induction a rule: length_induct)
  case (1 a)
  show ?case
  proof (cases "a = []")
    case False
    with "1.prems" obtain cp n where it: "utf8_iterate a = Some (cp, n)" and rest: "utf8_check_string (drop n a)"
      by (auto simp: utf8_check_string_step)
    from utf8_iterate_sound [OF False it] have
      cp: "scalar_value cp" "utf8_encode cp = Some (take n a)" "0 < n" "n \<le> length a" by auto
    have "utf8_iterate (take n a @ (drop n a @ b)) = Some (cp, length (take n a))"
      by (rule utf8_iterate_encode [OF cp(1,2)])
    then have "utf8_iterate (a @ b) = Some (cp, n)" using cp(4) by (simp flip: append_assoc)
    then have "utf8_check_string (a @ b) = utf8_check_string (drop n (a @ b))"
      using False by (simp add: utf8_check_string_step [of "a @ b"])
    also have "\<dots> = utf8_check_string (drop n a @ b)" using cp(4) by simp
    also have "\<dots> = utf8_check_string b"
      using "1.IH" rest cp(3,4) False by simp
    finally show ?thesis .
  qed simp
qed

lemma utf8_check_ascii: "code c < 0x80 \<Longrightarrow> utf8_check_string (c # s) = utf8_check_string s"
  by (simp add: utf8_check_string.simps [of "c # s"] utf8_check_first_def)

lemma utf8_check_encode: "scalar_value cp \<Longrightarrow> utf8_encode cp = Some bs \<Longrightarrow> utf8_check_string bs"
  using utf8_check_string_encodings [of "[cp]"] by simp

text \<open>The buffer is the end of one sequence.\<close>

definition buf_ok :: "string \<Rightarrow> bool" where
  "buf_ok b \<longleftrightarrow> b = [] \<or> (\<exists>cp bs. scalar_value cp \<and> utf8_encode cp = Some (bs @ b))"

lemma buf_ok_tl: "buf_ok (c # b) \<Longrightarrow> buf_ok b"
proof -
  assume "buf_ok (c # b)"
  then obtain cp bs where "scalar_value cp" "utf8_encode cp = Some ((bs @ [c]) @ b)" by (auto simp: buf_ok_def)
  then show ?thesis unfolding buf_ok_def by blast
qed

lemma buf_ok_ascii:
  assumes "buf_ok (c # b)" "code c < 0x80"
  shows "b = []"
proof -
  obtain cp bs where cp: "scalar_value cp" "utf8_encode cp = Some (bs @ c # b)" using assms(1) by (auto simp: buf_ok_def)
  have "cp < 0x80" using utf8_encode_high [OF _ cp(2), of c] assms(2) by (auto simp: not_less [symmetric])
  then show ?thesis using cp(2) by (cases bs) (simp_all add: utf8_encode_def)
qed

lemma encode_check_full:
  assumes "0x80 \<le> code c" "utf8_check_first c \<noteq> 0" "utf8_check_first c \<le> length (c # d)"
    "utf8_check_full (take (utf8_check_first c) (c # d)) (utf8_check_first c) \<noteq> None"
  shows "\<exists>cp. scalar_value cp \<and> utf8_encode cp = Some (take (utf8_check_first c) (c # d))"
proof -
  let ?n = "utf8_check_first c" and ?b = "take (utf8_check_first c) (c # d)"
  have n: "?n \<noteq> 1" "?b \<noteq> []" using assms(1,2) by (auto simp: utf8_check_first_def Let_def)
  obtain v where "utf8_check_full ?b ?n = Some v" using assms(4) by auto
  moreover have "hd_c ?b = c" using assms(2) by (cases ?n) simp_all
  ultimately have "utf8_iterate ?b = Some (v, ?n)" using n assms(2,3) by (simp add: utf8_iterate_def)
  from utf8_iterate_sound [OF n(2) this] show ?thesis using assms(3) by auto
qed

lemma fill_sequence:
  assumes "st_buffer st = []"
  shows "st_buffer (stream_fill st) = [] \<or> (\<exists>cp. scalar_value cp \<and> utf8_encode cp = Some (st_buffer (stream_fill st)))"
proof (cases "st_data st")
  case Nil
  with assms show ?thesis by (simp add: stream_fill_def)
next
  case (Cons c d)
  have ascii: "code c < 0x80 \<Longrightarrow> \<exists>cp. scalar_value cp \<and> utf8_encode cp = Some [c]"
    by (intro exI [of _ "code c"]) (simp add: utf8_encode_def scalar_value_def)
  show ?thesis
  proof (cases "0x80 \<le> code c \<and> utf8_check_first c \<noteq> 0 \<and> utf8_check_first c \<le> length (c # d) \<and>
      utf8_check_full (take (utf8_check_first c) (c # d)) (utf8_check_first c) \<noteq> None")
    case True
    then have "st_buffer (stream_fill st) = take (utf8_check_first c) (c # d)"
      using assms Cons by (auto simp: stream_fill_def Let_def)
    then show ?thesis using True encode_check_full [of c d] by simp
  next
    case False
    then have "st_buffer (stream_fill st) = [] \<or> st_buffer (stream_fill st) = [c] \<and> code c < 0x80"
      using assms Cons by (auto simp: stream_fill_def Let_def not_le)
    then show ?thesis using ascii by auto
  qed
qed

lemma fill_ok: "buf_ok (st_buffer st) \<Longrightarrow> buf_ok (st_buffer (stream_fill st))"
proof (cases "st_buffer st = []")
  case True
  then show ?thesis using fill_sequence [of st] by (auto simp: buf_ok_def intro: exI [of _ "[]"])
next
  case False
  assume "buf_ok (st_buffer st)"
  with False show ?thesis by (simp add: stream_fill_def)
qed

definition got_ok :: "char option \<Rightarrow> stream_t \<Rightarrow> bool" where
  "got_ok c st \<longleftrightarrow> buf_ok (st_buffer st) \<and> (case c of Some c \<Rightarrow> buf_ok (c # st_buffer st) | None \<Rightarrow> True)"

lemma get_ok:
  assumes "buf_ok (st_buffer st)" "stream_get st = (c, st')"
  shows "got_ok c st'"
proof -
  have f: "buf_ok (st_buffer (stream_fill st))" by (rule fill_ok [OF assms(1)])
  have "st_buffer (stream_fill st) \<noteq> []" if "st_state (stream_fill st) = STREAM_STATE_OK" "st_state st = STREAM_STATE_OK"
    using that by (auto simp: stream_fill_def utf8_check_first_def Let_def split: list.splits if_splits)
  then show ?thesis using assms f buf_ok_tl
    by (cases "st_buffer (stream_fill st)") (auto simp: stream_get_def got_ok_def Let_def split: if_splits)
qed

lemma get_save_ok: "buf_ok (st_buffer st) \<Longrightarrow> lex_get_save st saved = (c, st', saved') \<Longrightarrow> got_ok c st'"
  using get_ok [of st] by (auto simp: lex_get_save_def split: prod.splits option.splits)

lemma unget_ok: "got_ok c st \<Longrightarrow> buf_ok (st_buffer (fst (lex_unget_unsave c st saved)))"
  by (cases c) (auto simp: got_ok_def lex_unget_unsave_def stream_unget_def)

lemma scan_while_ok: "buf_ok (st_buffer st) \<Longrightarrow> scan_while p st saved = (c, st', saved') \<Longrightarrow> got_ok c st'"
proof (induction p st saved rule: scan_while.induct)
  case (1 p st saved)
  obtain d st1 saved1 where g: "lex_get_save st saved = (d, st1, saved1)" by (cases "lex_get_save st saved")
  have s: "scan_while p st saved = (if is_opt p d then scan_while p st1 saved1 else (d, st1, saved1))"
    using g by (subst scan_while.simps) (simp add: is_opt_def split: option.split)
  have ok: "got_ok d st1" using get_save_ok [OF 1(2) g] .
  show ?case
  proof (cases "is_opt p d")
    case True
    then obtain x where "d = Some x" "p x" by (auto simp: is_opt_def split: option.splits)
    with 1(1) [OF g [symmetric], of x] 1(3) s True ok show ?thesis by (simp add: got_ok_def)
  next
    case False
    with 1(3) s ok show ?thesis by simp
  qed
qed

section \<open>Strings\<close>

text \<open>The saved text with the rest of the current sequence is UTF-8.\<close>

definition text_ok :: "stream_t \<Rightarrow> string \<Rightarrow> bool" where
  "text_ok st saved \<longleftrightarrow> buf_ok (st_buffer st) \<and> utf8_check_string (saved @ st_buffer st)"

lemma get_save_text:
  assumes "text_ok st saved" "lex_get_save st saved = (Some c, st', saved')"
  shows "text_ok st' saved' \<and> buf_ok (c # st_buffer st') \<and> saved' = saved @ [c]"
proof -
  have g: "stream_get st = (Some c, st')" "saved' = saved @ [c]"
    using assms(2) by (auto simp: lex_get_save_def split: prod.splits option.splits)
  have ok: "got_ok (Some c) st'" using get_ok [OF _ g(1)] assms(1) by (simp add: text_ok_def)
  have "st_buffer (stream_fill st) \<noteq> []" if "st_state (stream_fill st) = STREAM_STATE_OK" "st_state st = STREAM_STATE_OK"
    using that by (auto simp: stream_fill_def utf8_check_first_def Let_def split: list.splits if_splits)
  then have b: "st_buffer (stream_fill st) = c # st_buffer st'"
    using g(1) by (cases "st_buffer (stream_fill st)") (auto simp: stream_get_def Let_def split: if_splits)
  have "utf8_check_string (saved @ st_buffer (stream_fill st))"
  proof (cases "st_buffer st = []")
    case True
    then have "utf8_check_string (st_buffer (stream_fill st))" using fill_sequence [OF True] utf8_check_encode by auto
    then show ?thesis using assms(1) True utf8_check_append [of saved] by (simp add: text_ok_def)
  next
    case False
    then have "stream_fill st = st" by (simp add: stream_fill_def)
    with assms(1) show ?thesis by (simp add: text_ok_def)
  qed
  then show ?thesis using b g(2) ok by (simp add: text_ok_def got_ok_def)
qed

lemma scan_string_text:
  "text_ok st saved \<Longrightarrow> scan_string st saved = Some (st', saved') \<Longrightarrow>
     st_buffer st' = [] \<and> utf8_check_string saved' \<and> (\<exists>t. saved' = saved @ t)"
proof -
  assume a: "text_ok st saved" "scan_string st saved = Some (st', saved')"
  let ?P = "\<lambda>st s. text_ok st s \<and> (\<exists>t. s = saved @ t)"
  have "\<exists>st0 saved0. ?P st0 saved0 \<and> lex_get_save st0 saved0 = (Some DQUOTE, st', saved')"
  proof (rule scan_string_inv [of ?P, OF _ a(2)])
    show "?P st saved" using a(1) by simp
  next
    fix st s c st' s'
    assume "?P st s" "lex_get_save st s = (Some c, st', s')"
    then show "?P st' s'" using get_save_text by fastforce
  qed
  then obtain st0 saved0 where "text_ok st0 saved0" "\<exists>t. saved0 = saved @ t" "lex_get_save st0 saved0 = (Some DQUOTE, st', saved')"
    by blast
  moreover from this get_save_text have "text_ok st' saved'" "buf_ok (DQUOTE # st_buffer st')" "saved' = saved0 @ [DQUOTE]" by blast+
  moreover from this have "st_buffer st' = []" using buf_ok_ascii [of DQUOTE] by (simp add: code_def)
  ultimately show ?thesis by (auto simp: text_ok_def)
qed

lemma escape_digit_bounds: "escape_digit c = Some d \<Longrightarrow> code c < 0x80 \<and> d < 36"
  by (auto simp: escape_digit_def isdigit_def split: if_splits)

lemma decode_digits_utf8:
  "decode_digits n v s = Some w \<Longrightarrow> utf8_check_string s \<Longrightarrow> utf8_check_string (drop n s) \<and> n \<le> length s"
proof (induction n arbitrary: v s)
  case (Suc n)
  then obtain c t where s: "s = c # t"
    by (cases s) (auto simp: escape_digit_def isdigit_def split: option.splits)
  with Suc show ?case using utf8_check_ascii [of c t] by (auto dest: escape_digit_bounds split: option.splits)
qed simp

lemma decode_digits_bound: "decode_digits n v s = Some w \<Longrightarrow> w < (v + 3) * 16 ^ n"
proof (induction n arbitrary: v s)
  case (Suc n)
  then obtain d where d: "d < 36" "decode_digits n (v * 16 + d) (tl s) = Some w"
    by (auto dest: escape_digit_bounds split: option.splits)
  have "w < (v * 16 + d + 3) * 16 ^ n" using Suc.IH [OF d(2)] .
  also have "\<dots> \<le> ((v + 3) * 16) * 16 ^ n" using d(1) by (intro mult_right_mono) simp_all
  also have "\<dots> = (v + 3) * 16 ^ Suc n" by (simp only: power_Suc mult.assoc)
  finally show ?case .
qed simp

lemma decode_unicode_bound: "decode_unicode_escape s = Some w \<Longrightarrow> w < 0x30000"
  using decode_digits_bound [of 4 0 s w] by (simp add: decode_unicode_escape_def)

lemma decode_escape_utf8:
  assumes "decode_escape p = Some (v, r)" "utf8_check_string p"
  shows "utf8_check_string r \<and> scalar_value v \<and> length r \<le> length p"
proof -
  obtain u where u: "decode_unicode_escape p = Some u" using assms(1) by (auto simp: decode_escape_def bind_eq_Some_conv)
  have p: "utf8_check_string (drop 4 p)" using decode_digits_utf8 [OF _ assms(2)] u by (simp add: decode_unicode_escape_def)
  show ?thesis
  proof (cases "0xD800 \<le> u \<and> u \<le> 0xDBFF")
    case False
    then show ?thesis using assms(1) u p decode_unicode_bound [OF u]
      by (auto simp: decode_escape_def scalar_value_def split: if_splits)
  next
    case True
    then obtain v2 where v2: "at_c (drop 4 p) 0 = CHR 0x5C" "at_c (drop 4 p) 1 = CHR ''u''"
      "decode_unicode_escape (drop 2 (drop 4 p)) = Some v2" "0xDC00 \<le> v2" "v2 \<le> 0xDFFF"
      "v = (u - 0xD800) * 1024 + (v2 - 0xDC00) + 0x10000" "r = drop 6 (drop 4 p)"
      using assms(1) u by (auto simp: decode_escape_def Let_def bind_eq_Some_conv split: if_splits)
    obtain t where t: "drop 4 p = CHR 0x5C # CHR ''u'' # t"
    proof -
      have "length (drop 4 p) > 1" using v2(1,2) by (auto simp: at_c_def split: if_splits)
      then obtain a b t where "drop 4 p = a # b # t"
        by (cases "drop 4 p"; cases "tl (drop 4 p)") (simp_all del: length_drop)
      then show ?thesis using v2(1,2) that by (simp add: at_c_def)
    qed
    have "utf8_check_string t" using p t utf8_check_ascii by (simp add: code_def)
    then have "utf8_check_string (drop 4 t)" using decode_digits_utf8 [of 4 0 t] v2(3) t by (simp add: decode_unicode_escape_def)
    moreover have "r = drop 4 t" using v2(7) t by simp
    moreover have "u - 0xD800 \<le> 1023" using True by linarith
    then have "v \<le> 0x10FFFF" "0xE000 \<le> v" unfolding v2(6) using v2(4,5) by linarith+
    then have "scalar_value v" by (simp add: scalar_value_def)
    moreover have "length t \<le> length p" using arg_cong [OF t, of length] by simp
    ultimately show ?thesis by simp
  qed
qed

lemma short_ascii: "short_escape c \<Longrightarrow> code c < 0x80 \<and> code (short_value c) < 0x80"
proof -
  assume "short_escape c"
  then have c: "c \<in> {DQUOTE, CHR 0x5C, CHR ''/'', CHR ''b'', CHR ''f'', CHR ''n'', CHR ''r'', CHR ''t''}"
    by (simp only: short_escape_def)
  have "code x < 0x80 \<and> code (short_value x) < 0x80"
    if "x = DQUOTE \<or> x = CHR 0x5C \<or> x = CHR ''/'' \<or> x = CHR ''b'' \<or> x = CHR ''f'' \<or> x = CHR ''n'' \<or> x = CHR ''r'' \<or> x = CHR ''t''" for x
    using that by (elim disjE; hypsubst; simp add: short_value_def code_def)
  with c show ?thesis by blast
qed

lemma decode_text_utf8: "decode_text p = Some s \<Longrightarrow> utf8_check_string p \<Longrightarrow> utf8_check_string s"
proof (induction p arbitrary: s rule: length_induct)
  case (1 p)
  note IH = "1.IH" [rule_format] and d = "1.prems"(1) and u = "1.prems"(2)
  obtain c q where p: "p = c # q" using d by (cases p) simp_all
  show ?case
  proof (cases "code c < 0x80")
    case True
    then have q: "utf8_check_string q" using u p utf8_check_ascii by simp
    consider (quote) "c = DQUOTE" | (long) "c = CHR 0x5C" "c \<noteq> DQUOTE" "hd_c q = CHR ''u''"
      | (short) "c = CHR 0x5C" "c \<noteq> DQUOTE" "hd_c q \<noteq> CHR ''u''" | (plain) "c \<noteq> DQUOTE" "c \<noteq> CHR 0x5C" by blast
    then show ?thesis
    proof cases
      case quote
      then show ?thesis using d p by simp
    next
      case long
      then obtain r t where q2: "q = CHR ''u'' # r" by (cases q) simp_all
      then obtain v r2 bytes t where v: "decode_escape r = Some (v, r2)" "utf8_encode v = Some bytes"
        "decode_text r2 = Some t" "s = bytes @ t"
        using d p long by (auto simp: bind_eq_Some_conv split: if_splits)
      have "utf8_check_string r" using q q2 utf8_check_ascii by (simp add: code_def)
      from decode_escape_utf8 [OF v(1) this] have r2: "utf8_check_string r2" "scalar_value v" "length r2 \<le> length r" by simp_all
      then have "utf8_check_string t" using IH [OF _ v(3)] p q2 by simp
      then show ?thesis using v(4) utf8_check_append [OF utf8_check_encode [OF r2(2) v(2)]] by simp
    next
      case short
      then obtain e r t where e: "q = e # r" "short_escape e" "decode_text r = Some t" "s = short_value e # t"
        using d p by (cases q) (auto simp: bind_eq_Some_conv short_escape_def split: if_splits)
      have "code e < 0x80" "code (short_value e) < 0x80" using short_ascii [OF e(2)] by simp_all
      moreover from this have "utf8_check_string r" using q e(1) utf8_check_ascii by simp
      ultimately show ?thesis using IH [OF _ e(3)] p e utf8_check_ascii by simp
    next
      case plain
      then obtain t where "decode_text q = Some t" "s = c # t" using d p by (auto simp: bind_eq_Some_conv)
      then show ?thesis using IH [of q t] q p True utf8_check_ascii by simp
    qed
  next
    case False
    obtain cp n where it: "utf8_iterate p = Some (cp, n)" and rest: "utf8_check_string (drop n p)"
      using u p utf8_check_string_step [of p] by blast
    from utf8_iterate_sound [OF _ it] p have
      cp: "scalar_value cp" "utf8_encode cp = Some (take n p)" "0 < n" "n \<le> length p" by auto
    have "\<not> cp < 0x80"
    proof
      assume "cp < 0x80"
      then have "take n p = [char_of cp]" using cp(2) by (simp add: utf8_encode_def)
      then have "c = char_of cp" using p cp(3) by (cases n) simp_all
      then show False using False \<open>cp < 0x80\<close> by simp
    qed
    then have high: "0x80 \<le> code x" if "x \<in> set (take n p)" for x using utf8_encode_high [OF _ cp(2) that] by simp
    then have "\<forall>x \<in> set (take n p). x \<noteq> CHR 0x5C \<and> x \<noteq> DQUOTE" using code_special by fastforce
    from decode_plain [OF this, of "drop n p"] obtain t where t: "decode_text (drop n p) = Some t" "s = take n p @ t"
      using d by (cases "decode_text (drop n p)") auto
    have "length (drop n p) < length p" using cp(3,4) by simp
    then have "utf8_check_string t" using IH [OF _ t(1) rest] by simp
    then show ?thesis using t(2) utf8_check_append [OF utf8_check_encode [OF cp(1,2)]] by simp
  qed
qed

section \<open>Tokens\<close>

fun tok_ok :: "token \<Rightarrow> bool" where
  "tok_ok (TOKEN_STRING s) = utf8_check_string s"
| "tok_ok (TOKEN_INTEGER i) = (- (2 ^ 63) \<le> i \<and> i < 2 ^ 63)"
| "tok_ok _ = True"

lemma scan_string_ok:
  assumes "got_ok (Some DQUOTE) st" "lex_scan_string st [DQUOTE] = (tok, st')"
  shows "tok_ok tok \<and> buf_ok (st_buffer st')"
proof (cases "scan_string st [DQUOTE]")
  case None
  with assms show ?thesis by (auto simp: lex_scan_string_def got_ok_def)
next
  case (Some r)
  obtain st1 saved where r: "r = (st1, saved)" by (cases r)
  have q: "code DQUOTE < 0x80" by (simp add: code_def)
  have "st_buffer st = []" using assms(1) buf_ok_ascii [OF _ q] by (simp add: got_ok_def)
  then have "text_ok st [DQUOTE]" using utf8_check_ascii [OF q, of "[]"] by (simp add: text_ok_def buf_ok_def)
  from scan_string_text [OF this Some [unfolded r]] obtain t where
    t: "st_buffer st1 = []" "utf8_check_string saved" "saved = DQUOTE # t" by auto
  then have "utf8_check_string t" using utf8_check_ascii [OF q] by simp
  then show ?thesis using assms(2) Some r t decode_text_utf8 [of t]
    by (auto simp: lex_scan_string_def buf_ok_def split: option.splits)
qed

lemma got_ok_next:
  assumes "got_ok c0 st"
  shows "lex_get_save st saved = (c, st', saved') \<Longrightarrow> got_ok c st'"
    "stream_get st = (c, st') \<Longrightarrow> got_ok c st'"
    "scan_while p st saved = (c, st', saved') \<Longrightarrow> got_ok c st'"
proof -
  have b: "buf_ok (st_buffer st)" using assms by (simp add: got_ok_def)
  show "lex_get_save st saved = (c, st', saved') \<Longrightarrow> got_ok c st'" by (rule get_save_ok [OF b])
  show "stream_get st = (c, st') \<Longrightarrow> got_ok c st'" by (rule get_ok [OF b])
  show "scan_while p st saved = (c, st', saved') \<Longrightarrow> got_ok c st'" by (rule scan_while_ok [OF b])
qed

lemma scan_integer_ok:
  assumes "got_ok c st" "scan_integer c st saved = Some (c', st', saved')"
  shows "got_ok c' st'"
proof -
  obtain c1 st1 saved1 where 1: "(if c = Some (CHR ''-'') then lex_get_save st saved else (c, st, saved)) = (c1, st1, saved1)"
    by (rule prod_cases3)
  then have "got_ok c1 st1" using assms(1) got_ok_next(1) by (auto split: if_splits)
  then show ?thesis using assms(2) 1 got_ok_next [OF \<open>got_ok c1 st1\<close>]
    by (auto simp: scan_integer_def split: prod.splits if_splits)
qed

lemma scan_fraction_ok:
  assumes "got_ok c st" "scan_fraction c st saved = Some (c', st', saved')"
  shows "got_ok c' st'"
  using assms got_ok_next(2) [OF assms(1)] got_ok_next(3)
  by (auto simp: scan_fraction_def split: prod.splits if_splits option.splits)

lemma scan_exponent_ok:
  assumes "got_ok c st" "scan_exponent c st saved = Some (c', st', saved')"
  shows "got_ok c' st'"
proof (cases "c = Some (CHR ''E'') \<or> c = Some (CHR ''e'')")
  case True
  obtain c1 st1 saved1 where 1: "lex_get_save st saved = (c1, st1, saved1)" by (rule prod_cases3)
  obtain c2 st2 saved2 where 2: "(if c1 = Some (CHR ''+'') \<or> c1 = Some (CHR ''-'') then lex_get_save st1 saved1 else (c1, st1, saved1)) = (c2, st2, saved2)"
    by (rule prod_cases3)
  have g1: "got_ok c1 st1" by (rule got_ok_next(1) [OF assms(1) 1])
  then have "got_ok c2 st2" using 2 got_ok_next(1) by (auto split: if_splits)
  moreover have "scan_while isdigit st2 saved2 = (c', st', saved')"
    using assms(2) True 1 2 by (auto simp: scan_exponent_def split: if_splits)
  ultimately show ?thesis by (rule got_ok_next(3))
next
  case False
  with assms show ?thesis by (simp add: scan_exponent_def)
qed

lemma scan_real_ok:
  assumes "got_ok c st" "scan_real c st saved = (tok, st')"
  shows "tok_ok tok \<and> buf_ok (st_buffer st')"
proof (cases "do { (c, st, saved) \<leftarrow> scan_fraction c st saved; scan_exponent c st saved }")
  case None
  with assms show ?thesis by (auto simp: scan_real_def got_ok_def)
next
  case (Some r)
  obtain c2 st2 saved2 where r: "r = (c2, st2, saved2)" by (cases r)
  obtain c1 st1 saved1 where "scan_fraction c st saved = Some (c1, st1, saved1)" "scan_exponent c1 st1 saved1 = Some (c2, st2, saved2)"
    using Some r by (auto simp: bind_eq_Some_conv split: prod.splits)
  then have "got_ok c2 st2" using assms(1) scan_fraction_ok scan_exponent_ok by blast
  from unget_ok [OF this, of saved2] show ?thesis using assms(2) Some r
    by (auto simp: scan_real_def Let_def split: prod.splits if_splits)
qed

lemma json_strtoint_range: "json_strtoint s = Some i \<Longrightarrow> - (2 ^ 63) \<le> i \<and> i < 2 ^ 63"
  unfolding json_strtoint_def Let_def by (metis option.distinct(1) option.inject)

lemma scan_number_ok:
  assumes "got_ok (Some c) st" "lex_scan_number flags c st saved = (tok, st')"
  shows "tok_ok tok \<and> buf_ok (st_buffer st')"
proof (cases "scan_integer (Some c) st saved")
  case None
  with assms show ?thesis by (auto simp: lex_scan_number_def got_ok_def)
next
  case (Some r)
  obtain c2 st2 saved2 where r: "r = (c2, st2, saved2)" by (cases r)
  have g: "got_ok c2 st2" by (rule scan_integer_ok [OF assms(1) Some [unfolded r]])
  obtain st3 saved3 where u: "lex_unget_unsave c2 st2 saved2 = (st3, saved3)" by (cases "lex_unget_unsave c2 st2 saved2")
  have "buf_ok (st_buffer st3)" using unget_ok [OF g, of saved2] u by simp
  then show ?thesis using assms(2) Some r u scan_real_ok [OF g]
    by (auto simp: lex_scan_number_def dest: json_strtoint_range split: if_splits option.splits)
qed

lemma lex_scan_ok:
  assumes "buf_ok (st_buffer st)" "lex_scan flags st = (tok, st')"
  shows "tok_ok tok \<and> buf_ok (st_buffer st')"
proof -
  obtain c st1 saved1 where w: "scan_while json_space st [] = (c, st1, saved1)" by (rule prod_cases3)
  have g: "got_ok c st1" by (rule scan_while_ok [OF assms(1) w])
  show ?thesis
  proof (cases c)
    case None
    with assms(2) w g show ?thesis by (auto simp: lex_scan_def got_ok_def)
  next
    case (Some d)
    have word: "tok_ok (lex_word x)" for x by (simp add: lex_word_def)
    obtain c2 st2 saved2 where a: "scan_while l_isalpha st1 [d] = (c2, st2, saved2)" by (rule prod_cases3)
    obtain st3 saved3 where u: "lex_unget_unsave c2 st2 saved2 = (st3, saved3)" by (cases "lex_unget_unsave c2 st2 saved2")
    have "buf_ok (st_buffer st3)" using unget_ok [OF got_ok_next(3) [OF g a], of saved2] u by simp
    moreover have "buf_ok (st_buffer st1)" "buf_ok []" using g by (simp_all add: got_ok_def buf_ok_def)
    ultimately show ?thesis
      using assms(2) w Some a u word g scan_string_ok [of st1] scan_number_ok [of d st1]
      by (auto simp: lex_scan_def split: if_splits)
  qed
qed

section \<open>Values\<close>

text \<open>\<open>JSON_ALLOW_NUL\<close> lets a NUL into strings, but not into keys.\<close>

fun json_wf :: "bool \<Rightarrow> json \<Rightarrow> bool" where
  "json_wf nul (JSON_OBJECT ps) =
     (distinct (map fst ps) \<and> (\<forall>(k, v) \<in> set ps. utf8_check_string k \<and> NUL \<notin> set k \<and> json_wf nul v))"
| "json_wf nul (JSON_ARRAY xs) = (\<forall>v \<in> set xs. json_wf nul v)"
| "json_wf nul (JSON_STRING s) = (utf8_check_string s \<and> (NUL \<in> set s \<longrightarrow> nul))"
| "json_wf nul (JSON_INTEGER i) = (- (2 ^ 63) \<le> i \<and> i < 2 ^ 63)"
| "json_wf nul _ = True"

fun json_depth :: "json \<Rightarrow> nat" where
  "json_depth (JSON_OBJECT ps) = Suc (Max (insert 0 ((\<lambda>(k, v). json_depth v) ` set ps)))"
| "json_depth (JSON_ARRAY xs) = Suc (Max (insert 0 (json_depth ` set xs)))"
| "json_depth _ = 1"

lemma wf_hashtable_set:
  assumes "json_wf nul (JSON_OBJECT ps)" "utf8_check_string k" "NUL \<notin> set k" "json_wf nul v"
  shows "json_wf nul (JSON_OBJECT (hashtable_set ps k v))"
proof -
  have "set (hashtable_set ps k v) \<subseteq> insert (k, v) (set ps)"
    by (induction ps k v rule: hashtable_set.induct) auto
  moreover have "distinct (map fst (hashtable_set ps k v))"
    using assms(1) keys_hashtable_set [of ps k v] by (auto split: if_splits)
  ultimately show ?thesis using assms by fastforce
qed

definition members_depth :: "(string \<times> json) list \<Rightarrow> nat" where
  "members_depth ps = Max (insert 0 ((\<lambda>(k, v). json_depth v) ` set ps))"

definition elements_depth :: "json list \<Rightarrow> nat" where
  "elements_depth xs = Max (insert 0 (json_depth ` set xs))"

lemma Max_insert_0: "finite A \<Longrightarrow> Max (insert 0 (insert d A)) = max (Max (insert 0 A)) d" for d :: nat
  using Max_insert [of "insert 0 A" d] by (simp only: insert_commute [of 0] finite_insert insert_not_empty max.commute) simp

lemma elements_depth_simps [simp]: "elements_depth [] = 0" "elements_depth (xs @ [v]) = max (elements_depth xs) (json_depth v)"
  using Max_insert_0 [of "json_depth ` set xs" "json_depth v"] by (simp_all add: elements_depth_def del: Max_insert)

lemma members_depth_set: "members_depth (hashtable_set ps k v) \<le> max (members_depth ps) (json_depth v)"
proof -
  have "set (hashtable_set ps k v) \<subseteq> insert (k, v) (set ps)"
    by (induction ps k v rule: hashtable_set.induct) auto
  then have "members_depth (hashtable_set ps k v) \<le> Max (insert 0 ((\<lambda>(k, v). json_depth v) ` insert (k, v) (set ps)))"
    unfolding members_depth_def by (intro Max_mono insert_mono image_mono) auto
  also have "\<dots> = max (members_depth ps) (json_depth v)" 
    using Max_insert_0 [of "(\<lambda>(k, v). json_depth v) ` set ps" "json_depth v"] by (simp add: members_depth_def del: Max_insert)
  finally show ?thesis .
qed

text \<open>A value at a depth of nesting, and the rest of the stream.\<close>

definition result_ok :: "bool \<Rightarrow> nat \<Rightarrow> (json \<times> stream_t) parse_result \<Rightarrow> bool" where
  "result_ok nul depth r \<longleftrightarrow>
     (\<forall>v st. r = PARSED (v, st) \<longrightarrow> json_wf nul v \<and> depth + json_depth v \<le> JSON_PARSER_MAX_DEPTH \<and> buf_ok (st_buffer st))"

lemma next_member_ok:
  assumes "buf_ok (st_buffer st)" "json_wf nul v" "depth + json_depth v \<le> JSON_PARSER_MAX_DEPTH"
    and "\<And>tok st. tok_ok tok \<Longrightarrow> buf_ok (st_buffer st) \<Longrightarrow> result_ok nul depth (loop tok st)"
  shows "result_ok nul depth (next_member b loop v flags st)"
proof -
  obtain t1 st1 where 1: "lex_scan flags st = (t1, st1)" by (cases "lex_scan flags st")
  obtain t2 st2 where 2: "lex_scan flags st1 = (t2, st2)" by (cases "lex_scan flags st1")
  have "buf_ok (st_buffer st1)" using lex_scan_ok [OF assms(1) 1] by simp
  moreover from this have "result_ok nul depth (loop t2 st2)" using lex_scan_ok [OF _ 2] assms(4) by simp
  ultimately show ?thesis using assms(2,3) 1 2 by (simp add: next_member_def result_ok_def)
qed

lemma parser_ok:
  defines "nul \<equiv> \<lambda>flags. has_flag flags JSON_ALLOW_NUL"
  shows "tok_ok token \<Longrightarrow> buf_ok (st_buffer st) \<Longrightarrow> result_ok (nul flags) depth (parse_value fuel flags depth token st)"
    "tok_ok token \<Longrightarrow> buf_ok (st_buffer st) \<Longrightarrow> json_wf (nul flags) (JSON_OBJECT object) \<Longrightarrow>
       Suc depth + members_depth object \<le> JSON_PARSER_MAX_DEPTH \<Longrightarrow>
       result_ok (nul flags) depth (parse_object fuel flags (Suc depth) object token st)"
    "tok_ok token \<Longrightarrow> buf_ok (st_buffer st) \<Longrightarrow> json_wf (nul flags) (JSON_ARRAY array) \<Longrightarrow>
       Suc depth + elements_depth array \<le> JSON_PARSER_MAX_DEPTH \<Longrightarrow>
       result_ok (nul flags) depth (parse_array fuel flags (Suc depth) array token st)"
proof (induction fuel arbitrary: depth token st object array)
  case 0
  { case 1 then show ?case by (simp add: result_ok_def) }
  { case 2 then show ?case by (simp add: result_ok_def) }
  { case 3 then show ?case by (simp add: result_ok_def) }
next
  case (Suc fuel)
  { case 1
    obtain t1 st1 where s: "lex_scan flags st = (t1, st1)" by (cases "lex_scan flags st")
    have ok1: "tok_ok t1" "buf_ok (st_buffer st1)" using lex_scan_ok [OF 1(2) s] by simp_all
    show ?case
    proof (cases "depth + 1 > JSON_PARSER_MAX_DEPTH")
      case True
      then show ?thesis by (simp add: value_body_def result_ok_def)
    next
      case False
      then have "result_ok (nul flags) depth (parse_object fuel flags (Suc depth) [] t1 st1)"
        "result_ok (nul flags) depth (parse_array fuel flags (Suc depth) [] t1 st1)"
        using Suc.IH(2) [OF ok1, of "[]"] Suc.IH(3) [OF ok1, of "[]"] by (simp_all add: members_depth_def)
      then show ?thesis using False s 1 ok1
        by (auto simp: value_body_def result_ok_def nul_def members_depth_def split: token.splits if_splits)
    qed }
  { case 2
    obtain t1 st1 where s1: "lex_scan flags st = (t1, st1)" by (cases "lex_scan flags st")
    obtain t2 st2 where s2: "lex_scan flags st1 = (t2, st2)" by (cases "lex_scan flags st1")
    have ok1: "buf_ok (st_buffer st1)" using lex_scan_ok [OF 2(2) s1] by simp
    have v: "result_ok (nul flags) (Suc depth) (parse_value fuel flags (Suc depth) t2 st2)"
      using Suc.IH(1) lex_scan_ok [OF ok1 s2] by blast
    have after: "result_ok (nul flags) depth (next_member (CHR ''}'')
        (parse_object fuel flags (Suc depth) (hashtable_set object k v)) (JSON_OBJECT (hashtable_set object k v)) flags st3)"
      if "parse_value fuel flags (Suc depth) t2 st2 = PARSED (v, st3)" "token = TOKEN_STRING k" "NUL \<notin> set k" for k v st3
    proof (rule next_member_ok)
      have v: "json_wf (nul flags) v" "Suc depth + json_depth v \<le> JSON_PARSER_MAX_DEPTH" "buf_ok (st_buffer st3)"
        using v that(1) by (auto simp: result_ok_def)
      then show "buf_ok (st_buffer st3)" by simp
      show wf: "json_wf (nul flags) (JSON_OBJECT (hashtable_set object k v))"
        using 2 v that by (intro wf_hashtable_set) auto
      have d: "Suc depth + members_depth (hashtable_set object k v) \<le> JSON_PARSER_MAX_DEPTH"
        using members_depth_set [of object k v] v(2) 2(4) by linarith
      then show "depth + json_depth (JSON_OBJECT (hashtable_set object k v)) \<le> JSON_PARSER_MAX_DEPTH"
        by (simp add: members_depth_def)
      fix tok and st :: stream_t
      assume "tok_ok tok" "buf_ok (st_buffer st)"
      then show "result_ok (nul flags) depth (parse_object fuel flags (Suc depth) (hashtable_set object k v) tok st)"
        using Suc.IH(2) wf d by blast
    qed
    show ?case
    proof (cases "\<exists>k. token = TOKEN_STRING k \<and> NUL \<notin> set k")
      case True
      then show ?thesis using after s1 s2
        by (auto simp: object_body_def Let_def result_ok_def [of _ _ PARSE_ERROR] result_ok_def [of _ _ OUT_OF_FUEL] split: parse_result.split)
    next
      case False
      then show ?thesis by (auto simp: object_body_def result_ok_def split: token.splits)
    qed }
  { case 3
    have v: "result_ok (nul flags) (Suc depth) (parse_value fuel flags (Suc depth) token st)"
      using Suc.IH(1) 3 by blast
    have after: "result_ok (nul flags) depth (next_member (CHR '']'')
        (parse_array fuel flags (Suc depth) (array @ [v])) (JSON_ARRAY (array @ [v])) flags st3)"
      if "parse_value fuel flags (Suc depth) token st = PARSED (v, st3)" for v st3
    proof (rule next_member_ok)
      have v: "json_wf (nul flags) v" "Suc depth + json_depth v \<le> JSON_PARSER_MAX_DEPTH" "buf_ok (st_buffer st3)"
        using v that(1) by (auto simp: result_ok_def)
      then show "buf_ok (st_buffer st3)" by simp
      show wf: "json_wf (nul flags) (JSON_ARRAY (array @ [v]))" using 3 v by auto
      have d: "Suc depth + elements_depth (array @ [v]) \<le> JSON_PARSER_MAX_DEPTH" using v(2) 3(4) by simp
      then show "depth + json_depth (JSON_ARRAY (array @ [v])) \<le> JSON_PARSER_MAX_DEPTH"
        by (simp add: elements_depth_def)
      fix tok and st :: stream_t
      assume "tok_ok tok" "buf_ok (st_buffer st)"
      then show "result_ok (nul flags) depth (parse_array fuel flags (Suc depth) (array @ [v]) tok st)"
        using Suc.IH(3) wf d by blast
    qed
    then show ?case
      by (auto simp: array_body_def Let_def result_ok_def [of _ _ PARSE_ERROR] result_ok_def [of _ _ OUT_OF_FUEL] split: parse_result.split) }
qed

end
