(* ===== verification/Json_Round_Trip.thy ===== *)
theory Json_Round_Trip
  imports Json_Wf
begin

text \<open>
  What \<open>json_dumps\<close> prints, \<open>json_loads\<close> reads back as the same value.
\<close>

section \<open>Reading values\<close>

text \<open>The values that are printed and read exactly: all but reals, with integers or without.\<close>

fun json_ok :: "bool \<Rightarrow> json \<Rightarrow> bool" where
  "json_ok ints (JSON_OBJECT ps) = (distinct (map fst ps) \<and> (\<forall>(k, v) \<in> set ps. utf8_check_string k \<and> NUL \<notin> set k \<and> json_ok ints v))"
| "json_ok ints (JSON_ARRAY xs) = (\<forall>v \<in> set xs. json_ok ints v)"
| "json_ok ints (JSON_STRING s) = (utf8_check_string s \<and> NUL \<notin> set s)"
| "json_ok ints (JSON_INTEGER i) = (ints \<and> - (2 ^ 63) \<le> i \<and> i < 2 ^ 63)"
| "json_ok ints (JSON_REAL t) = False"
| "json_ok ints _ = True"

fun container :: "json \<Rightarrow> bool" where
  "container (JSON_OBJECT ps) = True"
| "container (JSON_ARRAY xs) = True"
| "container _ = False"

definition follows :: "json \<Rightarrow> string \<Rightarrow> bool" where
  "follows j rest \<longleftrightarrow> container j \<or> (\<exists>c d. rest = c # d \<and> punctuation c)"

definition yields :: "(json \<times> stream_t) parse_result \<Rightarrow> json \<Rightarrow> string \<Rightarrow> bool" where
  "yields r j rest \<longleftrightarrow> r = OUT_OF_FUEL \<or> (\<exists>st. r = PARSED (j, st) \<and> at_stream st rest)"

definition value_token :: "token \<Rightarrow> bool" where
  "value_token tok \<longleftrightarrow> tok \<noteq> TOKEN_EOF \<and> tok \<noteq> TOKEN_CHAR (CHR ''}'') \<and> tok \<noteq> TOKEN_CHAR (CHR '']'')"

definition reads_json :: "nat \<Rightarrow> nat \<Rightarrow> string \<Rightarrow> json \<Rightarrow> bool" where
  "reads_json flags depth t j \<longleftrightarrow>
     (\<forall>st0 rest fuel. at_stream st0 (t @ rest) \<and> follows j rest \<longrightarrow>
        (\<exists>tok st. lex_scan flags st0 = (tok, st) \<and> value_token tok \<and> yields (parse_value fuel flags depth tok st) j rest))"

lemma reads_scalar:
  assumes "\<And>st0 rest. at_stream st0 (t @ rest) \<Longrightarrow> follows j rest \<Longrightarrow>
      \<exists>tok st. lex_scan flags st0 = (tok, st) \<and> at_stream st rest \<and> value_token tok \<and>
        (\<forall>ol al. value_body ol al flags depth tok st = PARSED (j, st))"
  shows "reads_json flags depth t j"
  unfolding reads_json_def
proof (intro allI impI)
  fix st0 rest fuel
  assume "at_stream st0 (t @ rest) \<and> follows j rest"
  then obtain tok st where "lex_scan flags st0 = (tok, st)" "at_stream st rest" "value_token tok"
    "value_body ol al flags depth tok st = PARSED (j, st)" for ol al
    using assms by blast
  then show "\<exists>tok st. lex_scan flags st0 = (tok, st) \<and> value_token tok \<and> yields (parse_value fuel flags depth tok st) j rest"
    by (cases fuel) (auto simp: yields_def)
qed

lemma reads_jsonD:
  assumes "reads_json flags depth t j" "at_stream st0 (t @ rest)" "follows j rest"
  obtains tok st where "lex_scan flags st0 = (tok, st)" "value_token tok" "\<And>fuel. yields (parse_value fuel flags depth tok st) j rest"
proof -
  obtain tok st where s: "lex_scan flags st0 = (tok, st)" by (cases "lex_scan flags st0")
  have "value_token tok \<and> yields (parse_value fuel flags depth tok st) j rest" for fuel
    using assms s unfolding reads_json_def by fastforce
  with s show ?thesis using that by blast
qed

lemma next_last:
  assumes "at_stream st (b # rest)" "punctuation b" "b \<noteq> CHR '',''"
  shows "next_member b loop j flags st = PARSED (j, stream_init rest)"
  using lex_punctuation [OF assms(1,2)] assms(3) by (simp add: next_member_def)

lemma next_comma:
  assumes "at_stream st (CHR '','' # rest)" "lex_scan flags (stream_init rest) = (tok, st')"
  shows "next_member b loop j flags st = loop tok st'"
  using lex_punctuation [OF assms(1)] assms(2) by (simp add: next_member_def punctuation_def)

lemma reads_array_loop:
  assumes "list_all2 (reads_json flags depth) ts xs" "xs \<noteq> []" "at_stream st0 (join_comma ts @ CHR '']'' # rest)"
  shows "\<exists>tok st. lex_scan flags st0 = (tok, st) \<and> value_token tok \<and>
    yields (parse_array fuel flags depth acc tok st) (JSON_ARRAY (acc @ xs)) rest"
  using assms
proof (induction ts xs arbitrary: st0 acc fuel rule: list_all2_induct)
  case (Cons t ts x xs)
  let ?rest = "if ts = [] then CHR '']'' # rest else CHR '','' # join_comma ts @ CHR '']'' # rest"
  have "at_stream st0 (t @ ?rest)" using Cons.prems by (cases ts) simp_all
  moreover have "follows x ?rest" by (simp add: follows_def punctuation_def)
  ultimately obtain tok st where s: "lex_scan flags st0 = (tok, st)" "value_token tok"
    and y: "\<And>fuel. yields (parse_value fuel flags depth tok st) x ?rest"
    by (rule reads_jsonD [OF Cons.hyps(1)]) blast
  have "yields (parse_array fuel flags depth acc tok st) (JSON_ARRAY (acc @ x # xs)) rest"
  proof (cases fuel)
    case (Suc f)
    show ?thesis
    proof (cases "parse_value f flags depth tok st")
      case (PARSED r)
      then obtain st1 where r: "parse_value f flags depth tok st = PARSED (x, st1)" "at_stream st1 ?rest"
        using y [of f] by (auto simp: yields_def)
      then have p: "parse_array fuel flags depth acc tok st =
          next_member (CHR '']'') (parse_array f flags depth (acc @ [x])) (JSON_ARRAY (acc @ [x])) flags st1"
        using Suc s(2) by (simp add: array_body_def value_token_def Let_def)
      show ?thesis
      proof (cases "ts = []")
        case True
        moreover from this have "xs = []" using Cons.hyps(2) by simp
        ultimately show ?thesis using p next_last [of st1 "CHR '']''" rest] r(2) by (simp add: yields_def punctuation_def)
      next
        case False
        then have "xs \<noteq> []" using Cons.hyps(2) by auto
        with False Cons.IH [of "stream_init (join_comma ts @ CHR '']'' # rest)" f "acc @ [x]"] obtain tok2 st2 where
          "lex_scan flags (stream_init (join_comma ts @ CHR '']'' # rest)) = (tok2, st2)"
          "yields (parse_array f flags depth (acc @ [x]) tok2 st2) (JSON_ARRAY ((acc @ [x]) @ xs)) rest" by auto
        then show ?thesis using p next_comma [of st1 "join_comma ts @ CHR '']'' # rest" flags tok2 st2] r(2) False by simp
      qed
    next
      case PARSE_ERROR
      then show ?thesis using y [of f] by (simp add: yields_def)
    next
      case OUT_OF_FUEL
      then show ?thesis using Suc s(2) by (simp add: array_body_def value_token_def yields_def)
    qed
  qed (simp add: yields_def)
  with s show ?case by blast
qed simp

lemma hashtable_set_new: "k \<notin> fst ` set ps \<Longrightarrow> hashtable_set ps k v = ps @ [(k, v)]"
  by (induction ps k v rule: hashtable_set.induct) auto

lemma hashtable_get_new: "k \<notin> fst ` set ps \<Longrightarrow> hashtable_get ps k = None"
  by (induction ps k rule: hashtable_get.induct) auto

text \<open>The text of a member of an object.\<close>

definition reads_member :: "nat \<Rightarrow> nat \<Rightarrow> string \<Rightarrow> string \<times> json \<Rightarrow> bool" where
  "reads_member flags depth t p \<longleftrightarrow>
     (\<exists>tk tv. t = tk @ CHR '':'' # tv \<and> NUL \<notin> set (fst p) \<and> reads_json flags depth tv (snd p) \<and>
        (\<forall>st d. at_stream st (tk @ d) \<longrightarrow> lex_scan flags st = (TOKEN_STRING (fst p), stream_init d)))"

lemma reads_memberI:
  "NUL \<notin> set k \<Longrightarrow> reads_json flags depth tv v \<Longrightarrow>
     (\<And>st d. at_stream st (tk @ d) \<Longrightarrow> lex_scan flags st = (TOKEN_STRING k, stream_init d)) \<Longrightarrow>
     reads_member flags depth (tk @ CHR '':'' # tv) (k, v)"
  unfolding reads_member_def fst_conv snd_conv by blast

lemma reads_object_loop:
  assumes "list_all2 (reads_member flags depth) ts ps" "ps \<noteq> []" "at_stream st0 (join_comma ts @ CHR ''}'' # rest)"
    "distinct (map fst (acc @ ps))"
  shows "\<exists>tok st. lex_scan flags st0 = (tok, st) \<and> value_token tok \<and>
    yields (parse_object fuel flags depth acc tok st) (JSON_OBJECT (acc @ ps)) rest"
  using assms
proof (induction ts ps arbitrary: st0 acc fuel rule: list_all2_induct)
  case (Cons t ts p ps)
  obtain k x where p: "p = (k, x)" by (cases p)
  obtain tk tv where t: "t = tk @ CHR '':'' # tv" "NUL \<notin> set k" "reads_json flags depth tv x"
    "\<And>st d. at_stream st (tk @ d) \<Longrightarrow> lex_scan flags st = (TOKEN_STRING k, stream_init d)"
    using Cons.hyps(1) p by (auto simp: reads_member_def)
  let ?rest = "if ts = [] then CHR ''}'' # rest else CHR '','' # join_comma ts @ CHR ''}'' # rest"
  have "at_stream st0 (tk @ CHR '':'' # tv @ ?rest)" using Cons.prems t(1) by (cases ts) simp_all
  then have s: "lex_scan flags st0 = (TOKEN_STRING k, stream_init (CHR '':'' # tv @ ?rest))" by (rule t(4))
  have colon: "lex_scan flags (stream_init (CHR '':'' # tv @ ?rest)) = (TOKEN_CHAR (CHR '':''), stream_init (tv @ ?rest))"
    by (rule lex_punctuation) (simp_all add: punctuation_def)
  have "follows x ?rest" by (simp add: follows_def punctuation_def)
  then obtain tok st where v: "lex_scan flags (stream_init (tv @ ?rest)) = (tok, st)"
    and y: "\<And>fuel. yields (parse_value fuel flags depth tok st) x ?rest"
    by (rule reads_jsonD [OF t(3) at_init]) blast
  have k: "k \<notin> fst ` set acc" using Cons.prems(3) p by auto
  have "yields (parse_object fuel flags depth acc (TOKEN_STRING k) (stream_init (CHR '':'' # tv @ ?rest))) (JSON_OBJECT (acc @ p # ps)) rest"
  proof (cases fuel)
    case (Suc f)
    have body: "parse_object fuel flags depth acc (TOKEN_STRING k) (stream_init (CHR '':'' # tv @ ?rest)) =
        (case parse_value f flags depth tok st of
           OUT_OF_FUEL \<Rightarrow> OUT_OF_FUEL | PARSE_ERROR \<Rightarrow> PARSE_ERROR
         | PARSED (v, st) \<Rightarrow> next_member (CHR ''}'') (parse_object f flags depth (acc @ [(k, v)])) (JSON_OBJECT (acc @ [(k, v)])) flags st)"
      using Suc t(2) colon v k by (simp add: object_body_def Let_def hashtable_set_new hashtable_get_new split: parse_result.split)
    show ?thesis
    proof (cases "parse_value f flags depth tok st")
      case (PARSED r)
      then obtain st1 where r: "parse_value f flags depth tok st = PARSED (x, st1)" "at_stream st1 ?rest"
        using y [of f] by (auto simp: yields_def)
      show ?thesis
      proof (cases "ts = []")
        case True
        moreover from this have "ps = []" using Cons.hyps(2) by simp
        ultimately show ?thesis using body r next_last [of st1 "CHR ''}''" rest] p by (simp add: yields_def punctuation_def)
      next
        case False
        then have "ps \<noteq> []" using Cons.hyps(2) by auto
        with False Cons.IH [of "stream_init (join_comma ts @ CHR ''}'' # rest)" "acc @ [(k, x)]" f] Cons.prems(3) p obtain tok2 st2 where
          "lex_scan flags (stream_init (join_comma ts @ CHR ''}'' # rest)) = (tok2, st2)"
          "yields (parse_object f flags depth (acc @ [(k, x)]) tok2 st2) (JSON_OBJECT ((acc @ [(k, x)]) @ ps)) rest" by auto
        then show ?thesis using body r next_comma [of st1 "join_comma ts @ CHR ''}'' # rest" flags tok2 st2] False p by simp
      qed
    next
      case PARSE_ERROR
      then show ?thesis using y [of f] by (simp add: yields_def)
    next
      case OUT_OF_FUEL
      then show ?thesis using body by (simp add: yields_def)
    qed
  qed (simp add: yields_def)
  with s show ?case by (auto simp: value_token_def)
qed simp

text \<open>Containers: the opening bracket, then the closing one or the loop.\<close>

lemma reads_container:
  assumes "b \<in> {CHR ''['', CHR ''{''}" "e = (if b = CHR ''['' then CHR '']'' else CHR ''}'')" "container j" "depth < JSON_PARSER_MAX_DEPTH"
    and "j = (if b = CHR ''['' then JSON_ARRAY [] else JSON_OBJECT []) \<and> u = [] \<or>
      (\<forall>rest st0 fuel. at_stream st0 (u @ e # rest) \<longrightarrow>
        (\<exists>tok st. lex_scan flags st0 = (tok, st) \<and> value_token tok \<and>
          yields (if b = CHR ''['' then parse_array fuel flags (depth + 1) [] tok st else parse_object fuel flags (depth + 1) [] tok st) j rest))"
  shows "reads_json flags depth (b # u @ [e]) j"
  unfolding reads_json_def
proof (intro allI impI)
  fix st0 rest fuel
  assume at: "at_stream st0 ((b # u @ [e]) @ rest) \<and> follows j rest"
  have b: "lex_scan flags st0 = (TOKEN_CHAR b, stream_init (u @ e # rest))"
    using at assms(1) by (intro lex_punctuation) (auto simp: punctuation_def)
  have "value_token (TOKEN_CHAR b)" using assms(1) by (auto simp: value_token_def)
  moreover have "yields (parse_value fuel flags depth (TOKEN_CHAR b) (stream_init (u @ e # rest))) j rest"
  proof (cases fuel)
    case (Suc f)
    have e: "punctuation e" using assms(1,2) by (auto simp: punctuation_def)
    consider (empty) "j = (if b = CHR ''['' then JSON_ARRAY [] else JSON_OBJECT [])" "u = []"
      | (members) tok st where "lex_scan flags (stream_init (u @ e # rest)) = (tok, st)" "value_token tok"
        "yields (if b = CHR ''['' then parse_array f flags (depth + 1) [] tok st else parse_object f flags (depth + 1) [] tok st) j rest"
      using assms(5) at_init [of "u @ e # rest"] by blast
    then show ?thesis
    proof cases
      case empty
      then have "lex_scan flags (stream_init (u @ e # rest)) = (TOKEN_CHAR e, stream_init rest)" using e by (auto intro: lex_punctuation)
      then show ?thesis using Suc assms(1,2,4) empty by (auto simp: value_body_def yields_def)
    next
      case members
      then show ?thesis using Suc assms(1,2,4) by (auto simp: value_body_def value_token_def)
    qed
  qed (simp add: yields_def)
  ultimately show "\<exists>tok st. lex_scan flags st0 = (tok, st) \<and> value_token tok \<and> yields (parse_value fuel flags depth tok st) j rest"
    using b by blast
qed

lemma sequence_opt_all:
  "\<forall>x \<in> set xs. \<exists>t. f x = Some t \<and> NUL \<notin> set t \<and> P t x \<Longrightarrow>
     \<exists>ts. sequence_opt (map f xs) = Some ts \<and> list_all2 P ts xs \<and> NUL \<notin> set (join_comma ts)"
proof (induction xs)
  case (Cons x xs)
  then obtain t ts where "f x = Some t" "NUL \<notin> set t" "P t x" "sequence_opt (map f xs) = Some ts" "list_all2 P ts xs" "NUL \<notin> set (join_comma ts)"
    by auto
  then show ?case by (cases ts) auto
qed simp

lemma dump_reads:
  assumes flag: "ints = (\<not> has_flag flags JSON_DECODE_INT_AS_REAL)"
  shows "json_ok ints j \<Longrightarrow> depth + json_depth j \<le> JSON_PARSER_MAX_DEPTH \<Longrightarrow>
    \<exists>t. do_dump j = Some t \<and> NUL \<notin> set t \<and> reads_json flags depth t j"
proof (induction j arbitrary: depth)
  case (JSON_OBJECT ps)
  let ?f = "\<lambda>(k, v). do { tk \<leftarrow> dump_string k; tv \<leftarrow> do_dump v; Some (tk @ CHR '':'' # tv) }"
  have "\<forall>p \<in> set ps. \<exists>t. ?f p = Some t \<and> NUL \<notin> set t \<and> reads_member flags (depth + 1) t p"
  proof
    fix p
    assume p: "p \<in> set ps"
    obtain k v where kv: "p = (k, v)" by (cases p)
    have ok: "utf8_check_string k" "NUL \<notin> set k" "json_ok ints v" using JSON_OBJECT.prems(1) p kv by auto
    have "json_depth v \<le> Max (insert 0 ((\<lambda>(k, v). json_depth v) ` set ps))"
      by (rule Max_ge) (use p kv in \<open>auto intro: rev_image_eqI\<close>)
    then have "depth + 1 + json_depth v \<le> JSON_PARSER_MAX_DEPTH" using JSON_OBJECT.prems(2) by simp
    then obtain tv where "do_dump v = Some tv" "NUL \<notin> set tv" "reads_json flags (depth + 1) tv v"
      using JSON_OBJECT.IH [OF p, of v "depth + 1"] ok(3) kv by auto
    moreover obtain tk where "dump_string k = Some tk" "NUL \<notin> set tk"
      "\<And>st d flags. at_stream st (tk @ d) \<Longrightarrow> lex_scan flags st = (TOKEN_STRING k, stream_init d)"
      by (rule dump_string_read [OF ok(1)]) blast
    ultimately show "\<exists>t. ?f p = Some t \<and> NUL \<notin> set t \<and> reads_member flags (depth + 1) t p"
      using kv ok(2) by (auto intro!: reads_memberI)
  qed
  from sequence_opt_all [OF this] obtain ts where ts: "sequence_opt (map ?f ps) = Some ts" "list_all2 (reads_member flags (depth + 1)) ts ps"
    "NUL \<notin> set (join_comma ts)" by blast
  have "reads_json flags depth (CHR ''{'' # join_comma ts @ [CHR ''}'']) (JSON_OBJECT ps)"
  proof (rule reads_container)
    show "depth < JSON_PARSER_MAX_DEPTH" using JSON_OBJECT.prems(2) by simp
    show "JSON_OBJECT ps = (if CHR ''{'' = CHR ''['' then JSON_ARRAY [] else JSON_OBJECT []) \<and> join_comma ts = [] \<or>
      (\<forall>rest st0 fuel. at_stream st0 (join_comma ts @ CHR ''}'' # rest) \<longrightarrow>
        (\<exists>tok st. lex_scan flags st0 = (tok, st) \<and> value_token tok \<and>
          yields (if CHR ''{'' = CHR ''['' then parse_array fuel flags (depth + 1) [] tok st else parse_object fuel flags (depth + 1) [] tok st)
            (JSON_OBJECT ps) rest))"
      using reads_object_loop [OF ts(2), of _ _ "[]"] ts(2) JSON_OBJECT.prems(1) by (cases ps) auto
  qed simp_all
  moreover have "do_dump (JSON_OBJECT ps) = Some (CHR ''{'' # join_comma ts @ [CHR ''}''])" using ts(1) by simp
  moreover have "NUL \<notin> set (CHR ''{'' # join_comma ts @ [CHR ''}''])" using ts(3) by simp
  ultimately show ?case by blast
next
  case (JSON_ARRAY xs)
  have "\<forall>x \<in> set xs. \<exists>t. do_dump x = Some t \<and> NUL \<notin> set t \<and> reads_json flags (depth + 1) t x"
  proof
    fix x
    assume x: "x \<in> set xs"
    then have "json_depth x \<le> Max (insert 0 (json_depth ` set xs))" by (intro Max_ge) auto
    then have "depth + 1 + json_depth x \<le> JSON_PARSER_MAX_DEPTH" using JSON_ARRAY.prems(2) by simp
    then show "\<exists>t. do_dump x = Some t \<and> NUL \<notin> set t \<and> reads_json flags (depth + 1) t x"
      using JSON_ARRAY.IH [OF x, of "depth + 1"] JSON_ARRAY.prems(1) x by auto
  qed
  from sequence_opt_all [OF this] obtain ts where ts: "sequence_opt (map do_dump xs) = Some ts" "list_all2 (reads_json flags (depth + 1)) ts xs"
    "NUL \<notin> set (join_comma ts)" by blast
  have "reads_json flags depth (CHR ''['' # join_comma ts @ [CHR '']'']) (JSON_ARRAY xs)"
  proof (rule reads_container)
    show "depth < JSON_PARSER_MAX_DEPTH" using JSON_ARRAY.prems(2) by simp
    show "JSON_ARRAY xs = (if CHR ''['' = CHR ''['' then JSON_ARRAY [] else JSON_OBJECT []) \<and> join_comma ts = [] \<or>
      (\<forall>rest st0 fuel. at_stream st0 (join_comma ts @ CHR '']'' # rest) \<longrightarrow>
        (\<exists>tok st. lex_scan flags st0 = (tok, st) \<and> value_token tok \<and>
          yields (if CHR ''['' = CHR ''['' then parse_array fuel flags (depth + 1) [] tok st else parse_object fuel flags (depth + 1) [] tok st)
            (JSON_ARRAY xs) rest))"
      using reads_array_loop [OF ts(2), of _ _ _ "[]"] ts(2) by (cases xs) auto
  qed simp_all
  moreover have "do_dump (JSON_ARRAY xs) = Some (CHR ''['' # join_comma ts @ [CHR '']''])" using ts(1) by simp
  moreover have "NUL \<notin> set (CHR ''['' # join_comma ts @ [CHR '']''])" using ts(3) by simp
  ultimately show ?case by blast
next
  case (JSON_STRING s)
  then obtain t where "dump_string s = Some t" "NUL \<notin> set t"
    and t: "\<And>st d flags. at_stream st (t @ d) \<Longrightarrow> lex_scan flags st = (TOKEN_STRING s, stream_init d)"
    using dump_string_read [of s] by auto
  moreover have "reads_json flags depth t (JSON_STRING s)"
  proof (rule reads_scalar)
    fix st0 rest
    assume "at_stream st0 (t @ rest)"
    with t JSON_STRING.prems show "\<exists>tok st. lex_scan flags st0 = (tok, st) \<and> at_stream st rest \<and> value_token tok \<and>
        (\<forall>ol al. value_body ol al flags depth tok st = PARSED (JSON_STRING s, st))"
      by (auto simp: value_token_def value_body_def)
  qed
  ultimately show ?case by simp
next
  case (JSON_INTEGER i)
  have "reads_json flags depth (show_int i) (JSON_INTEGER i)"
  proof (rule reads_scalar)
    fix st0 rest
    assume "at_stream st0 (show_int i @ rest)" "follows (JSON_INTEGER i) rest"
    then show "\<exists>tok st. lex_scan flags st0 = (tok, st) \<and> at_stream st rest \<and> value_token tok \<and>
        (\<forall>ol al. value_body ol al flags depth tok st = PARSED (JSON_INTEGER i, st))"
      using JSON_INTEGER.prems flag
      by (auto simp: follows_def value_token_def value_body_def lex_integer)
  qed
  moreover have "NUL \<notin> set (show_int i)" using show_nat_digits [of NUL] by (auto simp: show_int_def isdigit_def)
  ultimately show ?case by simp
next
  case JSON_TRUE
  have "reads_json flags depth ''true'' JSON_TRUE"
    using JSON_TRUE.prems lex_words [of _ "''true''"]
    by (intro reads_scalar) (auto simp: follows_def value_token_def value_body_def lex_word_def)
  then show ?case by simp
next
  case JSON_FALSE
  have "reads_json flags depth ''false'' JSON_FALSE"
    using JSON_FALSE.prems lex_words [of _ "''false''"]
    by (intro reads_scalar) (auto simp: follows_def value_token_def value_body_def lex_word_def)
  then show ?case by simp
next
  case JSON_NULL
  have "reads_json flags depth ''null'' JSON_NULL"
    using JSON_NULL.prems lex_words [of _ "''null''"]
    by (intro reads_scalar) (auto simp: follows_def value_token_def value_body_def lex_word_def)
  then show ?case by simp
qed simp

lemma loads_of_dumps:
  assumes "json_ok (\<not> has_flag flags JSON_DECODE_INT_AS_REAL) j" "container j" "json_depth j \<le> JSON_PARSER_MAX_DEPTH"
  shows "\<exists>t. json_dumps j = Some t \<and> json_loads t flags = PARSED j"
proof -
  obtain t where t: "do_dump j = Some t" "NUL \<notin> set t" "reads_json flags 0 t j"
    using dump_reads [OF refl assms(1), of 0] assms(3) by auto
  obtain tok st where s: "lex_scan flags (stream_init t) = (tok, st)"
    and y: "\<And>fuel. yields (parse_value fuel flags 0 tok st) j []"
    by (rule reads_jsonD [OF t(3), of "stream_init t" "[]"]) (use assms(2) in \<open>simp_all add: follows_def\<close>)
  have tok: "tok = TOKEN_CHAR (CHR ''['') \<or> tok = TOKEN_CHAR (CHR ''{'')"
  proof -
    have "\<exists>c d. t = c # d \<and> (c = CHR ''['' \<or> c = CHR ''{'')"
      using t(1) assms(2) by (cases j) (auto simp: bind_eq_Some_conv)
    then obtain c d where "t = c # d" "c = CHR ''['' \<or> c = CHR ''{''" by blast
    then show ?thesis using s lex_punctuation [of "stream_init t" c d flags] by (auto simp: punctuation_def)
  qed
  have "returns st (parse_value (2 * st_size st + 3) flags 0 tok st)" using parser_returns by blast
  then obtain st' where st': "parse_value (2 * st_size st + 3) flags 0 tok st = PARSED (j, st')" "st' = stream_init []"
    using y [of "2 * st_size st + 3"] by (auto simp: yields_def returns_def at_stream_def)
  have "lex_scan flags (stream_init []) = (TOKEN_EOF, (stream_init [])\<lparr>st_state := STREAM_STATE_EOF\<rparr>)"
    by (simp add: lex_scan_def scan_while.simps lex_get_save_def stream_get_def stream_fill_def stream_init_def)
  then have "json_loads t flags = PARSED j"
    using s tok st' cstr_no_NUL [OF t(2)] by (auto simp: json_loads_def parse_json_def)
  moreover have "json_dumps j = Some t" using t(1) assms(2) by (cases j) (simp_all add: json_dumps_def)
  ultimately show ?thesis by blast
qed

section \<open>Properties\<close>

text \<open>
  C21: \<open>json_loads\<close> returns for every input, whatever the flags: the depth of the recursion is
  bounded by the bytes of the input, and the fuel of the model is never used up.
\<close>

theorem json_loads_returns: "json_loads string flags \<noteq> OUT_OF_FUEL"
  by (simp add: json_loads_def parse_json_returns)

text \<open>
  C13: JSON that was printed is read back. For every array or object whose strings are UTF-8
  without NUL, whose keys are distinct, whose integers have 64 bits and that is nested at most
  2048 deep, \<open>json_dumps\<close> prints a text, and \<open>json_loads\<close> of that text is the same value. There
  must be no integer when the flag \<open>JSON_DECODE_INT_AS_REAL\<close> is set.
\<close>

theorem json_loads_dumps:
  assumes "json_ok (\<not> has_flag flags JSON_DECODE_INT_AS_REAL) j" "container j" "json_depth j \<le> JSON_PARSER_MAX_DEPTH"
  shows "\<exists>t. json_dumps j = Some t \<and> json_loads t flags = PARSED j"
  by (rule loads_of_dumps [OF assms])

theorem json_loads_dumps_witness:
  "\<exists>t. json_dumps (JSON_ARRAY [JSON_STRING [DQUOTE, LF], JSON_OBJECT [(''k'', JSON_INTEGER (-7)), ([], JSON_NULL)]]) = Some t \<and>
     json_loads t 0 = PARSED (JSON_ARRAY [JSON_STRING [DQUOTE, LF], JSON_OBJECT [(''k'', JSON_INTEGER (-7)), ([], JSON_NULL)]])"
  by (rule json_loads_dumps)
    (simp_all add: utf8_check_string.simps utf8_check_first_def code_def JSON_PARSER_MAX_DEPTH_def has_flag_def)

text \<open>
  C14: Every value that \<open>json_loads\<close> returns is well formed, whatever the input and the flags: all
  strings and keys are UTF-8, the keys of an object are distinct and have no NUL, strings have no
  NUL unless \<open>JSON_ALLOW_NUL\<close> is set, integers have 64 bits, and the nesting is at most 2048 deep.
\<close>

theorem json_loads_wf:
  assumes "json_loads string flags = PARSED j"
  shows "json_wf (has_flag flags JSON_ALLOW_NUL) j \<and> json_depth j \<le> JSON_PARSER_MAX_DEPTH"
proof -
  let ?st = "stream_init (cstr string)"
  obtain tok st where s: "lex_scan flags ?st = (tok, st)" by (cases "lex_scan flags ?st")
  have "buf_ok (st_buffer ?st)" by (simp add: stream_init_def buf_ok_def)
  from parser_ok(1) lex_scan_ok [OF this s] have
    "result_ok (has_flag flags JSON_ALLOW_NUL) 0 (parse_value (2 * st_size st + 3) flags 0 tok st)" by blast
  then show ?thesis using assms s
    by (auto simp: json_loads_def parse_json_def result_ok_def split: if_splits parse_result.splits)
qed

theorem json_loads_wf_witness:
  "\<exists>t. json_loads t 0 = PARSED (JSON_ARRAY [JSON_STRING ''a'', JSON_TRUE]) \<and>
     json_wf False (JSON_ARRAY [JSON_STRING ''a'', JSON_TRUE]) \<and>
     json_depth (JSON_ARRAY [JSON_STRING ''a'', JSON_TRUE]) \<le> JSON_PARSER_MAX_DEPTH"
proof -
  let ?j = "JSON_ARRAY [JSON_STRING ''a'', JSON_TRUE]"
  obtain t where t: "json_loads t 0 = PARSED ?j"
    using loads_of_dumps [of 0 ?j]
    by (auto simp: utf8_check_string.simps utf8_check_first_def code_def JSON_PARSER_MAX_DEPTH_def has_flag_def)
  from json_loads_wf [OF this] t show ?thesis
    by (intro exI [of _ t]) (simp add: has_flag_def JSON_ALLOW_NUL_def del: json_wf.simps json_depth.simps)
qed

end
