(* ===== verification/Format_Json.thy ===== *)
theory Format_Json
  imports Format_Common Json_Round_Trip
begin

text \<open>
  The JSON output format, \<open>formats/json.c\<close>, and the JSON messages of WebSocket clients.

  Strings of replies are passed to jansson as C strings. A string that is not UTF-8 has no JSON
  value, and \<open>json_object_set_new\<close> and \<open>json_array_append_new\<close> leave their target as it is then.
\<close>

section \<open>Replies as JSON values\<close>

text \<open>\<open>r->str\<close>, a null pointer for the replies without text.\<close>

fun reply_str :: "redisReply \<Rightarrow> string option" where
  "reply_str (REDIS_REPLY_STRING s) = Some s"
| "reply_str (REDIS_REPLY_STATUS s) = Some s"
| "reply_str (REDIS_REPLY_ERROR s) = Some s"
| "reply_str (REDIS_REPLY_DOUBLE s) = Some s"
| "reply_str (REDIS_REPLY_VERB v s) = Some s"
| "reply_str _ = None"

text \<open>One line \<open>key:value CR LF\<close> of the answer to \<open>INFO\<close>, and the rest.\<close>

definition info_next :: "string \<Rightarrow> (string \<times> string \<times> string) option" where
  "info_next p =
     (if CHR '':'' \<notin> set p then None
      else let key = takeWhile (\<lambda>c. c \<noteq> CHR '':'') p; p = tl (dropWhile (\<lambda>c. c \<noteq> CHR '':'') p) in
        if CR \<notin> set p then None
        else let val = takeWhile (\<lambda>c. c \<noteq> CR) p; p = tl (dropWhile (\<lambda>c. c \<noteq> CR) p) in
          Some (key, val, if hd_c p = LF then tl p else p))"

lemma info_next_shorter: "info_next p = Some (k, v, q) \<Longrightarrow> length q < length p"
proof -
  have "length (tl (dropWhile P p)) < length p" if "0 < length p" for P and p :: string
    using length_dropWhile_le [of P p] that unfolding length_tl by linarith
  then have l: "length (tl (dropWhile P p)) < length p \<or> p = []" for P and p :: string by blast
  assume "info_next p = Some (k, v, q)"
  then show ?thesis
    using l [of "\<lambda>c. c \<noteq> CHR '':''" p] l [of "\<lambda>c. c \<noteq> CR" "tl (dropWhile (\<lambda>c. c \<noteq> CHR '':'') p)"]
    by (auto simp: info_next_def Let_def split: if_splits)
qed

function info_pairs :: "string \<Rightarrow> (string \<times> string) list" where
  "info_pairs p = (case info_next p of None \<Rightarrow> [] | Some (key, val, p) \<Rightarrow> (key, val) # info_pairs p)"
  by pat_completeness auto
termination by (relation "measure length") (auto dest: info_next_shorter)

declare info_pairs.simps [simp del]

definition json_info_reply :: "string \<Rightarrow> json" where
  "json_info_reply s =
     foldl (\<lambda>j (key, val). json_object_set_new j key (json_string val)) (JSON_OBJECT []) (info_pairs (cstr s))"

text \<open>\<open>json_expand_array\<close> and the value of one element.\<close>

fun expand_element :: "redisReply \<Rightarrow> json option" where
  "expand_element (REDIS_REPLY_STATUS s) = json_string s"
| "expand_element (REDIS_REPLY_STRING s) = json_string s"
| "expand_element (REDIS_REPLY_INTEGER i) = Some (JSON_INTEGER i)"
| "expand_element (REDIS_REPLY_ARRAY es) = Some (foldl json_array_append_new (JSON_ARRAY []) (map expand_element es))"
| "expand_element _ = Some JSON_NULL"

definition json_expand_array :: "redisReply list \<Rightarrow> json" where
  "json_expand_array es = foldl json_array_append_new (JSON_ARRAY []) (map expand_element es)"

text \<open>The elements in pairs, for an even number of them.\<close>

fun keyvalue_loop :: "redisReply list \<Rightarrow> json \<Rightarrow> json option" where
  "keyvalue_loop (REDIS_REPLY_STRING k # v # es) j =
     (case v of
        REDIS_REPLY_NIL \<Rightarrow> keyvalue_loop es (json_object_set_new j k (Some JSON_NULL))
      | REDIS_REPLY_STRING s \<Rightarrow> keyvalue_loop es (json_object_set_new j k (json_string s))
      | REDIS_REPLY_INTEGER i \<Rightarrow> keyvalue_loop es (json_object_set_new j k (Some (JSON_INTEGER i)))
      | REDIS_REPLY_ARRAY xs \<Rightarrow> keyvalue_loop es (json_object_set_new j k (Some (json_expand_array xs)))
      | _ \<Rightarrow> None)"
| "keyvalue_loop [] j = Some j"
| "keyvalue_loop _ j = None"

definition json_array_to_keyvalue_reply :: "redisReply list \<Rightarrow> json option" where
  "json_array_to_keyvalue_reply es = (if odd (length es) then None else keyvalue_loop es (JSON_OBJECT []))"

text \<open>Streams: one entry of the answers to \<open>XRANGE\<close>, and the entries.\<close>

definition stream_entry :: "redisReply \<Rightarrow> json option" where
  "stream_entry e =
     (case e of
        REDIS_REPLY_ARRAY (REDIS_REPLY_STRING i # REDIS_REPLY_ARRAY msg # _) \<Rightarrow>
          if length i < 1 \<or> length msg < 2 then None
          else let jmsg = json_object_set_new (JSON_OBJECT []) ''id'' (json_string i);
                 jsub = (case json_array_to_keyvalue_reply msg of Some j \<Rightarrow> j | None \<Rightarrow> JSON_NULL)
            in Some (json_object_set_new jmsg ''msg'' (Some jsub))
      | _ \<Rightarrow> None)"

definition json_singlestream_list :: "redisReply list \<Rightarrow> json" where
  "json_singlestream_list es =
     foldl (\<lambda>j e. case stream_entry e of None \<Rightarrow> j | Some m \<Rightarrow> json_array_append_new j (Some m)) (JSON_ARRAY []) es"

definition xread_entry :: "json \<Rightarrow> redisReply \<Rightarrow> json" where
  "xread_entry j e =
     (case e of
        REDIS_REPLY_ARRAY (REDIS_REPLY_STRING sid # REDIS_REPLY_ARRAY msgs # _) \<Rightarrow>
          if length sid < 1 then j else json_object_set_new j sid (Some (json_singlestream_list msgs))
      | _ \<Rightarrow> j)"

definition json_xreadstream_list :: "redisReply list \<Rightarrow> json option" where
  "json_xreadstream_list es = (if es = [] then None else Some (foldl xread_entry (JSON_OBJECT []) es))"

text \<open>Setting a member when the element has the type that is asked for.\<close>

fun set_if_string :: "json \<Rightarrow> string \<Rightarrow> redisReply \<Rightarrow> json" where
  "set_if_string j key (REDIS_REPLY_STRING s) = json_object_set_new j key (json_string s)"
| "set_if_string j key _ = j"

fun set_if_integer :: "json \<Rightarrow> string \<Rightarrow> redisReply \<Rightarrow> json" where
  "set_if_integer j key (REDIS_REPLY_INTEGER i) = json_object_set_new j key (Some (JSON_INTEGER i))"
| "set_if_integer j key _ = j"

definition xpending_owner :: "json \<Rightarrow> redisReply \<Rightarrow> json" where
  "xpending_owner j e =
     (case e of
        REDIS_REPLY_ARRAY (REDIS_REPLY_STRING own # msgs # _) \<Rightarrow> set_if_integer (set_if_string j own msgs) own msgs
      | _ \<Rightarrow> j)"

definition xpending_entry :: "json \<Rightarrow> redisReply \<Rightarrow> json" where
  "xpending_entry j e =
     (case e of
        REDIS_REPLY_ARRAY (a # b # c # d # _) \<Rightarrow>
          let jobj = set_if_string (JSON_OBJECT []) ''id'' a;
              jobj = set_if_string jobj ''owner'' b;
              jobj = set_if_integer jobj ''elapsedtime'' c;
              jobj = set_if_integer jobj ''deliveries'' d
          in json_array_append_new j (Some jobj)
      | _ \<Rightarrow> j)"

definition xpending_summary :: "int \<Rightarrow> redisReply \<Rightarrow> redisReply \<Rightarrow> redisReply \<Rightarrow> json" where
  "xpending_summary n a b c =
     (let jobj = json_object_set_new (JSON_OBJECT []) ''msgs'' (Some (JSON_INTEGER n));
          jobj = set_if_string jobj ''idmin'' a;
          jobj = set_if_string jobj ''idmax'' b
      in case c of
           REDIS_REPLY_ARRAY es \<Rightarrow> json_object_set_new jobj ''msgsperconsumer'' (Some (foldl xpending_owner (JSON_OBJECT []) es))
         | _ \<Rightarrow> jobj)"

definition json_xpending_list :: "redisReply list \<Rightarrow> json" where
  "json_xpending_list es =
     (case es of
        REDIS_REPLY_INTEGER n # a # b # c # _ \<Rightarrow> xpending_summary n a b c
      | _ \<Rightarrow> foldl xpending_entry (JSON_ARRAY []) es)"

definition georadius_member :: "json \<Rightarrow> redisReply \<Rightarrow> json" where
  "georadius_member j e =
     (case e of
        REDIS_REPLY_INTEGER i \<Rightarrow> json_object_set_new j ''hash'' (Some (JSON_INTEGER i))
      | REDIS_REPLY_STRING s \<Rightarrow> json_object_set_new j ''dist'' (json_string s)
      | REDIS_REPLY_ARRAY [REDIS_REPLY_STRING x, REDIS_REPLY_STRING y] \<Rightarrow>
          json_object_set_new j ''coords''
            (Some (json_array_append_new (json_array_append_new (JSON_ARRAY []) (json_string x)) (json_string y)))
      | _ \<Rightarrow> j)"

definition georadius_entry :: "json \<Rightarrow> redisReply \<Rightarrow> json" where
  "georadius_entry j e =
     (case e of
        REDIS_REPLY_ARRAY (x # xs) \<Rightarrow>
          json_array_append_new j (Some (foldl georadius_member
            (json_object_set_new (JSON_OBJECT []) ''name'' (Option.bind (reply_str x) json_string)) xs))
      | _ \<Rightarrow> j)"

definition json_georadius_with_list :: "redisReply list \<Rightarrow> json" where
  "json_georadius_with_list es = foldl georadius_entry (JSON_ARRAY []) es"

text \<open>The commands whose arrays have a form of their own; \<^term>\<open>None\<close> when no member is set.\<close>

fun is_array :: "redisReply \<Rightarrow> bool" where
  "is_array (REDIS_REPLY_ARRAY _) = True"
| "is_array _ = False"

definition json_wrap_array :: "string \<Rightarrow> redisReply list \<Rightarrow> json option" where
  "json_wrap_array verb es =
     (if strcasecmp verb ''HGETALL'' = 0 then json_array_to_keyvalue_reply es
      else if strcasecmp verb ''XRANGE'' = 0 \<or> strcasecmp verb ''XREVRANGE'' = 0 \<or>
        strcasecmp verb ''XCLAIM'' = 0 \<and> es \<noteq> [] \<and> is_array (hd es)
      then Some (json_singlestream_list es)
      else if strcasecmp verb ''XREAD'' = 0 \<or> strcasecmp verb ''XREADGROUP'' = 0 then json_xreadstream_list es
      else if strcasecmp verb ''XPENDING'' = 0 then Some (json_xpending_list es)
      else if strncasecmp verb ''GEORADIUS'' 9 = 0 \<and> es \<noteq> [] \<and> is_array (hd es) then Some (json_georadius_with_list es)
      else Some (json_expand_array es))"

definition json_wrap_value :: "string \<Rightarrow> redisReply \<Rightarrow> json option" where
  "json_wrap_value verb r =
     (case r of
        REDIS_REPLY_STATUS s \<Rightarrow>
          Some (json_array_append_new (json_array_append_new (JSON_ARRAY []) (Some JSON_TRUE)) (json_string s))
      | REDIS_REPLY_ERROR s \<Rightarrow>
          Some (json_array_append_new (json_array_append_new (JSON_ARRAY []) (Some JSON_FALSE)) (json_string s))
      | REDIS_REPLY_STRING s \<Rightarrow> if strcasecmp verb ''INFO'' = 0 then Some (json_info_reply s) else json_string s
      | REDIS_REPLY_INTEGER i \<Rightarrow> Some (JSON_INTEGER i)
      | REDIS_REPLY_ARRAY es \<Rightarrow> json_wrap_array verb es
      | _ \<Rightarrow> Some JSON_NULL)"

definition json_verb :: "cmd \<Rightarrow> string" where
  "json_verb c = (if cmd_count c \<noteq> 0 then cstr (cmd_arg c 0) else [])"

definition json_wrap_redis_reply :: "cmd \<Rightarrow> redisReply \<Rightarrow> json" where
  "json_wrap_redis_reply c r = json_object_set_new (JSON_OBJECT []) (json_verb c) (json_wrap_value (json_verb c) r)"

section \<open>Output\<close>

definition json_string_output :: "json \<Rightarrow> string option \<Rightarrow> string option" where
  "json_string_output j jsonp =
     do { json_reply \<leftarrow> json_dumps j;
       Some (case jsonp of
               Some f \<Rightarrow> cstr f @ ''('' @ cstr json_reply @ '');'' @ [LF]
             | None \<Rightarrow> cstr json_reply) }"

definition json_reply :: "redisReply option \<Rightarrow> ptr \<Rightarrow> world \<Rightarrow> world option" where
  "json_reply reply p w =
     (case reply of
        None \<Rightarrow> format_send_error p 503 ''Service Unavailable'' w
      | Some r \<Rightarrow>
          do { c \<leftarrow> w_cmds w p;
            jstr \<leftarrow> json_string_output (json_wrap_redis_reply c r) (cmd_jsonp c);
            format_send_reply p jstr ''application/json'' w })"

definition json_ws_error :: "int \<Rightarrow> string \<Rightarrow> string option" where
  "json_ws_error http_status msg =
     (let j = json_object_set_new (JSON_OBJECT []) ''error'' (Some JSON_TRUE);
          j = json_object_set_new j ''message'' (json_string msg);
          j = json_object_set_new j ''http_status'' (Some (JSON_INTEGER http_status))
      in json_string_output j None)"

section \<open>WebSocket messages\<close>

text \<open>The arguments: strings up to a NUL, integers as \<open>int\<close>; other elements are left out.\<close>

fun json_ws_arg :: "json \<Rightarrow> string option" where
  "json_ws_arg (JSON_STRING s) = Some (cstr s)"
| "json_ws_arg (JSON_INTEGER i) = Some (show_int (to_int32 i))"
| "json_ws_arg _ = None"

definition json_ws_args :: "json \<Rightarrow> string list" where
  "json_ws_args j = List.map_filter json_ws_arg (json_elements j)"

text \<open>The size of the message is also what \<open>json_loads\<close> gets as its flags.\<close>

definition json_ws_extract :: "ptr \<Rightarrow> string \<Rightarrow> world \<Rightarrow> (ptr option \<times> world) option" where
  "json_ws_extract cp bytes w =
     (case json_loads bytes (length bytes) of
        PARSED j \<Rightarrow>
          if json_is_array j \<and> json_ws_args j \<noteq> []
          then do { (p, w) \<leftarrow> cmd_new (Some cp) (length (json_ws_args j)) w;
            w \<leftarrow> upd_cmd p (\<lambda>c. c\<lparr>cmd_argv := json_ws_args j\<rparr>) w;
            Some (Some p, w) }
          else Some (None, w)
      | _ \<Rightarrow> Some (None, w))"

section \<open>Lemmas\<close>

text \<open>
  \<open>fits d j\<close>: the value can be printed and read back, and its nesting is at most \<open>d\<close>. Building a
  value keeps this, whatever the strings are.
\<close>

definition fits :: "nat \<Rightarrow> json \<Rightarrow> bool" where
  "fits d j \<longleftrightarrow> json_ok True j \<and> json_depth j \<le> d"

lemma ok_hashtable_set:
  assumes "json_ok True (JSON_OBJECT ps)" "utf8_check_string k" "NUL \<notin> set k" "json_ok True v"
  shows "json_ok True (JSON_OBJECT (hashtable_set ps k v))"
proof -
  have "set (hashtable_set ps k v) \<subseteq> insert (k, v) (set ps)"
    by (induction ps k v rule: hashtable_set.induct) auto
  moreover have "distinct (map fst (hashtable_set ps k v))"
    using assms(1) keys_hashtable_set [of ps k v] by (auto split: if_splits)
  ultimately show ?thesis using assms by fastforce
qed

lemma fits_empty [simp]: "fits (Suc d) (JSON_OBJECT [])" "fits (Suc d) (JSON_ARRAY [])"
  by (simp_all add: fits_def)

lemma fits_scalar [simp]: "fits (Suc d) JSON_NULL" "fits (Suc d) JSON_TRUE" "fits (Suc d) JSON_FALSE"
  "fits (Suc d) (JSON_INTEGER i) = int64 i"
  by (auto simp: fits_def int64_def)

lemma fits_string: "json_string s = Some v \<Longrightarrow> fits (Suc d) v"
  by (auto simp: json_string_def fits_def split: if_splits)

lemma fits_set: "fits (Suc d) j \<Longrightarrow> (\<And>v. x = Some v \<Longrightarrow> fits d v) \<Longrightarrow> fits (Suc d) (json_object_set_new j k x)"
proof (cases "\<exists>ps v. j = JSON_OBJECT ps \<and> x = Some v")
  case True
  then obtain ps v where j: "j = JSON_OBJECT ps" "x = Some v" by blast
  assume a: "fits (Suc d) j" "\<And>v. x = Some v \<Longrightarrow> fits d v"
  then have d: "members_depth ps \<le> d" "json_depth v \<le> d" "json_ok True v" using j by (simp_all add: fits_def members_depth_def)
  have "members_depth (hashtable_set ps (cstr k) v) \<le> d" using members_depth_set [of ps "cstr k" v] d by simp
  then show ?thesis using j a(1) d ok_hashtable_set [of ps "cstr k" v]
    by (simp add: fits_def json_object_set_new_def del: json_ok.simps) (simp add: members_depth_def)
qed (auto simp: json_object_set_new_def split: json.split option.split)

lemma fits_append: "fits (Suc d) j \<Longrightarrow> (\<And>v. x = Some v \<Longrightarrow> fits d v) \<Longrightarrow> fits (Suc d) (json_array_append_new j x)"
proof (cases "\<exists>xs v. j = JSON_ARRAY xs \<and> x = Some v")
  case True
  then obtain xs v where j: "j = JSON_ARRAY xs" "x = Some v" by blast
  assume a: "fits (Suc d) j" "\<And>v. x = Some v \<Longrightarrow> fits d v"
  then have "elements_depth xs \<le> d" "json_depth v \<le> d" "json_ok True v" using j by (simp_all add: fits_def elements_depth_def)
  then have "elements_depth (xs @ [v]) \<le> d" by simp
  then show ?thesis using j a by (auto simp: fits_def json_array_append_new_def elements_depth_def)
qed (auto simp: json_array_append_new_def split: json.split option.split)

lemma fits_foldl: "fits d j \<Longrightarrow> (\<And>j e. e \<in> set es \<Longrightarrow> fits d j \<Longrightarrow> fits d (f j e)) \<Longrightarrow> fits d (foldl f j es)"
  by (induction es arbitrary: j) simp_all

text \<open>The replies that can be represented: integers of 64 bits, nested at most \<open>d\<close> deep.\<close>

fun reply_fits :: "nat \<Rightarrow> redisReply \<Rightarrow> bool" where
  "reply_fits d (REDIS_REPLY_ARRAY es) = (case d of 0 \<Rightarrow> False | Suc n \<Rightarrow> \<forall>e \<in> set es. reply_fits n e)"
| "reply_fits d (REDIS_REPLY_INTEGER i) = (0 < d \<and> int64 i)"
| "reply_fits d _ = (0 < d)"

lemmas fits_rules = fits_set fits_append fits_string

lemma fits_expand: "reply_fits d e \<Longrightarrow> expand_element e = Some v \<Longrightarrow> fits d v"
proof (induction e arbitrary: d v rule: expand_element.induct)
  case (4 es)
  then obtain n where d: "d = Suc n" "\<forall>e \<in> set es. reply_fits n e" by (cases d) simp_all
  have "fits (Suc n) (foldl json_array_append_new (JSON_ARRAY []) (map expand_element es))"
    by (rule fits_foldl) (use 4 d in \<open>auto intro: fits_append\<close>)
  with 4 d show ?case by simp
qed (auto intro: fits_string simp: gr0_conv_Suc)

lemma fits_expand_array: "\<forall>e \<in> set es. reply_fits d e \<Longrightarrow> fits (Suc d) (json_expand_array es)"
  using fits_expand [of "Suc d" "REDIS_REPLY_ARRAY es"] by (simp add: json_expand_array_def)

lemma fits_keyvalue_loop:
  "\<forall>e \<in> set es. reply_fits d e \<Longrightarrow> fits (Suc d) j \<Longrightarrow> keyvalue_loop es j = Some v \<Longrightarrow> fits (Suc d) v"
proof (induction es j rule: keyvalue_loop.induct)
  case (1 k e es j)
  have e: "reply_fits d e" using "1.prems" by simp
  then obtain n where d: "d = Suc n" by (cases d) (cases e; simp)+
  show ?case
  proof (cases e)
    case (REDIS_REPLY_ARRAY xs)
    then have "fits d (json_expand_array xs)" using e d fits_expand_array by simp
    then have "fits (Suc d) (json_object_set_new j k (Some (json_expand_array xs)))" using "1.prems" by (intro fits_set) auto
    then show ?thesis using 1 REDIS_REPLY_ARRAY by simp
  next
    case REDIS_REPLY_NIL
    then have "fits (Suc d) (json_object_set_new j k (Some JSON_NULL))" using "1.prems" d by (intro fits_set) auto
    then show ?thesis using 1 REDIS_REPLY_NIL by simp
  next
    case (REDIS_REPLY_STRING s)
    then have "fits (Suc d) (json_object_set_new j k (json_string s))" using "1.prems" d by (intro fits_set) (auto intro: fits_string)
    then show ?thesis using 1 REDIS_REPLY_STRING by simp
  next
    case (REDIS_REPLY_INTEGER i)
    then have "fits (Suc d) (json_object_set_new j k (Some (JSON_INTEGER i)))" using "1.prems" d e by (intro fits_set) auto
    then show ?thesis using 1 REDIS_REPLY_INTEGER by simp
  qed (use "1.prems" in simp_all)
qed simp_all

lemma fits_keyvalue:
  "\<forall>e \<in> set es. reply_fits d e \<Longrightarrow> json_array_to_keyvalue_reply es = Some v \<Longrightarrow> fits (Suc d) v"
  using fits_keyvalue_loop [of es d "JSON_OBJECT []" v] by (simp add: json_array_to_keyvalue_reply_def split: if_splits)

lemma reply_fits_pos: "reply_fits d e \<Longrightarrow> \<exists>n. d = Suc n"
  by (cases d) (cases e; simp)+

lemma reply_fits_array: "reply_fits d (REDIS_REPLY_ARRAY es) \<Longrightarrow> \<exists>n. d = Suc n \<and> (\<forall>e \<in> set es. reply_fits n e)"
  by (cases d) simp_all

lemma fits_set_if: "fits (Suc (Suc d)) j \<Longrightarrow> fits (Suc (Suc d)) (set_if_string j k e)"
  "fits (Suc (Suc d)) j \<Longrightarrow> reply_fits n e \<Longrightarrow> fits (Suc (Suc d)) (set_if_integer j k e)"
  by (cases e; auto intro!: fits_set intro: fits_string)+

lemma fits_stream_entry:
  assumes "reply_fits d e" "stream_entry e = Some v"
  shows "fits (Suc d) v"
proof -
  obtain i msg xs where e: "e = REDIS_REPLY_ARRAY (REDIS_REPLY_STRING i # REDIS_REPLY_ARRAY msg # xs)"
    using assms(2) by (auto simp: stream_entry_def split: redisReply.splits list.splits)
  then obtain n where d: "d = Suc n" "reply_fits n (REDIS_REPLY_ARRAY msg)" using reply_fits_array assms(1) by fastforce
  then obtain m where n: "n = Suc m" "\<forall>e \<in> set msg. reply_fits m e" using reply_fits_array by blast
  let ?j = "json_object_set_new (JSON_OBJECT []) ''id'' (json_string i)"
  let ?m = "case json_array_to_keyvalue_reply msg of Some j \<Rightarrow> j | None \<Rightarrow> JSON_NULL"
  have "fits (Suc d) ?j" using d by (auto intro: fits_rules)
  moreover have "fits d ?m" using fits_keyvalue [OF n(2)] d(1) n(1) by (auto simp: fits_def split: option.split)
  ultimately have "fits (Suc d) (json_object_set_new ?j ''msg'' (Some ?m))" by (auto intro: fits_set)
  moreover have "v = json_object_set_new ?j ''msg'' (Some ?m)"
    using assms(2) e by (simp add: stream_entry_def Let_def split: if_splits)
  ultimately show ?thesis by simp
qed

lemma fits_singlestream: "\<forall>e \<in> set es. reply_fits d e \<Longrightarrow> fits (Suc (Suc d)) (json_singlestream_list es)"
  unfolding json_singlestream_list_def
  by (rule fits_foldl) (auto split: option.split intro!: fits_append dest: fits_stream_entry)

lemma fits_xread_entry: "reply_fits d e \<Longrightarrow> fits (Suc (Suc d)) j \<Longrightarrow> fits (Suc (Suc d)) (xread_entry j e)"
proof (cases "xread_entry j e = j")
  case False
  assume a: "reply_fits d e" "fits (Suc (Suc d)) j"
  from False obtain sid msgs xs where e: "e = REDIS_REPLY_ARRAY (REDIS_REPLY_STRING sid # REDIS_REPLY_ARRAY msgs # xs)"
    by (auto simp: xread_entry_def split: redisReply.splits list.splits)
  then obtain n where d: "d = Suc n" "reply_fits n (REDIS_REPLY_ARRAY msgs)" using reply_fits_array a(1) by fastforce
  then obtain m where n: "n = Suc m" "\<forall>e \<in> set msgs. reply_fits m e" using reply_fits_array by blast
  have "fits (Suc d) (json_singlestream_list msgs)" using fits_singlestream [OF n(2)] d n by (simp add: fits_def)
  then have "fits (Suc (Suc d)) (json_object_set_new j sid (Some (json_singlestream_list msgs)))"
    using a(2) by (auto intro: fits_set)
  then show ?thesis using e a(2) by (simp add: xread_entry_def)
qed simp

lemma fits_xread: "\<forall>e \<in> set es. reply_fits d e \<Longrightarrow> json_xreadstream_list es = Some v \<Longrightarrow> fits (Suc (Suc d)) v"
  by (auto simp: json_xreadstream_list_def intro!: fits_foldl fits_xread_entry split: if_splits)

lemma fits_xpending_owner: "reply_fits n e \<Longrightarrow> fits (Suc (Suc d)) j \<Longrightarrow> fits (Suc (Suc d)) (xpending_owner j e)"
  by (auto simp: xpending_owner_def split: redisReply.split list.split nat.splits intro!: fits_set_if(1) intro: fits_set_if(2))

lemma fits_xpending_entry:
  assumes "reply_fits n e" "fits (Suc (Suc (Suc d))) j"
  shows "fits (Suc (Suc (Suc d))) (xpending_entry j e)"
proof -
  have "fits (Suc (Suc d)) (set_if_integer (set_if_integer
      (set_if_string (set_if_string (JSON_OBJECT []) ''id'' a) ''owner'' b) ''elapsedtime'' c) ''deliveries'' f)"
    if "reply_fits k c" "reply_fits k f" for a b c f k
    using that by (intro fits_set_if fits_empty)
  then show ?thesis using assms
    by (auto simp: xpending_entry_def Let_def split: redisReply.split list.split nat.splits intro!: fits_append)
qed

lemma fits_xpending_summary:
  assumes "int64 n" "reply_fits m c"
  shows "fits (Suc (Suc (Suc d))) (xpending_summary n a b c)"
proof -
  let ?j = "set_if_string (set_if_string (json_object_set_new (JSON_OBJECT []) ''msgs'' (Some (JSON_INTEGER n))) ''idmin'' a) ''idmax'' b"
  have j: "fits (Suc (Suc (Suc d))) ?j" using assms(1) by (auto intro!: fits_set_if fits_set)
  show ?thesis
  proof (cases c)
    case (REDIS_REPLY_ARRAY es)
    then obtain k where "\<forall>e \<in> set es. reply_fits k e" using reply_fits_array assms(2) by blast
    then have "fits (Suc (Suc d)) (foldl xpending_owner (JSON_OBJECT []) es)" by (auto intro!: fits_foldl fits_xpending_owner)
    then show ?thesis using j REDIS_REPLY_ARRAY by (auto simp: xpending_summary_def Let_def intro!: fits_set)
  qed (use j in \<open>simp_all add: xpending_summary_def Let_def\<close>)
qed

lemma fits_xpending:
  assumes "\<forall>e \<in> set es. reply_fits n e"
  shows "fits (Suc (Suc (Suc d))) (json_xpending_list es)"
proof (cases "\<exists>i a b c xs. es = REDIS_REPLY_INTEGER i # a # b # c # xs")
  case True
  then obtain i a b c xs where es: "es = REDIS_REPLY_INTEGER i # a # b # c # xs" by blast
  then have "int64 i" "reply_fits n c" using assms by auto
  then show ?thesis using es fits_xpending_summary [of i n c] by (simp add: json_xpending_list_def)
next
  case False
  then have "json_xpending_list es = foldl xpending_entry (JSON_ARRAY []) es"
    by (auto simp: json_xpending_list_def split: list.split redisReply.split)
  also have "fits (Suc (Suc (Suc d))) \<dots>" using assms by (auto intro!: fits_foldl fits_xpending_entry)
  finally show ?thesis .
qed

lemma fits_georadius_member:
  "reply_fits n e \<Longrightarrow> fits (Suc (Suc (Suc d))) j \<Longrightarrow> fits (Suc (Suc (Suc d))) (georadius_member j e)"
  by (auto simp: georadius_member_def split: redisReply.split list.split intro!: fits_set fits_append intro: fits_string)

lemma fits_georadius:
  assumes "\<forall>e \<in> set es. reply_fits n e"
  shows "fits (Suc (Suc (Suc (Suc d)))) (json_georadius_with_list es)"
  unfolding json_georadius_with_list_def
proof (rule fits_foldl)
  fix j e
  assume e: "e \<in> set es" and j: "fits (Suc (Suc (Suc (Suc d)))) j"
  have name: "fits (Suc (Suc (Suc d))) (json_object_set_new (JSON_OBJECT []) ''name'' (Option.bind (reply_str x) json_string))" for x
    by (auto simp: bind_eq_Some_conv intro!: fits_set intro: fits_string)
  show "fits (Suc (Suc (Suc (Suc d)))) (georadius_entry j e)"
  proof (cases "\<exists>x xs. e = REDIS_REPLY_ARRAY (x # xs)")
    case True
    then obtain x xs where x: "e = REDIS_REPLY_ARRAY (x # xs)" by blast
    then obtain k where "\<forall>e \<in> set xs. reply_fits k e" using e assms reply_fits_array by (metis list.set_intros(2))
    then have "fits (Suc (Suc (Suc d))) (foldl georadius_member
        (json_object_set_new (JSON_OBJECT []) ''name'' (Option.bind (reply_str x) json_string)) xs)"
      by (auto intro!: fits_foldl name fits_georadius_member)
    then show ?thesis using x j by (auto simp: georadius_entry_def intro!: fits_append)
  qed (use j in \<open>auto simp: georadius_entry_def split: redisReply.split list.split\<close>)
qed simp

lemma fits_mono: "fits d j \<Longrightarrow> d \<le> e \<Longrightarrow> fits e j"
  by (simp add: fits_def)

lemma fits_wrap_array:
  assumes "\<forall>e \<in> set es. reply_fits d e" "json_wrap_array verb es = Some v"
  shows "fits (d + 4) v"
proof -
  have "fits (Suc d) v" if "json_array_to_keyvalue_reply es = Some v" for v by (rule fits_keyvalue [OF assms(1) that])
  moreover have "fits (Suc (Suc d)) v" if "json_xreadstream_list es = Some v" for v by (rule fits_xread [OF assms(1) that])
  moreover have "fits (Suc (Suc (Suc d))) (json_xpending_list es)" by (rule fits_xpending [OF assms(1)])
  moreover have "fits (Suc (Suc (Suc (Suc d)))) (json_georadius_with_list es)" by (rule fits_georadius [OF assms(1)])
  ultimately show ?thesis
    using assms(2) fits_singlestream [OF assms(1)] fits_expand_array [OF assms(1)]
    by (auto simp: json_wrap_array_def split: if_splits intro: fits_mono)
qed

lemma fits_info: "fits (Suc (Suc d)) (json_info_reply s)"
  unfolding json_info_reply_def by (rule fits_foldl) (auto intro!: fits_set intro: fits_string)

lemma fits_wrap_value:
  assumes "reply_fits d r" "json_wrap_value verb r = Some v"
  shows "fits (d + 3) v"
proof -
  have d: "fits (d + 3) (json_array_append_new (json_array_append_new (JSON_ARRAY []) (Some b)) (json_string s))"
    if "b = JSON_TRUE \<or> b = JSON_FALSE" for b s
    using that by (auto simp: numeral_3_eq_3 intro!: fits_append intro: fits_string)
  show ?thesis
  proof (cases r)
    case (REDIS_REPLY_ARRAY es)
    then obtain n where "d = Suc n" "\<forall>e \<in> set es. reply_fits n e" using assms(1) reply_fits_array by blast
    then show ?thesis using fits_wrap_array [of es n verb v] assms(2) REDIS_REPLY_ARRAY by (auto simp: json_wrap_value_def intro: fits_mono)
  qed (use assms d fits_info [of "Suc d"] in
      \<open>auto simp: json_wrap_value_def numeral_3_eq_3 split: if_splits dest: fits_string [of _ _ "Suc (Suc d)"]\<close>)
qed

lemma fits_wrap: "reply_fits d r \<Longrightarrow> fits (d + 4) (json_wrap_redis_reply c r)"
  using fits_wrap_value [of d r "json_verb c"]
  by (auto simp: json_wrap_redis_reply_def numeral_eq_Suc intro!: fits_set)

lemma container_set: "container j \<Longrightarrow> container (json_object_set_new j k x)"
  by (cases j) (simp_all add: json_object_set_new_def split: option.split)

lemma json_loads_cstr: "json_loads (cstr t) flags = json_loads t flags"
  by (simp add: json_loads_def)

lemma string_output_reads:
  assumes "fits JSON_PARSER_MAX_DEPTH j" "container j"
  shows "\<exists>t. json_string_output j None = Some t \<and> json_loads t 0 = PARSED j \<and>
    (\<forall>f. json_string_output j (Some f) = Some (cstr f @ ''('' @ t @ '');'' @ [LF]))"
proof -
  obtain t where "json_dumps j = Some t" "json_loads t 0 = PARSED j"
    using loads_of_dumps [of 0 j] assms by (auto simp: fits_def has_flag_def)
  then show ?thesis by (intro exI [of _ "cstr t"]) (simp add: json_string_output_def json_loads_cstr)
qed

text \<open>Arrays of strings, and the pairs of \<open>HGETALL\<close>.\<close>

abbreviation json_text :: "string \<Rightarrow> bool" where
  "json_text s \<equiv> utf8_check_string s \<and> NUL \<notin> set s"

lemma json_string_text: "json_text s \<Longrightarrow> json_string s = Some (JSON_STRING s)"
  by (simp add: json_string_def cstr_no_NUL)

lemma expand_strings:
  "\<forall>s \<in> set ss. json_text s \<Longrightarrow> json_expand_array (map REDIS_REPLY_STRING ss) = JSON_ARRAY (map JSON_STRING ss)"
proof -
  have "\<forall>s \<in> set ss. json_text s \<Longrightarrow>
      foldl json_array_append_new (JSON_ARRAY xs) (map expand_element (map REDIS_REPLY_STRING ss)) = JSON_ARRAY (xs @ map JSON_STRING ss)" for xs
    by (induction ss arbitrary: xs) (simp_all add: json_string_text json_array_append_new_def)
  from this [of "[]"] show "\<forall>s \<in> set ss. json_text s \<Longrightarrow> ?thesis" by (simp add: json_expand_array_def)
qed

definition pair_elements :: "(string \<times> string) list \<Rightarrow> redisReply list" where
  "pair_elements ps = concat (map (\<lambda>(k, v). [REDIS_REPLY_STRING k, REDIS_REPLY_STRING v]) ps)"

lemma hashtable_set_new_key: "k \<notin> fst ` set ps \<Longrightarrow> hashtable_set ps k v = ps @ [(k, v)]"
  by (induction ps) auto

lemma keyvalue_pairs:
  assumes "\<forall>(k, v) \<in> set ps. json_text k \<and> json_text v" "distinct (map fst ps)"
  shows "json_array_to_keyvalue_reply (pair_elements ps) = Some (JSON_OBJECT (map (\<lambda>(k, v). (k, JSON_STRING v)) ps))"
proof -
  have "keyvalue_loop (pair_elements ps) (JSON_OBJECT xs) = Some (JSON_OBJECT (xs @ map (\<lambda>(k, v). (k, JSON_STRING v)) ps))"
    if "fst ` set xs \<inter> fst ` set ps = {}" for xs
    using that assms
  proof (induction ps arbitrary: xs)
    case (Cons p ps)
    obtain k v where p: "p = (k, v)" by (cases p)
    have "k \<notin> fst ` set xs" using Cons.prems(1) p by auto
    then have "json_object_set_new (JSON_OBJECT xs) k (json_string v) = JSON_OBJECT (xs @ [(k, JSON_STRING v)])"
      using Cons.prems(2) p by (simp add: json_object_set_new_def json_string_text cstr_no_NUL hashtable_set_new_key)
    moreover have "fst ` set (xs @ [(k, JSON_STRING v)]) \<inter> fst ` set ps = {}" using Cons.prems p by auto
    ultimately show ?case using Cons.IH [of "xs @ [(k, JSON_STRING v)]"] Cons.prems p by (simp add: pair_elements_def)
  qed (simp add: pair_elements_def)
  moreover have "even (length (pair_elements ps))" by (induction ps) (auto simp: pair_elements_def)
  ultimately show ?thesis by (simp add: json_array_to_keyvalue_reply_def)
qed

lemma ws_args_strings: "\<forall>s \<in> set args. json_text s \<Longrightarrow> json_ws_args (JSON_ARRAY (map JSON_STRING args)) = args"
  by (induction args) (simp_all add: json_ws_args_def List.map_filter_def cstr_no_NUL)

section \<open>Properties\<close>



text \<open>
  C18: \<open>HGETALL\<close> becomes an object: when the keys of the hash are distinct and all strings are UTF-8
  without NUL, the answer is an object with one member, named as the client wrote the
  command, which has exactly the pairs of the hash, in their order.
\<close>

theorem json_hgetall_object:
  assumes "\<forall>(k, v) \<in> set ps. json_text k \<and> json_text v" "distinct (map fst ps)"
    "strcasecmp (json_verb c) ''HGETALL'' = 0" "utf8_check_string (json_verb c)"
  shows "json_wrap_redis_reply c (REDIS_REPLY_ARRAY (pair_elements ps)) =
    JSON_OBJECT [(json_verb c, JSON_OBJECT (map (\<lambda>(k, v). (k, JSON_STRING v)) ps))]"
proof -
  have "cstr (json_verb c) = json_verb c" by (simp add: json_verb_def)
  then show ?thesis using assms keyvalue_pairs [OF assms(1,2)]
    by (simp add: json_wrap_redis_reply_def json_wrap_value_def json_wrap_array_def json_object_set_new_def)
qed

theorem json_hgetall_object_witness:
  "json_wrap_redis_reply (empty_cmd None 1\<lparr>cmd_argv := [''hgetall'']\<rparr>)
     (REDIS_REPLY_ARRAY (map REDIS_REPLY_STRING [''a'', ''1'', ''b'', ''2''])) =
   JSON_OBJECT [(''hgetall'', JSON_OBJECT [(''a'', JSON_STRING ''1''), (''b'', JSON_STRING ''2'')])]"
proof -
  let ?c = "empty_cmd None 1\<lparr>cmd_argv := [''hgetall'']\<rparr>"
  have verb: "json_verb ?c = ''hgetall''" by (simp add: json_verb_def empty_cmd_def cmd_arg_def cstr_def)
  have "strcasecmp ''hgetall'' ''HGETALL'' = 0" by code_simp
  then show ?thesis
    using json_hgetall_object [of "[(''a'', ''1''), (''b'', ''2'')]" ?c] verb
    by (simp add: pair_elements_def utf8_check_string.simps utf8_check_first_def code_def)
qed

text \<open>
  C17: A WebSocket client that sends the JSON array of its arguments runs that command: for at least
  one argument, all UTF-8 without NUL, the array is printed, and \<open>json_ws_extract\<close> of the text
  makes a new command for the client with exactly these arguments. This holds for every length
  of the message, which the code passes as the flags of the JSON reader.
\<close>

theorem json_ws_extract_arguments:
  assumes "args \<noteq> []" "\<forall>s \<in> set args. json_text s" "w_clients w cp = Some client"
  shows "\<exists>t p w' cmd. json_dumps (JSON_ARRAY (map JSON_STRING args)) = Some t \<and> json_ws_extract cp t w = Some (Some p, w') \<and>
    w_cmds w' p = Some cmd \<and> cmd_argv cmd = args \<and> cmd_count cmd = int (length args) \<and> cmd_http_client cmd = Some cp"
proof -
  let ?j = "JSON_ARRAY (map JSON_STRING args)"
  have depth: "json_depth ?j \<le> JSON_PARSER_MAX_DEPTH"
    using Max_le_iff [of "insert 0 (json_depth ` set (map JSON_STRING args))" 1] by (auto simp: JSON_PARSER_MAX_DEPTH_def)
  have "json_ok b ?j" for b using assms(2) by simp
  then have r: "\<exists>t. json_dumps ?j = Some t \<and> json_loads t flags = PARSED ?j" for flags
    by (rule loads_of_dumps [OF _ _ depth]) simp
  then obtain t where t: "json_dumps ?j = Some t" by blast
  have l: "json_loads t flags = PARSED ?j" for flags using r [of flags] t by simp
  define p where "p = fst (fresh w)"
  obtain w1 where "cmd_new (Some cp) (length args) w = Some (p, w1)" "w_cmds w1 p = Some (empty_cmd (Some cp) (length args))"
    using assms(3) by (auto simp: cmd_new_def fresh_def upd_client_def put_cmd_def put_client_def p_def)
  then have "json_ws_extract cp t w = Some (Some p, put_cmd p ((empty_cmd (Some cp) (length args))\<lparr>cmd_argv := args\<rparr>) w1)"
    using l ws_args_strings [OF assms(2)] assms(1) by (simp add: json_ws_extract_def upd_cmd_def)
  then show ?thesis using t by (fastforce simp: put_cmd_def empty_cmd_def)
qed

theorem json_ws_extract_arguments_witness:
  "\<exists>t p w' cmd. json_dumps (JSON_ARRAY (map JSON_STRING [''GET'', ''k''])) = Some t \<and>
    json_ws_extract 1 t (put_client 1 (http_client_new 5 0) (idle_world (conf_defaults plain_system))) = Some (Some p, w') \<and>
    w_cmds w' p = Some cmd \<and> cmd_argv cmd = [''GET'', ''k''] \<and> cmd_count cmd = int (length [''GET'', ''k'']) \<and>
    cmd_http_client cmd = Some 1"
  by (rule json_ws_extract_arguments)
    (simp_all add: put_client_def utf8_check_string.simps utf8_check_first_def code_def)

end
