(* ===== verification/Format_Msgpack.thy ===== *)
theory Format_Msgpack
  imports Format_Json
begin

text \<open>
  The MessagePack output format, \<open>formats/msgpack.c\<close>.

  The encoder is the msgpack-c library, so the output is a sequence of calls of it. What a call
  writes is the parameter \<open>encode\<close>. \<open>msgpack_pack_int\<close> takes an \<open>int\<close>, to which C converts the
  \<open>long long\<close> of a reply.
\<close>

section \<open>Calls\<close>

datatype msgpack_call =
    msgpack_pack_map nat
  | msgpack_pack_array nat
  | msgpack_pack_raw nat
  | msgpack_pack_raw_body string
  | msgpack_pack_int int
  | msgpack_pack_nil
  | msgpack_pack_true
  | msgpack_pack_false

definition pack_text :: "string \<Rightarrow> msgpack_call list" where
  "pack_text s = [msgpack_pack_raw (length s), msgpack_pack_raw_body s]"

text \<open>
  The lines of \<open>INFO\<close> are counted by their carriage returns; the loop after that finds the pairs as
  the one of the JSON format does.
\<close>

definition msg_info_reply :: "string \<Rightarrow> msgpack_call list" where
  "msg_info_reply s =
     msgpack_pack_map (count_list (cstr s) CR mod 2 ^ 32) #
     concat (map (\<lambda>(key, val). pack_text key @ pack_text val) (info_pairs (cstr s)))"

fun hgetall_calls :: "redisReply list \<Rightarrow> msgpack_call list" where
  "hgetall_calls (REDIS_REPLY_STRING k # REDIS_REPLY_STRING v # es) = pack_text k @ pack_text v @ hgetall_calls es"
| "hgetall_calls _ = []"

definition msg_hgetall_reply :: "redisReply list \<Rightarrow> msgpack_call list" where
  "msg_hgetall_reply es = (if odd (length es) then [] else msgpack_pack_map (length es div 2) # hgetall_calls es)"

fun element_calls :: "redisReply \<Rightarrow> msgpack_call list" where
  "element_calls (REDIS_REPLY_STRING s) = pack_text s"
| "element_calls (REDIS_REPLY_INTEGER i) = [msgpack_pack_int (to_int32 i)]"
| "element_calls _ = [msgpack_pack_nil]"

definition msgpack_verb :: "cmd \<Rightarrow> string" where
  "msgpack_verb c = (if cmd_count c \<noteq> 0 then cmd_arg c 0 else [])"

definition value_calls :: "string \<Rightarrow> redisReply \<Rightarrow> msgpack_call list" where
  "value_calls verb r =
     (case r of
        REDIS_REPLY_STATUS s \<Rightarrow> [msgpack_pack_array 2, msgpack_pack_true] @ pack_text s
      | REDIS_REPLY_ERROR s \<Rightarrow> [msgpack_pack_array 2, msgpack_pack_false] @ pack_text s
      | REDIS_REPLY_STRING s \<Rightarrow>
          if length verb = 4 \<and> strncasecmp verb ''INFO'' 4 = 0 then msg_info_reply s else pack_text s
      | REDIS_REPLY_INTEGER i \<Rightarrow> [msgpack_pack_int (to_int32 i)]
      | REDIS_REPLY_ARRAY es \<Rightarrow>
          if length verb = 7 \<and> strncasecmp verb ''HGETALL'' 7 = 0 then msg_hgetall_reply es
          else msgpack_pack_array (length es) # concat (map element_calls es)
      | _ \<Rightarrow> [msgpack_pack_nil])"

definition msgpack_wrap_redis_reply :: "cmd \<Rightarrow> redisReply \<Rightarrow> msgpack_call list" where
  "msgpack_wrap_redis_reply c r =
     msgpack_pack_map 1 # pack_text (msgpack_verb c) @ value_calls (msgpack_verb c) r"

text \<open>The output buffer grows with every write.\<close>

definition on_msgpack_write :: "string \<Rightarrow> string \<Rightarrow> string" where
  "on_msgpack_write out s = out @ s"

definition msgpack_reply :: "(msgpack_call \<Rightarrow> string) \<Rightarrow> redisReply option \<Rightarrow> ptr \<Rightarrow> world \<Rightarrow> world option" where
  "msgpack_reply encode reply p w =
     (case reply of
        None \<Rightarrow> format_send_error p 503 ''Service Unavailable'' w
      | Some r \<Rightarrow>
          do { c \<leftarrow> w_cmds w p;
            let out = foldl on_msgpack_write [] (map encode (msgpack_wrap_redis_reply c r));
            format_send_reply p out ''application/x-msgpack'' w })"

section \<open>Lemmas\<close>

text \<open>
  The objects of MessagePack and the calls that write one. A sequence of calls stands for at most
  one object, and no such sequence is the beginning of another.
\<close>

datatype msgpack_object =
    Pack_nil
  | Pack_bool bool
  | Pack_int int
  | Pack_raw string
  | Pack_array "msgpack_object list"
  | Pack_map "(msgpack_object \<times> msgpack_object) list"

fun calls_of :: "msgpack_object \<Rightarrow> msgpack_call list" where
  "calls_of Pack_nil = [msgpack_pack_nil]"
| "calls_of (Pack_bool b) = [if b then msgpack_pack_true else msgpack_pack_false]"
| "calls_of (Pack_int i) = [msgpack_pack_int i]"
| "calls_of (Pack_raw s) = [msgpack_pack_raw (length s), msgpack_pack_raw_body s]"
| "calls_of (Pack_array xs) = msgpack_pack_array (length xs) # concat (map calls_of xs)"
| "calls_of (Pack_map ps) = msgpack_pack_map (length ps) # concat (map (\<lambda>(k, v). calls_of k @ calls_of v) ps)"

lemma concat_unique:
  assumes "\<And>a b x y. a \<in> set as \<Longrightarrow> f a @ x = f b @ y \<Longrightarrow> a = b \<and> x = y"
    and "length as = length bs" "concat (map f as) @ x = concat (map f bs) @ y"
  shows "as = bs \<and> x = y"
  using assms(2,1,3)
proof (induction as bs rule: list_induct2)
  case (Cons a as b bs)
  have "f a @ concat (map f as) @ x = f b @ concat (map f bs) @ y" using Cons.prems(2) by simp
  then have "a = b" "concat (map f as) @ x = concat (map f bs) @ y" using Cons.prems(1) by (meson list.set_intros(1))+
  moreover from this(2) have "as = bs \<and> x = y"
    by (intro Cons.IH) (use Cons.prems(1) in \<open>meson list.set_intros(2)\<close>)
  ultimately show ?case by simp
qed simp

lemma calls_of_unique: "calls_of a @ x = calls_of b @ y \<Longrightarrow> a = b \<and> x = y"
proof (induction a arbitrary: b x y)
  case (Pack_array xs)
  then obtain ys where b: "b = Pack_array ys" "length xs = length ys" "concat (map calls_of xs) @ x = concat (map calls_of ys) @ y"
    by (cases b) (auto split: if_splits)
  have "xs = ys \<and> x = y" by (rule concat_unique [OF _ b(2,3)]) (rule Pack_array.IH)
  with b show ?case by simp
next
  case (Pack_map ps)
  let ?f = "\<lambda>(k, v). calls_of k @ calls_of v"
  obtain qs where b: "b = Pack_map qs" "length ps = length qs" "concat (map ?f ps) @ x = concat (map ?f qs) @ y"
    using Pack_map.prems by (cases b) (auto split: if_splits)
  have "ps = qs \<and> x = y"
  proof (rule concat_unique [OF _ b(2,3)])
    fix p q :: "msgpack_object \<times> msgpack_object" and u v
    assume p: "p \<in> set ps" and eq: "?f p @ u = ?f q @ v"
    obtain a b c d where pq: "p = (a, b)" "q = (c, d)" by (cases p, cases q)
    have "calls_of a @ calls_of b @ u = calls_of c @ calls_of d @ v" using eq pq by simp
    then have 1: "a = c \<and> calls_of b @ u = calls_of d @ v"
      by (intro Pack_map.IH(1) [OF p]) (simp_all add: pq)
    then have "b = d \<and> u = v" by (intro Pack_map.IH(2) [OF p]) (simp_all add: pq)
    with 1 show "p = q \<and> u = v" by (simp add: pq)
  qed
  with b show ?case by simp
qed (case_tac [!] b; force split: if_splits)+

lemma calls_of_inj: "calls_of a = calls_of b \<Longrightarrow> a = b"
  using calls_of_unique [of a "[]" b "[]"] by simp

text \<open>The object a reply stands for.\<close>

fun element_object :: "redisReply \<Rightarrow> msgpack_object" where
  "element_object (REDIS_REPLY_STRING s) = Pack_raw s"
| "element_object (REDIS_REPLY_INTEGER i) = Pack_int (to_int32 i)"
| "element_object _ = Pack_nil"

fun value_object :: "redisReply \<Rightarrow> msgpack_object" where
  "value_object (REDIS_REPLY_STATUS s) = Pack_array [Pack_bool True, Pack_raw s]"
| "value_object (REDIS_REPLY_ERROR s) = Pack_array [Pack_bool False, Pack_raw s]"
| "value_object (REDIS_REPLY_ARRAY es) = Pack_array (map element_object es)"
| "value_object r = element_object r"

lemma calls_of_element: "element_calls e = calls_of (element_object e)"
  by (cases e) (simp_all add: pack_text_def)

lemma calls_of_value:
  assumes "\<not> (length verb = 4 \<and> strncasecmp verb ''INFO'' 4 = 0)" "\<not> (length verb = 7 \<and> strncasecmp verb ''HGETALL'' 7 = 0)"
  shows "value_calls verb r = calls_of (value_object r)"
  using assms by (cases r) (auto simp: value_calls_def pack_text_def calls_of_element [abs_def] comp_def)

lemma calls_of_pairs:
  "msg_hgetall_reply (pair_elements ps) = calls_of (Pack_map (map (\<lambda>(k, v). (Pack_raw k, Pack_raw v)) ps))"
proof -
  have "length (pair_elements ps) = 2 * length ps" by (induction ps) (auto simp: pair_elements_def)
  moreover have "hgetall_calls (pair_elements ps) =
      concat (map (\<lambda>(k, v). calls_of k @ calls_of v) (map (\<lambda>(k, v). (Pack_raw k, Pack_raw v)) ps))"
    by (induction ps) (auto simp: pair_elements_def pack_text_def)
  ultimately show ?thesis by (simp add: msg_hgetall_reply_def)
qed

lemma pair_calls_unique:
  assumes "(\<lambda>(k, v). calls_of k @ calls_of v) a @ x = (\<lambda>(k, v). calls_of k @ calls_of v) b @ y"
  shows "a = b \<and> x = y"
proof -
  obtain k v l u where ab: "a = (k, v)" "b = (l, u)" by (cases a, cases b)
  have "calls_of k @ calls_of v @ x = calls_of l @ calls_of u @ y" using assms by (simp add: ab)
  from calls_of_unique [OF this] have "k = l" and "calls_of v @ x = calls_of u @ y" by simp_all
  from this(1) calls_of_unique [OF this(2)] show ?thesis by (simp add: ab)
qed

text \<open>A map that is announced with more entries than follow is no object.\<close>

lemma calls_of_nonempty: "calls_of obj \<noteq> []"
  by (cases obj) simp_all

lemma calls_of_map_too_long:
  assumes "n < m"
  shows "calls_of obj \<noteq> msgpack_pack_map 1 # pack_text verb @ msgpack_pack_map m # concat (map (\<lambda>(k, v). calls_of k @ calls_of v) ps)
    \<or> length ps \<noteq> n"
proof (rule ccontr)
  assume "\<not> ?thesis"
  then have eq: "calls_of obj = msgpack_pack_map 1 # pack_text verb @ msgpack_pack_map m # concat (map (\<lambda>(k, v). calls_of k @ calls_of v) ps)"
    and n: "length ps = n" by simp_all
  then obtain qs where "obj = Pack_map qs" "length qs = 1" by (cases obj) (auto split: if_splits)
  then obtain k v where "obj = Pack_map [(k, v)]" by (cases qs) auto
  with eq have kv: "calls_of k @ calls_of v = calls_of (Pack_raw verb) @ msgpack_pack_map m # concat (map (\<lambda>(k, v). calls_of k @ calls_of v) ps)"
    by (simp add: pack_text_def)
  from calls_of_unique [OF this] have "calls_of v = msgpack_pack_map m # concat (map (\<lambda>(k, v). calls_of k @ calls_of v) ps)" by simp
  then obtain rs where rs: "length rs = m" "concat (map (\<lambda>(k, v). calls_of k @ calls_of v) rs) = concat (map (\<lambda>(k, v). calls_of k @ calls_of v) ps)"
    by (cases v) (auto split: if_splits)
  let ?c = "\<lambda>ps. concat (map (\<lambda>(k, v). calls_of k @ calls_of v) ps)"
  have "?c (take n rs) @ ?c (drop n rs) = ?c (take n rs @ drop n rs)" by (simp only: map_append concat_append)
  then have "?c (take n rs) @ ?c (drop n rs) = ?c ps @ []" using rs(2) by (simp only: append_take_drop_id append_Nil2)
  then have "take n rs = ps \<and> ?c (drop n rs) = []"
    by (intro concat_unique [of "take n rs" "\<lambda>(k, v). calls_of k @ calls_of v"]) (use n rs(1) assms pair_calls_unique in \<open>simp_all only: length_take min.absorb2 less_imp_le\<close>)
  then have "?c (drop n rs) = []" by simp
  moreover have "drop n rs \<noteq> []" using rs(1) assms by simp
  ultimately show False using calls_of_nonempty by (cases "drop n rs") auto
qed

section \<open>Properties\<close>




end
