(* ===== verification/Sha1.thy ===== *)
theory Sha1
  imports Hash_Blocks
begin

unbundle bit_operations_syntax

text \<open>
  SHA-1, \<open>sha1/sha1.c\<close>, which the WebSocket handshake uses. The context takes the message byte by
  byte; the lemmas show that the digest is the one of FIPS 180-1.
\<close>

section \<open>Model\<close>

type_synonym sha1_registers = "word32 \<times> word32 \<times> word32 \<times> word32 \<times> word32"

record SHA1Context =
  Message_Digest :: sha1_registers
  Length_Low :: word32
  Length_High :: word32
  Message_Block :: "byte list"
  Message_Block_Index :: nat
  Computed :: bool
  Corrupted :: bool

definition SHA1CircularShift :: "nat \<Rightarrow> word32 \<Rightarrow> word32" where
  "SHA1CircularShift bits w = (push_bit bits w AND 0xFFFFFFFF) OR drop_bit (32 - bits) w"

definition sha1_start :: sha1_registers where
  "sha1_start = (0x67452301, 0xEFCDAB89, 0x98BADCFE, 0x10325476, 0xC3D2E1F0)"

text \<open>\<open>SHA1Reset\<close> leaves the bytes of the block alone.\<close>

definition SHA1Reset :: "byte list \<Rightarrow> SHA1Context" where
  "SHA1Reset block =
     \<lparr>Message_Digest = sha1_start, Length_Low = 0, Length_High = 0, Message_Block = block,
      Message_Block_Index = 0, Computed = False, Corrupted = False\<rparr>"

text \<open>The word sequence \<open>W\<close>: sixteen words of the block, most significant byte first, then 64 more.\<close>

definition sha1_block_words :: "byte list \<Rightarrow> word32 list" where
  "sha1_block_words block = map (\<lambda>t. push_bit 24 (ucast (block ! (t * 4))) OR push_bit 16 (ucast (block ! (t * 4 + 1))) OR
     push_bit 8 (ucast (block ! (t * 4 + 2))) OR ucast (block ! (t * 4 + 3))) [0..<16]"

definition sha1_next :: "word32 list \<Rightarrow> nat \<Rightarrow> word32" where
  "sha1_next W t = SHA1CircularShift 1 (W ! (t - 3) XOR W ! (t - 8) XOR W ! (t - 14) XOR W ! (t - 16))"

primrec sha1_extend :: "nat \<Rightarrow> word32 list \<Rightarrow> word32 list" where
  "sha1_extend 0 W = W"
| "sha1_extend (Suc n) W = sha1_extend n (W @ [sha1_next W (length W)])"

fun sha1_step :: "(word32 \<Rightarrow> word32 \<Rightarrow> word32 \<Rightarrow> word32) \<Rightarrow> word32 \<Rightarrow> word32 list \<Rightarrow> sha1_registers \<Rightarrow> nat \<Rightarrow> sha1_registers" where
  "sha1_step f K W (A, B, C, D, E) t =
     (let temp = (SHA1CircularShift 5 A + f B C D + E + W ! t + K) AND 0xFFFFFFFF
      in (temp, A, SHA1CircularShift 30 B, C, D))"

definition sha1_choose :: "word32 \<Rightarrow> word32 \<Rightarrow> word32 \<Rightarrow> word32" where
  "sha1_choose B C D = (B AND C) OR (NOT B AND D)"

definition sha1_parity :: "word32 \<Rightarrow> word32 \<Rightarrow> word32 \<Rightarrow> word32" where
  "sha1_parity B C D = B XOR C XOR D"

definition sha1_majority :: "word32 \<Rightarrow> word32 \<Rightarrow> word32 \<Rightarrow> word32" where
  "sha1_majority B C D = (B AND C) OR (B AND D) OR (C AND D)"

definition sha1_rounds :: "word32 list \<Rightarrow> sha1_registers \<Rightarrow> sha1_registers" where
  "sha1_rounds W r =
     foldl (sha1_step sha1_parity 0xCA62C1D6 W)
       (foldl (sha1_step sha1_majority 0x8F1BBCDC W)
         (foldl (sha1_step sha1_parity 0x6ED9EBA1 W)
           (foldl (sha1_step sha1_choose 0x5A827999 W) r [0..<20])
           [20..<40])
         [40..<60])
       [60..<80]"

fun sha1_add :: "sha1_registers \<Rightarrow> sha1_registers \<Rightarrow> sha1_registers" where
  "sha1_add (H0, H1, H2, H3, H4) (A, B, C, D, E) =
     ((H0 + A) AND 0xFFFFFFFF, (H1 + B) AND 0xFFFFFFFF, (H2 + C) AND 0xFFFFFFFF,
      (H3 + D) AND 0xFFFFFFFF, (H4 + E) AND 0xFFFFFFFF)"

definition sha1_compress :: "sha1_registers \<Rightarrow> byte list \<Rightarrow> sha1_registers" where
  "sha1_compress digest block =
     sha1_add digest (sha1_rounds (sha1_extend 64 (sha1_block_words block)) digest)"

definition SHA1ProcessMessageBlock :: "SHA1Context \<Rightarrow> SHA1Context" where
  "SHA1ProcessMessageBlock ctx =
     ctx\<lparr>Message_Digest := sha1_compress (Message_Digest ctx) (Message_Block ctx), Message_Block_Index := 0\<rparr>"

text \<open>\<open>Message_Block[Message_Block_Index++] = b\<close>\<close>

definition sha1_put :: "byte \<Rightarrow> SHA1Context \<Rightarrow> SHA1Context" where
  "sha1_put b ctx =
     ctx\<lparr>Message_Block := (Message_Block ctx)[Message_Block_Index ctx := b],
         Message_Block_Index := Suc (Message_Block_Index ctx)\<rparr>"

text \<open>One round of the loop of \<open>SHA1Input\<close>, and the loop.\<close>

definition sha1_input_byte :: "SHA1Context \<Rightarrow> byte \<Rightarrow> SHA1Context" where
  "sha1_input_byte ctx b =
     (let ctx = sha1_put b ctx;
          ctx = ctx\<lparr>Length_Low := (Length_Low ctx + 8) AND 0xFFFFFFFF\<rparr>;
          ctx = (if Length_Low ctx = 0
                 then let ctx = ctx\<lparr>Length_High := (Length_High ctx + 1) AND 0xFFFFFFFF\<rparr>
                   in if Length_High ctx = 0 then ctx\<lparr>Corrupted := True\<rparr> else ctx
                 else ctx)
      in if Message_Block_Index ctx = 64 then SHA1ProcessMessageBlock ctx else ctx)"

fun sha1_input_bytes :: "SHA1Context \<Rightarrow> byte list \<Rightarrow> SHA1Context" where
  "sha1_input_bytes ctx [] = ctx"
| "sha1_input_bytes ctx (b # bs) = (if Corrupted ctx then ctx else sha1_input_bytes (sha1_input_byte ctx b) bs)"

text \<open>The length is an \<open>unsigned\<close>; \<open>message_array\<close> has at least this many bytes.\<close>

definition SHA1Input :: "SHA1Context \<Rightarrow> byte list \<Rightarrow> word32 \<Rightarrow> SHA1Context" where
  "SHA1Input ctx message_array len =
     (if len = 0 then ctx
      else if Computed ctx \<or> Corrupted ctx then ctx\<lparr>Corrupted := True\<rparr>
      else sha1_input_bytes ctx (take (unat len) message_array))"

text \<open>The loops of \<open>SHA1PadMessage\<close> that write zeros while the index is below a bound.\<close>

function sha1_zeros :: "nat \<Rightarrow> SHA1Context \<Rightarrow> SHA1Context" where
  "sha1_zeros n ctx = (if Message_Block_Index ctx < n then sha1_zeros n (sha1_put 0 ctx) else ctx)"
  by pat_completeness auto
termination
  by (relation "measure (\<lambda>(n, ctx). n - Message_Block_Index ctx)") (auto simp: sha1_put_def)

declare sha1_zeros.simps [simp del]

definition sha1_length_bytes :: "SHA1Context \<Rightarrow> byte list" where
  "sha1_length_bytes ctx =
     map (\<lambda>k. ucast (drop_bit k (Length_High ctx) AND 0xFF)) [24, 16, 8, 0] @
     map (\<lambda>k. ucast (drop_bit k (Length_Low ctx) AND 0xFF)) [24, 16, 8, 0]"

definition SHA1PadMessage :: "SHA1Context \<Rightarrow> SHA1Context" where
  "SHA1PadMessage ctx =
     (let ctx = (if Message_Block_Index ctx > 55
                 then sha1_zeros 56 (SHA1ProcessMessageBlock (sha1_zeros 64 (sha1_put 0x80 ctx)))
                 else sha1_zeros 56 (sha1_put 0x80 ctx));
          ctx = ctx\<lparr>Message_Block := take 56 (Message_Block ctx) @ sha1_length_bytes ctx\<rparr>
      in SHA1ProcessMessageBlock ctx)"

definition SHA1Result :: "SHA1Context \<Rightarrow> int \<times> SHA1Context" where
  "SHA1Result ctx =
     (if Corrupted ctx then (0, ctx)
      else if \<not> Computed ctx then (1, (SHA1PadMessage ctx)\<lparr>Computed := True\<rparr>)
      else (1, ctx))"

section \<open>Lemmas\<close>

lemma and_full [simp]: "w AND 0xFFFFFFFF = (w :: word32)"
proof -
  have "(0xFFFFFFFF :: word32) = - 1" by simp
  then show ?thesis by (simp only: and.right_neutral)
qed

lemma byte_and_255: "(ucast (w AND 0xFF) :: byte) = ucast (w :: word32)"
proof -
  have "(0xFF :: word32) = mask 8" by (simp add: mask_eq_exp_minus_1)
  then have "(ucast (w AND 0xFF) :: byte) = ucast (take_bit 8 w)" by (simp only: take_bit_eq_mask)
  also have "\<dots> = ucast w"
    by (rule bit_word_eqI) (simp add: bit_unsigned_iff bit_take_bit_iff)
  finally show ?thesis .
qed

definition be64 :: "nat \<Rightarrow> byte list" where
  "be64 n = rev (le64 n)"

definition sha1_spec :: "byte list \<Rightarrow> sha1_registers" where
  "sha1_spec m = fst (absorb sha1_compress sha1_start (padded be64 m))"

definition sha1_bits :: "SHA1Context \<Rightarrow> nat" where
  "sha1_bits ctx = unat (Length_Low ctx) + 2 ^ 32 * unat (Length_High ctx)"

definition sha1_rep :: "SHA1Context \<Rightarrow> byte list \<Rightarrow> bool" where
  "sha1_rep ctx m =
     (length (Message_Block ctx) = 64 \<and> Message_Block_Index ctx = length m mod 64 \<and>
      sha1_bits ctx = 8 * length m \<and> \<not> Computed ctx \<and> \<not> Corrupted ctx \<and>
      absorb sha1_compress sha1_start m = (Message_Digest ctx, take (length m mod 64) (Message_Block ctx)))"

lemma sha1_rep_init: "length block = 64 \<Longrightarrow> sha1_rep (SHA1Reset block) []"
  by (simp add: sha1_rep_def SHA1Reset_def sha1_bits_def absorb_short)

lemma sha1_length:
  assumes "sha1_bits ctx = n"
  shows "unat (Length_Low ctx) = n mod 2 ^ 32" "unat (Length_High ctx) = n div 2 ^ 32"
  using assms unat_bound [of "Length_Low ctx"] by (auto simp: sha1_bits_def)

lemma absorb_step:
  assumes "absorb process h m = (h', r)" "length r + length d \<le> 64"
  shows "absorb process h (m @ d) = (if length r + length d = 64 then (process h' (r @ d), []) else (h', r @ d))"
  using assms by (simp add: absorb_append [of _ _ m] absorb_block absorb_short)

lemma absorb_two:
  "length b1 = 64 \<Longrightarrow> length b2 = 64 \<Longrightarrow> absorb process h (b1 @ b2) = (process (process h b1) b2, [])"
  by (simp add: absorb_block absorb_short)

text \<open>The count of bits after one more byte.\<close>

lemma sha1_count_byte:
  assumes "sha1_bits ctx = 8 * n" "8 * Suc n < 2 ^ 64"
  shows "sha1_bits (sha1_input_byte ctx b) = 8 * Suc n \<and> Corrupted (sha1_input_byte ctx b) = Corrupted ctx"
proof -
  let ?low = "Length_Low ctx" and ?high = "Length_High ctx"
  note len = sha1_length [OF assms(1)]
  have low8: "unat (?low + 8) = (unat ?low + 8) mod 2 ^ 32" by (simp add: unat_word_ariths)
  have eight: "8 dvd unat ?low" unfolding len(1) by (simp add: dvd_mod_iff)
  then obtain k where k: "unat ?low = 8 * k" by blast
  then have k_bound: "k < 2 ^ 29" using unat_bound [of ?low] by simp
  show ?thesis
  proof (cases "?low + 8 = 0")
    case True
    then have "(unat ?low + 8) mod 2 ^ 32 = 0" using low8 by simp
    then have "\<not> unat ?low + 8 < 2 ^ 32" by (metis add_is_0 mod_less zero_neq_numeral)
    with k k_bound have "unat ?low + 8 = 2 ^ 32" by simp
    moreover have "unat ?high + 1 < 2 ^ 32"
      using assms calculation by (simp add: sha1_bits_def)
    then have "unat (?high + 1) = unat ?high + 1" by (simp add: unat_word_ariths)
    moreover from this have "?high + 1 \<noteq> 0" by (metis Suc_eq_plus1 nat.distinct(1) unsigned_0)
    ultimately show ?thesis
      using True assms(1)
      by (simp add: sha1_input_byte_def sha1_put_def SHA1ProcessMessageBlock_def sha1_bits_def Let_def)
  next
    case False
    then have "unat ?low + 8 \<noteq> 2 ^ 32" using low8 by (metis mod_self unsigned_eq_0_iff)
    with k k_bound have "unat ?low + 8 < 2 ^ 32" by simp
    then have "unat (?low + 8) = unat ?low + 8" using low8 by simp
    then show ?thesis
      using False assms(1)
      by (simp add: sha1_input_byte_def sha1_put_def SHA1ProcessMessageBlock_def sha1_bits_def Let_def)
  qed
qed

lemma take_update: "i < length xs \<Longrightarrow> take (Suc i) (xs[i := b]) = take i xs @ [b]"
  by (simp add: take_Suc_conv_app_nth)

text \<open>The other fields after one more byte.\<close>

lemma sha1_input_byte_fields:
  "Message_Block (sha1_input_byte ctx b) = (Message_Block ctx)[Message_Block_Index ctx := b]"
  "Computed (sha1_input_byte ctx b) = Computed ctx"
  "Message_Block_Index (sha1_input_byte ctx b) =
     (if Suc (Message_Block_Index ctx) = 64 then 0 else Suc (Message_Block_Index ctx))"
  "Message_Digest (sha1_input_byte ctx b) =
     (if Suc (Message_Block_Index ctx) = 64
      then sha1_compress (Message_Digest ctx) ((Message_Block ctx)[Message_Block_Index ctx := b])
      else Message_Digest ctx)"
  by (simp_all add: sha1_input_byte_def sha1_put_def SHA1ProcessMessageBlock_def Let_def)

lemma sha1_rep_byte:
  assumes "sha1_rep ctx m" "8 * Suc (length m) < 2 ^ 64"
  shows "sha1_rep (sha1_input_byte ctx b) (m @ [b])"
proof -
  let ?i = "length m mod 64" and ?block = "(Message_Block ctx)[length m mod 64 := b]"
  have i: "?i < 64" "length (Message_Block ctx) = 64" "Message_Block_Index ctx = ?i"
    using assms by (simp_all add: sha1_rep_def)
  have len: "length (m @ [b]) mod 64 = (if Suc ?i = 64 then 0 else Suc ?i)" by (simp add: mod_Suc)
  have take: "take (Suc ?i) ?block = take ?i (Message_Block ctx) @ [b]" using i by (simp add: take_update)
  have "absorb sha1_compress sha1_start (m @ [b]) =
      (if Suc ?i = 64 then (sha1_compress (Message_Digest ctx) (take (Suc ?i) ?block), [])
       else (Message_Digest ctx, take (Suc ?i) ?block))"
    using absorb_step [of sha1_compress sha1_start m "Message_Digest ctx" "take ?i (Message_Block ctx)" "[b]"]
      assms(1) i unfolding take by (simp add: sha1_rep_def min_absorb2)
  moreover have "take (Suc ?i) ?block = ?block" if "Suc ?i = 64" using i that by (intro take_all) simp
  ultimately show ?thesis
    using assms sha1_count_byte [of ctx "length m" b] i len
    by (auto simp: sha1_rep_def sha1_input_byte_fields)
qed

lemma sha1_rep_bytes:
  "sha1_rep ctx m \<Longrightarrow> 8 * length (m @ bs) < 2 ^ 64 \<Longrightarrow> sha1_rep (sha1_input_bytes ctx bs) (m @ bs)"
proof (induction bs arbitrary: ctx m)
  case (Cons b bs)
  then have "sha1_rep (sha1_input_byte ctx b) (m @ [b])" by (intro sha1_rep_byte) simp_all
  then have "sha1_rep (sha1_input_bytes (sha1_input_byte ctx b) bs) ((m @ [b]) @ bs)"
    by (rule Cons.IH) (use Cons.prems in simp)
  moreover have "\<not> Corrupted ctx" using Cons.prems(1) by (simp add: sha1_rep_def)
  ultimately show ?case by simp
qed simp

lemma sha1_rep_input:
  assumes "sha1_rep ctx m" "length (m @ d) < 2 ^ 32"
  shows "sha1_rep (SHA1Input ctx d (word_of_nat (length d))) (m @ d)"
proof -
  have "unat (word_of_nat (length d) :: word32) = length d"
    using assms(2) by (simp add: unsigned_of_nat take_bit_nat_eq_self)
  moreover from this have "(word_of_nat (length d) :: word32) = 0 \<longleftrightarrow> d = []" by (metis length_0_conv unsigned_0 unsigned_eq_0_iff)
  moreover have "sha1_rep (sha1_input_bytes ctx d) (m @ d)"
    using assms by (intro sha1_rep_bytes) simp_all
  ultimately show ?thesis
    using assms(1) by (simp add: SHA1Input_def sha1_rep_def [of ctx])
qed

lemma sha1_zeros_eq:
  assumes "Message_Block_Index ctx \<le> n" "n \<le> length (Message_Block ctx)"
  shows "sha1_zeros n ctx = ctx\<lparr>Message_Block := take (Message_Block_Index ctx) (Message_Block ctx) @
      replicate (n - Message_Block_Index ctx) 0 @ drop n (Message_Block ctx), Message_Block_Index := n\<rparr>"
  using assms
proof (induction n ctx rule: sha1_zeros.induct)
  case (1 n ctx)
  let ?i = "Message_Block_Index ctx"
  show ?case
  proof (cases "?i < n")
    case True
    then have "n - ?i = Suc (n - Suc ?i)" by simp
    with 1 True show ?thesis
      by (subst sha1_zeros.simps) (simp add: sha1_put_def take_update)
  next
    case False
    then have "n = ?i" using 1 by simp
    then show ?thesis by (subst sha1_zeros.simps) simp
  qed
qed

lemma sha1_length_bytes_eq:
  assumes "sha1_bits ctx = n" "n < 2 ^ 64"
  shows "sha1_length_bytes ctx = be64 n"
proof -
  note len = sha1_length [OF assms(1)]
  have low: "(word_of_nat (n mod 2 ^ 32 div 2 ^ k) :: byte) = word_of_nat (n div 2 ^ k)" if "k + 8 \<le> 32" for k
    by (rule byte_mod_eq) (rule digits_mod [OF that])
  have high: "n div 2 ^ 32 div 2 ^ k = n div 2 ^ (32 + k)" for k by (simp add: div_mult2_eq power_add)
  have "sha1_length_bytes ctx = map (\<lambda>k. word_of_nat (n div 2 ^ (32 + k))) [24, 16, 8, 0] @
      map (\<lambda>k. word_of_nat (n div 2 ^ k)) [24, 16, 8, 0]"
    unfolding sha1_length_bytes_def byte_and_255 byte_of_count len high
    using low [of 24] low [of 16] low [of 8] low [of 0] by simp
  then show ?thesis by (simp add: be64_def le64_def upt_rec)
qed

lemma pad_zeros_eq: "i = n mod 64 \<Longrightarrow> pad_zeros n = (if i \<le> 55 then 55 - i else 119 - i)"
proof -
  assume i: "i = n mod 64"
  have "(55 - int n) mod 64 = (55 - int i) mod 64" by (simp add: i zmod_int mod_diff_right_eq)
  moreover have "(55 - int i) mod 64 = (if i \<le> 55 then 55 - int i else 119 - int i)"
  proof (cases "i \<le> 55")
    case True
    then show ?thesis by (simp add: mod_pos_pos_trivial)
  next
    case False
    moreover have "i < 64" using i by simp
    ultimately have "(55 - int i + 64) mod 64 = 55 - int i + 64" by (intro mod_pos_pos_trivial) simp_all
    moreover have "(55 - int i + 64) mod 64 = (55 - int i) mod 64" by (rule mod_add_self2)
    ultimately show ?thesis using False by simp
  qed
  ultimately show ?thesis by (simp add: pad_zeros_def nat_diff_distrib split: if_splits)
qed

lemma sha1_put_fields [simp]:
  "Length_Low (sha1_put b ctx) = Length_Low ctx" "Length_High (sha1_put b ctx) = Length_High ctx"
  "Message_Digest (sha1_put b ctx) = Message_Digest ctx"
  by (simp_all add: sha1_put_def)

lemma sha1_pad_eq:
  assumes "sha1_rep ctx m" "8 * length m < 2 ^ 64"
  shows "Message_Digest (SHA1PadMessage ctx) = sha1_spec m"
proof -
  let ?i = "length m mod 64" and ?len = "be64 (8 * length m)"
  define r where "r = take ?i (Message_Block ctx)"
  have i: "?i < 64" "Message_Block_Index ctx = ?i" "length (Message_Block ctx) = 64" and r: "length r = ?i"
    and digest: "absorb sha1_compress sha1_start m = (Message_Digest ctx, r)"
    using assms(1) by (auto simp: sha1_rep_def r_def)
  have len8: "length ?len = 8" by (simp add: be64_def le64_def)
  have put: "take (Suc ?i) (Message_Block (sha1_put 0x80 ctx)) = r @ [0x80]"
    "Message_Block_Index (sha1_put 0x80 ctx) = Suc ?i" "length (Message_Block (sha1_put 0x80 ctx)) = 64"
    using i by (simp_all add: sha1_put_def take_update r_def)
  have bytes: "sha1_length_bytes ctx' = ?len" if "Length_Low ctx' = Length_Low ctx" "Length_High ctx' = Length_High ctx"
    for ctx' using sha1_length_bytes_eq [OF _ assms(2), of ctx'] assms(1) that by (simp add: sha1_rep_def sha1_bits_def)
  have spec: "sha1_spec m = fst (absorb sha1_compress (Message_Digest ctx) (r @ [0x80] @ replicate (pad_zeros (length m)) 0 @ ?len))"
    using digest by (simp add: sha1_spec_def padded_def absorb_append [of _ _ m])
  show ?thesis
  proof (cases "?i \<le> 55")
    case True
    let ?b = "r @ [0x80] @ replicate (55 - ?i) 0 @ ?len"
    have "sha1_spec m = sha1_compress (Message_Digest ctx) ?b"
      unfolding spec using True r len8 pad_zeros_eq [OF refl, of "length m"] by (simp add: absorb_block absorb_short)
    moreover have "56 - ?i = Suc (55 - ?i)" using True by simp
    then have "Message_Digest (SHA1PadMessage ctx) = sha1_compress (Message_Digest ctx) ?b"
      using True i put sha1_zeros_eq [of "sha1_put 0x80 ctx" 56]
      by (simp add: SHA1PadMessage_def SHA1ProcessMessageBlock_def bytes r Let_def)
    ultimately show ?thesis by simp
  next
    case False
    let ?b1 = "r @ [0x80] @ replicate (63 - ?i) 0" and ?b2 = "replicate 56 0 @ ?len"
    have z: "pad_zeros (length m) = (63 - ?i) + 56" using False i(1) pad_zeros_eq [OF refl, of "length m"] by simp
    have "absorb sha1_compress (Message_Digest ctx) (?b1 @ ?b2) =
        (sha1_compress (sha1_compress (Message_Digest ctx) ?b1) ?b2, [])"
      using i(1) r len8 by (intro absorb_two) simp_all
    moreover have "r @ [0x80] @ replicate (pad_zeros (length m)) 0 @ ?len = ?b1 @ ?b2"
      unfolding z replicate_add by simp
    ultimately have "sha1_spec m = sha1_compress (sha1_compress (Message_Digest ctx) ?b1) ?b2"
      unfolding spec by simp
    moreover have "Message_Digest (SHA1PadMessage ctx) = sha1_compress (sha1_compress (Message_Digest ctx) ?b1) ?b2"
      using False i put sha1_zeros_eq [of "sha1_put 0x80 ctx" 64]
        sha1_zeros_eq [of "SHA1ProcessMessageBlock (sha1_zeros 64 (sha1_put 0x80 ctx))" 56]
      by (simp add: SHA1PadMessage_def SHA1ProcessMessageBlock_def bytes r Let_def)
    ultimately show ?thesis by simp
  qed
qed

definition sha1_fits :: "nat \<Rightarrow> bool" where
  "sha1_fits n = (n < 2 ^ 32)"

interpretation sha1: streaming_hash "SHA1Reset (replicate 64 0)"
  "\<lambda>ctx d. SHA1Input ctx d (word_of_nat (length d))" sha1_rep sha1_fits
proof unfold_locales
  fix ctx m and d :: "byte list"
  assume "sha1_rep ctx m" "sha1_fits (length (m @ d))"
  then show "sha1_rep (SHA1Input ctx d (word_of_nat (length d))) (m @ d)"
    by (intro sha1_rep_input) (simp_all add: sha1_fits_def)
qed (simp_all add: sha1_rep_init sha1_fits_def)

section \<open>Properties\<close>

text \<open>
  C24: however a message of less than \<open>2 ^ 32\<close> bytes is cut into pieces for \<open>SHA1Input\<close>,
  \<open>SHA1Result\<close> succeeds and gives its SHA-1 digest as FIPS 180-1 defines it: the registers after all
  blocks of the message padded with a bit, zeros and the 64-bit length.
\<close>

theorem sha1_pieces:
  assumes "length (concat pieces) < 2 ^ 32"
  shows "\<exists>ctx. SHA1Result (foldl (\<lambda>ctx d. SHA1Input ctx d (word_of_nat (length d))) (SHA1Reset (replicate 64 0)) pieces) =
    (1, ctx) \<and> Message_Digest ctx = sha1_spec (concat pieces)"
proof -
  have "sha1_rep (foldl (\<lambda>ctx d. SHA1Input ctx d (word_of_nat (length d))) (SHA1Reset (replicate 64 0)) pieces) (concat pieces)"
    using assms by (intro sha1.rep_message) (simp add: sha1_fits_def)
  moreover have "8 * length (concat pieces) < 2 ^ 64" using assms by simp
  ultimately show ?thesis by (simp add: SHA1Result_def sha1_pad_eq) (simp add: sha1_rep_def)
qed

theorem sha1_pieces_witness:
  "\<exists>ctx. SHA1Result (foldl (\<lambda>ctx d. SHA1Input ctx d (word_of_nat (length d))) (SHA1Reset (replicate 64 0))
       [map byte_of_char ''ab'', map byte_of_char ''c'']) = (1, ctx) \<and>
     Message_Digest ctx = sha1_spec (map byte_of_char ''abc'')"
  using sha1_pieces [of "[map byte_of_char ''ab'', map byte_of_char ''c'']"] by simp

end
