(* ===== verification/Reader_Stream.thy ===== *)
theory Reader_Stream
  imports Reader
begin

text \<open>
  The protocol reader on a stream. Data arrive from the socket in pieces that do not respect the
  bounds of replies; after each piece the caller takes replies from the reader until there is none.
  The theory shows that the cuts do not matter.

  The first section separates what an item says from what the reader does with it; the second
  shows that more data never change what a complete item says.
\<close>

section \<open>What an item says\<close>

datatype item = Wait | Fail string | Obj redisReply nat | Open int nat

definition line_end :: "string \<Rightarrow> nat option" where
  "line_end s = seekNewline s 0 (to_int32 (int (length s) - 1))"

definition line_item :: "reply_type \<Rightarrow> string \<Rightarrow> item" where
  "line_item type s =
     (case line_end s of
        None \<Rightarrow> Wait
      | Some len \<Rightarrow> (case line_object type (take len s) of Inl e \<Rightarrow> Fail e | Inr obj \<Rightarrow> Obj obj (len + 2)))"

definition bulk_item :: "reply_type \<Rightarrow> string \<Rightarrow> item" where
  "bulk_item type s =
     (case line_end s of
        None \<Rightarrow> Wait
      | Some pos \<Rightarrow>
          (case string2ll (take pos s) of
             None \<Rightarrow> Fail ''Bad bulk string length''
           | Some len \<Rightarrow>
               if len < -1 then Fail ''Bulk string length out of range''
               else if len = -1 then Obj REDIS_REPLY_NIL (pos + 2)
               else if pos + 2 + nat len + 2 \<le> length s
               then (if type = VERB \<and> (nat len < 4 \<or> at_c (drop (pos + 2) s) 3 \<noteq> CHR '':'')
                     then Fail ''Verbatim string 4 bytes of content type are missing or incorrectly encoded.''
                     else Obj (bulk_object type (take (nat len) (drop (pos + 2) s))) (pos + 2 + nat len + 2))
               else Wait))"

definition aggregate_item :: "reply_type \<Rightarrow> string \<Rightarrow> item" where
  "aggregate_item type s =
     (case line_end s of
        None \<Rightarrow> Wait
      | Some len \<Rightarrow>
          (case string2ll (take len s) of
             None \<Rightarrow> Fail ''Bad multi-bulk length''
           | Some elements \<Rightarrow>
               if elements < -1 \<or> elements > REDIS_READER_MAX_ARRAY_ELEMENTS then Fail ''Multi-bulk length out of range''
               else if elements = -1 then Obj REDIS_REPLY_NIL (len + 2)
               else if elements > 0 then Open (if type = MAP then elements * 2 else elements) (len + 2)
               else Obj (aggregate (Some type) []) (len + 2)))"

definition typed_item :: "reply_type \<Rightarrow> string \<Rightarrow> item" where
  "typed_item type s =
     (if type \<in> {ERROR, STATUS, INTEGER, DOUBLE, NIL, BOOL} then line_item type s
      else if type \<in> {STRING, VERB} then bulk_item type s
      else aggregate_item type s)"

fun act :: "item \<Rightarrow> redisReader \<Rightarrow> bool \<times> redisReader" where
  "act Wait r = (False, r)"
| "act (Fail e) r = (False, redisReaderSetError e r)"
| "act (Obj v n) r = finish_item v n r"
| "act (Open k n) r = (True, r\<lparr>rd_pos := rd_pos r + n,
     rd_task := new_task 0 # (hd (rd_task r))\<lparr>t_elements := k, t_obj := []\<rparr> # tl (rd_task r)\<rparr>)"

lemma find_line_end: "find_line r = line_end (rest_of r)"
  by (simp add: find_line_def line_end_def)

lemma act_typed:
  assumes "rd_task r = cur # tasks"
  shows "process_typed type r = act (typed_item type (rest_of r)) r"
proof -
  have "processLineItem type r = act (line_item type (rest_of r)) r"
    by (simp add: processLineItem_def line_item_def find_line_end split: option.split sum.split)
  moreover have "processBulkItem type r = act (bulk_item type (rest_of r)) r"
    by (auto simp: processBulkItem_def bulk_item_def find_line_end Let_def split: option.split)
  moreover have "processAggregateItem type r = act (aggregate_item type (rest_of r)) r"
    using assms by (simp add: processAggregateItem_def aggregate_item_def find_line_end Let_def split: option.split)
  ultimately show ?thesis by (simp add: process_typed_def typed_item_def)
qed

section \<open>More data\<close>

lemma seekNewline_append:
  "seekNewline s pos len = Some n \<Longrightarrow> 0 \<le> pos \<Longrightarrow> len < int (length s) \<Longrightarrow> len \<le> len' \<Longrightarrow> seekNewline (s @ b) pos len' = Some n"
proof (induction s pos len rule: seekNewline.induct)
  case (1 s pos len)
  have "pos < len" using 1(3) by (subst (asm) seekNewline.simps) (simp split: if_splits)
  moreover from this have "at_c (s @ b) (nat pos) = at_c s (nat pos)" "at_c (s @ b) (nat (pos + 1)) = at_c s (nat (pos + 1))"
    using 1(4,5) by (auto simp: at_c_def nth_append)
  ultimately show ?case using 1
    by (subst seekNewline.simps, subst (asm) (3) seekNewline.simps) (simp split: if_splits)
qed

lemma line_end_append:
  assumes "line_end s = Some n" "length (s @ b) < 2 ^ 31"
  shows "line_end (s @ b) = Some n \<and> n + 2 \<le> length s"
proof -
  have c: "to_int32 (int (length s) - 1) = int (length s) - 1" "to_int32 (int (length (s @ b)) - 1) = int (length (s @ b)) - 1"
    using assms(2) by (simp_all add: to_int32_id)
  then have "seekNewline (s @ b) 0 (int (length (s @ b)) - 1) = Some n"
    using assms by (intro seekNewline_append [where len = "int (length s) - 1"]) (simp_all add: line_end_def)
  moreover have "int n < int (length s) - 1"
    using assms(1) c seekNewline_bound [of s 0 "int (length s) - 1" n] by (simp add: line_end_def)
  ultimately show ?thesis using c by (simp add: line_end_def)
qed

lemma item_append:
  assumes "length (s @ b) < 2 ^ 31" "typed_item type s \<noteq> Wait"
  shows "typed_item type (s @ b) = typed_item type s"
proof (cases "line_end s")
  case None
  with assms(2) show ?thesis by (simp add: typed_item_def line_item_def bulk_item_def aggregate_item_def split: if_splits)
next
  case (Some n)
  then have e: "line_end (s @ b) = Some n" "n + 2 \<le> length s" using line_end_append assms(1) by simp_all
  have "bulk_item type (s @ b) = bulk_item type s" if "bulk_item type s \<noteq> Wait"
  proof (cases "string2ll (take n s)")
    case None
    with Some e show ?thesis by (simp add: bulk_item_def)
  next
    case l: (Some len)
    have "at_c (drop (n + 2) (s @ b)) 3 = at_c (drop (n + 2) s) 3" if "\<not> nat len < 4" "n + 2 + nat len + 2 \<le> length s"
      using that by (simp add: at_c_def nth_append)
    with Some e l that show ?thesis by (auto simp: bulk_item_def split: if_splits)
  qed
  moreover have "line_item type (s @ b) = line_item type s" "aggregate_item type (s @ b) = aggregate_item type s"
    using Some e by (simp_all add: line_item_def aggregate_item_def)
  ultimately show ?thesis using assms(2) by (cases type) (simp_all add: typed_item_def)
qed

section \<open>The loop\<close>

text \<open>The cursor stays in the buffer; the part in front of it has no effect.\<close>

definition pos_ok :: "redisReader \<Rightarrow> bool" where
  "pos_ok r = (rd_pos r \<le> length (rd_buf r))"

definition rd_trim :: "redisReader \<Rightarrow> redisReader" where
  "rd_trim r = r\<lparr>rd_buf := rest_of r, rd_pos := 0\<rparr>"

lemma rd_trim_fields [simp]:
  "rest_of (rd_trim r) = rest_of r" "rd_task (rd_trim r) = rd_task r" "rd_err (rd_trim r) = rd_err r"
  "rd_reply (rd_trim r) = rd_reply r" "rd_trim (rd_trim r) = rd_trim r" "pos_ok (rd_trim r)"
  by (simp_all add: rd_trim_def rest_of_def pos_ok_def)

lemma rd_trim_eq_iff:
  "rd_trim r = rd_trim s \<longleftrightarrow> rest_of r = rest_of s \<and> rd_task r = rd_task s \<and> rd_err r = rd_err s \<and> rd_reply r = rd_reply s"
  by (cases r; cases s) (auto simp: rd_trim_def rest_of_def)

lemma rest_of_feed: "pos_ok r \<Longrightarrow> rd_err r = None \<Longrightarrow> rest_of (redisReaderFeed r b) = rest_of r @ b"
  by (simp add: redisReaderFeed_def rest_of_def pos_ok_def)

lemma feed_fields [simp]:
  "rd_task (redisReaderFeed r b) = rd_task r" "rd_err (redisReaderFeed r b) = rd_err r"
  "rd_reply (redisReaderFeed r b) = rd_reply r" "rd_pos (redisReaderFeed r b) = rd_pos r"
  "pos_ok r \<Longrightarrow> pos_ok (redisReaderFeed r b)"
  by (simp_all add: redisReaderFeed_def pos_ok_def)

lemma feed_error: "rd_err r \<noteq> None \<Longrightarrow> redisReaderFeed r b = r"
  by (simp add: redisReaderFeed_def)

lemma trim_feed: "pos_ok r \<Longrightarrow> rd_trim (redisReaderFeed r b) = rd_trim (redisReaderFeed (rd_trim r) b)"
  by (cases "rd_err r") (simp_all add: rd_trim_eq_iff rest_of_feed, simp add: feed_error)

lemma set_error_fields [simp]:
  "rest_of (redisReaderSetError e r) = []" "rd_task (redisReaderSetError e r) = []"
  "rd_err (redisReaderSetError e r) = Some (take 127 (cstr e))" "rd_reply (redisReaderSetError e r) = None"
  by (simp_all add: redisReaderSetError_def rest_of_def)

lemma act_trim:
  assumes "rd_trim r = rd_trim s"
  shows "fst (act i r) = fst (act i s) \<and> rd_trim (snd (act i r)) = rd_trim (snd (act i s))"
proof -
  have "rest_of (r\<lparr>rd_pos := rd_pos r + n, rd_task := ts, rd_reply := v\<rparr>) = drop n (rest_of r)"
    "rest_of (r\<lparr>rd_pos := rd_pos r + n, rd_task := ts\<rparr>) = drop n (rest_of r)" for n ts v and r :: redisReader
    by (simp_all add: rest_of_def add.commute)
  with assms show ?thesis
    by (cases i) (auto simp: rd_trim_eq_iff finish_item_def split: prod.split)
qed

text \<open>\<open>processItem\<close> as the item it reads.\<close>

definition typed_reader :: "redisReader \<Rightarrow> reply_type \<Rightarrow> redisReader" where
  "typed_reader r type = r\<lparr>rd_pos := rd_pos r + 1, rd_task := (hd (rd_task r))\<lparr>t_type := Some type\<rparr> # tl (rd_task r)\<rparr>"

lemma processItem_act:
  assumes "rd_task r \<noteq> []"
  shows "processItem r =
    (case t_type (hd (rd_task r)) of
       Some type \<Rightarrow> act (typed_item type (rest_of r)) r
     | None \<Rightarrow>
         (case rest_of r of
            [] \<Rightarrow> (False, r)
          | c # s \<Rightarrow>
              (case reply_type_of c of
                 None \<Rightarrow> (False, redisReaderSetErrorProtocolByte c r)
               | Some type \<Rightarrow> act (typed_item type s) (typed_reader r type))))"
proof -
  obtain cur tasks where t: "rd_task r = cur # tasks" using assms by (cases "rd_task r") simp_all
  have "rest_of (r\<lparr>rd_pos := Suc (rd_pos r), rd_task := ts\<rparr>) = tl (rest_of r)" for ts
    by (simp add: rest_of_def drop_Suc tl_drop)
  then have "process_typed type (typed_reader r type) = act (typed_item type (tl (rest_of r))) (typed_reader r type)" for type
    using t act_typed [of "typed_reader r type"] by (simp add: typed_reader_def)
  with t act_typed [OF t] show ?thesis
    by (auto simp: processItem_def typed_reader_def split: option.split list.split)
qed

lemma trim_typed_reader: "rd_trim r = rd_trim s \<Longrightarrow> rd_trim (typed_reader r type) = rd_trim (typed_reader s type)"
proof -
  assume a: "rd_trim r = rd_trim s"
  have "rest_of (typed_reader r type) = drop 1 (rest_of r)" for r by (simp add: typed_reader_def rest_of_def)
  with a show ?thesis by (simp add: rd_trim_eq_iff) (simp add: typed_reader_def)
qed

lemma processItem_trim:
  assumes "rd_trim r = rd_trim s" "rd_task r \<noteq> []"
  shows "fst (processItem r) = fst (processItem s) \<and> rd_trim (snd (processItem r)) = rd_trim (snd (processItem s))"
proof -
  have eq: "rd_task s = rd_task r" "rest_of s = rest_of r" using assms(1) by (simp_all add: rd_trim_eq_iff)
  have "rd_trim (redisReaderSetErrorProtocolByte c r) = rd_trim (redisReaderSetErrorProtocolByte c s)" for c
    by (simp add: redisReaderSetErrorProtocolByte_def redisReaderSetError_def rd_trim_def rest_of_def)
  then show ?thesis
    using assms act_trim [OF assms(1)] act_trim [OF trim_typed_reader [OF assms(1)]]
    by (simp add: processItem_act eq split: option.split list.split)
qed

lemma loop_trim: "rd_trim r = rd_trim s \<Longrightarrow> rd_trim (reader_loop r) = rd_trim (reader_loop s)"
proof (induction r arbitrary: s rule: reader_loop.induct)
  case (1 r)
  show ?case
  proof (cases "rd_task r = []")
    case True
    moreover from this have "rd_task s = []" using 1(2) by (simp add: rd_trim_eq_iff)
    ultimately show ?thesis using 1(2) by (subst reader_loop.simps, subst (2) reader_loop.simps) simp
  next
    case False
    moreover from this have "rd_task s \<noteq> []" using 1(2) by (simp add: rd_trim_eq_iff)
    ultimately show ?thesis
      using 1(1) [OF False, of "snd (processItem s)"] processItem_trim [OF 1(2) False]
      by (subst reader_loop.simps, subst (2) reader_loop.simps) simp
  qed
qed

text \<open>An item that is read stays the same when more data follow; one that is not is read again.\<close>

lemma act_feed:
  assumes "i \<noteq> Wait" "rd_err r = None"
  shows "act i (redisReaderFeed r b) = (fst (act i r), redisReaderFeed (snd (act i r)) b)"
proof (cases i)
  case (Fail e)
  then show ?thesis using feed_error [of "redisReaderSetError e r"] assms(2)
    by (simp, simp add: redisReaderSetError_def redisReaderFeed_def)
qed (use assms in \<open>simp_all add: finish_item_def redisReaderFeed_def split: prod.split\<close>)

lemma act_no_error: "rd_err r = None \<Longrightarrow> fst (act i r) \<Longrightarrow> rd_err (snd (act i r)) = None"
  by (cases i) (auto simp: finish_item_def split: prod.split)

lemma act_waits: "rd_err (snd (act i r)) = None \<Longrightarrow> \<not> fst (act i r) \<Longrightarrow> i = Wait"
  by (cases i) (auto simp: finish_item_def split: prod.splits)

definition item_feed :: "redisReader \<Rightarrow> string \<Rightarrow> bool" where
  "item_feed r b \<longleftrightarrow>
     (if fst (processItem r) \<or> rd_err (snd (processItem r)) \<noteq> None
      then processItem (redisReaderFeed r b) = (fst (processItem r), redisReaderFeed (snd (processItem r)) b)
      else rd_task (snd (processItem r)) \<noteq> [] \<and> pos_ok (snd (processItem r)) \<and>
        length (rest_of (snd (processItem r))) \<le> length (rest_of r) \<and>
        processItem (redisReaderFeed r b) = processItem (redisReaderFeed (snd (processItem r)) b))"

lemma processItem_feed:
  assumes "rd_task r \<noteq> []" "rd_err r = None" "pos_ok r" "length (rest_of r @ b) < 2 ^ 31"
  shows "item_feed r b"
proof (cases "t_type (hd (rd_task r))")
  case (Some type)
  let ?i = "typed_item type (rest_of r)"
  have p: "processItem r = act ?i r" "processItem (redisReaderFeed r b) = act (typed_item type (rest_of r @ b)) (redisReaderFeed r b)"
    using Some assms by (simp_all add: processItem_act rest_of_feed)
  show ?thesis
  proof (cases "?i = Wait")
    case True
    then show ?thesis using p assms by (simp add: item_feed_def)
  next
    case False
    then have "processItem (redisReaderFeed r b) = (fst (act ?i r), redisReaderFeed (snd (act ?i r)) b)"
      using p(2) item_append [OF assms(4) False] act_feed [OF False assms(2)] by simp
    moreover have "fst (act ?i r) \<or> rd_err (snd (act ?i r)) \<noteq> None" using act_waits False by blast
    ultimately show ?thesis using p(1) by (simp add: item_feed_def)
  qed
next
  case None
  show ?thesis
  proof (cases "rest_of r")
    case Nil
    then show ?thesis using None assms by (simp add: item_feed_def processItem_act)
  next
    case (Cons c s)
    show ?thesis
    proof (cases "reply_type_of c")
      case N: None
      have "redisReaderSetErrorProtocolByte c (redisReaderFeed r b) = redisReaderFeed (redisReaderSetErrorProtocolByte c r) b"
        using assms(2) by (simp add: redisReaderSetErrorProtocolByte_def redisReaderSetError_def redisReaderFeed_def)
      with None N Cons assms show ?thesis
        by (simp add: item_feed_def processItem_act rest_of_feed redisReaderSetErrorProtocolByte_def)
    next
      case (Some type)
      let ?i = "typed_item type s" and ?r = "typed_reader r type"
      have r: "rd_err ?r = None" "rd_task ?r \<noteq> []" "t_type (hd (rd_task ?r)) = Some type" "rest_of ?r = s" "pos_ok ?r"
        "typed_reader (redisReaderFeed r b) type = redisReaderFeed ?r b"
        using assms(2,3) Cons
        by (auto simp: typed_reader_def rest_of_def pos_ok_def redisReaderFeed_def drop_eq_Nil2 dest: arg_cong [where f = length])
          (simp add: drop_Suc flip: tl_drop)+
      have p: "processItem r = act ?i ?r"
        "processItem (redisReaderFeed r b) = act (typed_item type (s @ b)) (redisReaderFeed ?r b)"
        using None Cons Some assms r(6) by (simp_all add: processItem_act rest_of_feed)
      show ?thesis
      proof (cases "?i = Wait")
        case True
        then show ?thesis using p r Cons by (simp add: item_feed_def processItem_act rest_of_feed)
      next
        case False
        then have "processItem (redisReaderFeed r b) = (fst (act ?i ?r), redisReaderFeed (snd (act ?i ?r)) b)"
          using p(2) item_append [of s b type] assms(4) Cons act_feed [OF False r(1)] by simp
        moreover have "fst (act ?i ?r) \<or> rd_err (snd (act ?i ?r)) \<noteq> None" using act_waits False by blast
        ultimately show ?thesis using p(1) by (simp add: item_feed_def)
      qed
    qed
  qed
qed

definition stopped :: "redisReader \<Rightarrow> bool" where
  "stopped r = (rd_task r = [] \<and> rest_of r = [] \<and> pos_ok r)"

lemma stopped_error [simp]: "stopped (redisReaderSetError e r)"
  by (simp add: stopped_def) (simp add: redisReaderSetError_def pos_ok_def)

lemma processItem_error:
  "rd_task r \<noteq> [] \<Longrightarrow> rd_err r = None \<Longrightarrow> rd_err (snd (processItem r)) \<noteq> None \<Longrightarrow> stopped (snd (processItem r))"
proof -
  have "rd_err s = None \<Longrightarrow> rd_err (snd (act i s)) \<noteq> None \<Longrightarrow> stopped (snd (act i s))" for i s
    by (cases i) (auto simp: finish_item_def split: prod.splits)
  moreover have "rd_err (typed_reader r type) = rd_err r" for type by (simp add: typed_reader_def)
  ultimately show "rd_task r \<noteq> [] \<Longrightarrow> rd_err r = None \<Longrightarrow> rd_err (snd (processItem r)) \<noteq> None \<Longrightarrow>
      stopped (snd (processItem r))"
    by (auto simp: processItem_act redisReaderSetErrorProtocolByte_def split: option.splits list.splits)
qed

lemma processItem_no_error:
  "rd_task r \<noteq> [] \<Longrightarrow> rd_err r = None \<Longrightarrow> fst (processItem r) \<Longrightarrow> rd_err (snd (processItem r)) = None"
proof -
  have "rd_err (typed_reader r type) = rd_err r" for type by (simp add: typed_reader_def)
  then show "rd_task r \<noteq> [] \<Longrightarrow> rd_err r = None \<Longrightarrow> fst (processItem r) \<Longrightarrow> rd_err (snd (processItem r)) = None"
    using act_no_error by (auto simp: processItem_act split: option.splits list.splits)
qed

lemma processItem_waits:
  "rd_task r \<noteq> [] \<Longrightarrow> rd_err (snd (processItem r)) = None \<Longrightarrow> \<not> fst (processItem r) \<Longrightarrow> rd_task (snd (processItem r)) \<noteq> []"
  using act_waits
  by (auto simp: processItem_act redisReaderSetErrorProtocolByte_def typed_reader_def dest!: act_waits split: option.splits list.splits)

lemma loop_stopped [simp]: "rd_task r = [] \<Longrightarrow> reader_loop r = r"
  by (subst reader_loop.simps) simp

lemma loop_step: "rd_task r \<noteq> [] \<Longrightarrow>
    reader_loop r = (if fst (processItem r) then reader_loop (snd (processItem r)) else snd (processItem r))"
  by (subst reader_loop.simps) simp

definition loop_feed :: "redisReader \<Rightarrow> string \<Rightarrow> bool" where
  "loop_feed r b \<longleftrightarrow>
     reader_loop (redisReaderFeed r b) = reader_loop (redisReaderFeed (reader_loop r) b) \<and>
     pos_ok (reader_loop r) \<and> length (rest_of (reader_loop r)) \<le> length (rest_of r) \<and>
     (rd_err (reader_loop r) \<noteq> None \<longrightarrow> rd_task (reader_loop r) = [])"

lemma reader_loop_feed:
  "rd_err r = None \<Longrightarrow> pos_ok r \<Longrightarrow> length (rest_of r @ b) < 2 ^ 31 \<Longrightarrow> loop_feed r b"
proof (induction r rule: reader_loop.induct)
  case (1 r)
  show ?case
  proof (cases "rd_task r = []")
    case True
    then show ?thesis using 1 by (simp add: loop_feed_def)
  next
    case False
    let ?r = "snd (processItem r)"
    have feed: "item_feed r b" using False 1 by (intro processItem_feed) simp_all
    show ?thesis
    proof (cases "fst (processItem r)")
      case True
      have e: "rd_err ?r = None" using processItem_no_error False 1(2) True by simp
      have c: "pos_ok ?r" "length (rest_of ?r) < length (rest_of r)"
        using consumes_item [of r] True by (auto simp: consumes_def pos_ok_def rest_of_def)
      then have "loop_feed ?r b" using 1(1) [OF False True e] 1(4) by simp
      moreover have "reader_loop r = reader_loop ?r" using False True by (simp add: loop_step)
      moreover have "reader_loop (redisReaderFeed r b) = reader_loop (redisReaderFeed ?r b)"
        using feed True False by (simp add: item_feed_def loop_step [of "redisReaderFeed r b"])
      ultimately show ?thesis using c(2) by (auto simp: loop_feed_def split: if_splits)
    next
      case F: False
      have l: "reader_loop r = ?r" using False F by (simp add: loop_step)
      show ?thesis
      proof (cases "rd_err ?r = None")
        case True
        then have "rd_task ?r \<noteq> []" "pos_ok ?r" "length (rest_of ?r) \<le> length (rest_of r)"
          "processItem (redisReaderFeed r b) = processItem (redisReaderFeed ?r b)"
          using feed F by (simp_all add: item_feed_def)
        then show ?thesis using l False True by (simp add: loop_feed_def loop_step [of "redisReaderFeed _ b"])
      next
        case E: False
        then have "processItem (redisReaderFeed r b) = (False, ?r)" using feed F by (simp add: item_feed_def feed_error)
        moreover have "stopped ?r" using processItem_error [OF False 1(2) E] .
        ultimately show ?thesis using l False E by (auto simp: loop_feed_def stopped_def feed_error loop_step [of "redisReaderFeed r b"])
      qed
    qed
  qed
qed

lemma loop_consumes:
  "rd_err (reader_loop r) = None \<Longrightarrow> rd_task (reader_loop r) = [] \<Longrightarrow> rd_task r \<noteq> [] \<Longrightarrow>
     length (rest_of (reader_loop r)) < length (rest_of r)"
proof (induction r rule: reader_loop.induct)
  case (1 r)
  show ?case
  proof (cases "fst (processItem r)")
    case True
    let ?r = "snd (processItem r)"
    have less: "length (rest_of ?r) < length (rest_of r)"
      using consumes_item [of r] True by (auto simp: consumes_def rest_of_def)
    have eq: "reader_loop r = reader_loop ?r" using True 1(4) by (simp add: loop_step)
    show ?thesis
      by (cases "rd_task ?r = []") (use less eq 1(1) [OF 1(4) True] 1(2,3) in simp_all)
  next
    case False
    then show ?thesis using 1(2-4) processItem_waits [of r] by (simp add: loop_step)
  qed
qed

section \<open>Taking replies\<close>

lemma get_reply_consumes:
  "redisReaderGetReply r = (Inr (Some v), r') \<Longrightarrow> length (rest_of r') < length (rest_of r)"
proof -
  assume a: "redisReaderGetReply r = (Inr (Some v), r')"
  let ?s = "if rd_task r = [] then r\<lparr>rd_task := [new_task (-1)]\<rparr> else r"
  have l: "rd_err (reader_loop ?s) = None" "rd_task (reader_loop ?s) = []" "rest_of r' = rest_of (reader_loop ?s)"
    using a by (auto simp: redisReaderGetReply_def Let_def rest_of_def split: option.splits if_splits)
  then have "length (rest_of (reader_loop ?s)) < length (rest_of ?s)" by (intro loop_consumes) simp_all
  then show ?thesis using l(3) by (simp add: rest_of_def split: if_splits)
qed

text \<open>The loop of \<open>redisProcessCallbacks\<close>, as far as it concerns the reader.\<close>

function get_replies :: "redisReader \<Rightarrow> redisReply list \<times> redisReader" where
  "get_replies r =
     (case redisReaderGetReply r of
        (Inr (Some v), r') \<Rightarrow> (v # fst (get_replies r'), snd (get_replies r'))
      | (_, r') \<Rightarrow> ([], r'))"
  by pat_completeness auto
termination by (relation "measure (\<lambda>r. length (rest_of r))") (auto dest: get_reply_consumes [OF sym])

declare get_replies.simps [simp del]

fun read_stream :: "redisReader \<Rightarrow> string list \<Rightarrow> redisReply list \<times> redisReader" where
  "read_stream r [] = ([], r)"
| "read_stream r (buf # bufs) =
     (let (vs, r) = get_replies (redisReaderFeed r buf); (ws, r) = read_stream r bufs in (vs @ ws, r))"

text \<open>
  A reader without a task is about to start one. Readers with the same \<open>rd_norm\<close> cannot be told
  apart by taking replies and adding data.
\<close>

definition rd_start :: "redisReader \<Rightarrow> redisReader" where
  "rd_start r = (if rd_task r = [] \<and> rd_err r = None then r\<lparr>rd_task := [new_task (-1)]\<rparr> else r)"

definition rd_norm :: "redisReader \<Rightarrow> redisReader" where
  "rd_norm r = rd_trim (rd_start r)"

definition get_start :: "redisReader \<Rightarrow> (string + redisReply option) \<times> redisReader" where
  "get_start r =
     (case rd_err r of
        Some e \<Rightarrow> (Inl e, r)
      | None \<Rightarrow>
          (let r = reader_loop r in
           case rd_err r of
             Some e \<Rightarrow> (Inl e, r)
           | None \<Rightarrow> if rd_task r = [] then (Inr (rd_reply r), r\<lparr>rd_reply := None\<rparr>) else (Inr None, r)))"

lemma rd_start_fields [simp]:
  "rest_of (rd_start r) = rest_of r" "rd_err (rd_start r) = rd_err r" "rd_reply (rd_start r) = rd_reply r"
  "pos_ok (rd_start r) = pos_ok r" "rd_start (rd_start r) = rd_start r" "rd_err r = None \<Longrightarrow> rd_task (rd_start r) \<noteq> []"
  by (simp_all add: rd_start_def rest_of_def pos_ok_def)

lemma rd_norm_fields [simp]:
  "rest_of (rd_norm r) = rest_of r" "rd_err (rd_norm r) = rd_err r" "rd_reply (rd_norm r) = rd_reply r"
  by (simp_all add: rd_norm_def)

lemma rd_norm_trim: "rd_trim r = rd_trim s \<Longrightarrow> rd_norm r = rd_norm s"
  by (auto simp: rd_norm_def rd_trim_eq_iff) (simp_all add: rd_start_def)

lemma rd_norm_start [simp]: "rd_norm (rd_start r) = rd_norm r"
  by (simp add: rd_norm_def)

lemma norm_feed:
  assumes "rd_norm r = rd_norm s" "pos_ok r" "pos_ok s"
  shows "rd_norm (redisReaderFeed r b) = rd_norm (redisReaderFeed s b)"
proof -
  have start: "rd_start (redisReaderFeed r b) = redisReaderFeed (rd_start r) b" for r
    by (cases "rd_err r"; cases "rd_task r") (simp_all add: rd_start_def redisReaderFeed_def)
  have "rd_trim (rd_start r) = rd_trim (rd_start s)" using assms(1) by (simp add: rd_norm_def)
  then have "rd_trim (redisReaderFeed (rd_start r) b) = rd_trim (redisReaderFeed (rd_start s) b)"
    using trim_feed [of "rd_start r" b] trim_feed [of "rd_start s" b] assms(2,3) by simp
  then show ?thesis by (simp add: rd_norm_def start)
qed

lemma get_start_trim:
  assumes "rd_trim r = rd_trim s"
  shows "fst (get_start r) = fst (get_start s) \<and> rd_trim (snd (get_start r)) = rd_trim (snd (get_start s))"
proof -
  have "rest_of (r\<lparr>rd_reply := v\<rparr>) = rest_of r" for r v by (simp add: rest_of_def)
  then show ?thesis using assms loop_trim [OF assms]
    by (auto simp: get_start_def rd_trim_eq_iff Let_def split: option.split)
qed

lemma loop_empty:
  assumes "rest_of r = []" "rd_task r \<noteq> []"
  shows "reader_loop r = r"
proof -
  have "typed_item type [] = Wait" for type
  proof -
    have "line_end [] = None" by (simp add: line_end_def seekNewline.simps to_int32_def)
    then show ?thesis by (simp add: typed_item_def line_item_def bulk_item_def aggregate_item_def)
  qed
  then have "processItem r = (False, r)" using assms by (simp add: processItem_act split: option.split)
  then show ?thesis using assms(2) by (simp add: loop_step)
qed

lemma get_reply_start:
  "fst (redisReaderGetReply r) = fst (get_start (rd_start r)) \<and>
   rd_norm (snd (redisReaderGetReply r)) = rd_norm (snd (get_start (rd_start r)))"
proof (cases "rd_err r = None \<and> rd_buf r = []")
  case True
  then have "rest_of (rd_start r) = []" unfolding rd_start_fields by (simp add: rest_of_def)
  then have "reader_loop (rd_start r) = rd_start r" using True by (intro loop_empty) simp_all
  with True show ?thesis by (simp add: redisReaderGetReply_def get_start_def Let_def)
next
  case False
  have "rd_norm (r\<lparr>rd_buf := drop (rd_pos r) (rd_buf r), rd_pos := 0\<rparr>) = rd_norm r"
    "rd_norm (r\<lparr>rd_buf := drop (rd_pos r) (rd_buf r), rd_pos := 0, rd_reply := v\<rparr>) = rd_norm (r\<lparr>rd_reply := v\<rparr>)" for r v
    by (rule rd_norm_trim; simp add: rd_trim_def rest_of_def)+
  with False show ?thesis
    by (auto simp: redisReaderGetReply_def get_start_def Let_def rd_start_def split: option.split)
qed

lemma get_reply_norm:
  assumes "rd_norm r = rd_norm s"
  shows "fst (redisReaderGetReply r) = fst (redisReaderGetReply s) \<and>
    rd_norm (snd (redisReaderGetReply r)) = rd_norm (snd (redisReaderGetReply s))"
proof -
  have "rd_trim (rd_start r) = rd_trim (rd_start s)" using assms by (simp add: rd_norm_def)
  from get_start_trim [OF this] show ?thesis
    using get_reply_start [of r] get_reply_start [of s] rd_norm_trim by metis
qed

lemma get_reply_fields:
  assumes "rd_err r = None" "pos_ok r" "length (rest_of r) < 2 ^ 31"
  shows "length (rest_of (snd (redisReaderGetReply r))) \<le> length (rest_of r) \<and> pos_ok (snd (redisReaderGetReply r)) \<and>
    (case fst (redisReaderGetReply r) of
       Inl e \<Rightarrow> rd_err (snd (redisReaderGetReply r)) = Some e
     | Inr v \<Rightarrow> rd_err (snd (redisReaderGetReply r)) = None)"
proof (cases "rd_buf r = []")
  case True
  then show ?thesis using assms by (simp add: redisReaderGetReply_def)
next
  case False
  let ?r = "if rd_task r = [] then r\<lparr>rd_task := [new_task (-1)]\<rparr> else r"
  have s: "?r = rd_start r" using assms(1) by (simp add: rd_start_def)
  have l: "loop_feed ?r []" unfolding s using assms by (intro reader_loop_feed) simp_all
  then have "pos_ok (reader_loop ?r)" "length (rest_of (reader_loop ?r)) \<le> length (rest_of ?r)"
    by (simp_all add: loop_feed_def)
  moreover have "rest_of ?r = rest_of r" unfolding s by simp
  ultimately show ?thesis using assms(1) False
    by (auto simp: redisReaderGetReply_def Let_def rest_of_def pos_ok_def split: option.split)
qed

lemma move_reply: "tasks \<noteq> [] \<Longrightarrow> fst (moveToNextTask v tasks) = [] \<Longrightarrow> snd (moveToNextTask v tasks) \<noteq> None"
  by (induction v tasks rule: moveToNextTask.induct) (auto simp: Let_def split: if_splits)

lemma act_reply: "rd_task r \<noteq> [] \<Longrightarrow> fst (act i r) \<Longrightarrow> rd_task (snd (act i r)) = [] \<Longrightarrow> rd_reply (snd (act i r)) \<noteq> None"
  using move_reply [of "rd_task r"] by (cases i) (auto simp: finish_item_def split_beta)

lemma loop_reply:
  "rd_err (reader_loop r) = None \<Longrightarrow> rd_task (reader_loop r) = [] \<Longrightarrow> rd_task r \<noteq> [] \<Longrightarrow> rd_reply (reader_loop r) \<noteq> None"
proof (induction r rule: reader_loop.induct)
  case (1 r)
  show ?case
  proof (cases "fst (processItem r)")
    case True
    let ?r = "snd (processItem r)"
    have eq: "reader_loop r = reader_loop ?r" using True 1(4) by (simp add: loop_step)
    show ?thesis
    proof (cases "rd_task ?r = []")
      case e: True
      have "rd_task (typed_reader r type) \<noteq> []" for type by (simp add: typed_reader_def)
      then have "rd_reply ?r \<noteq> None" using True 1(4) e act_reply
        by (auto simp: processItem_act split: option.splits list.splits)
      then show ?thesis using eq e by simp
    qed (use eq 1(1) [OF 1(4) True] 1(2,3) in simp_all)
  next
    case False
    then show ?thesis using 1(2-4) processItem_waits [of r] by (simp add: loop_step)
  qed
qed

lemma start_feed: "rd_start (redisReaderFeed r b) = redisReaderFeed (rd_start r) b"
  by (cases "rd_err r"; cases "rd_task r") (simp_all add: rd_start_def redisReaderFeed_def)

text \<open>A reply is the same when more data follow; without a reply, the next call goes on.\<close>

lemma get_reply_feed:
  assumes "rd_err r = None" "pos_ok r" "length (rest_of r @ b) < 2 ^ 31"
  defines "g \<equiv> redisReaderGetReply r" and "g' \<equiv> redisReaderGetReply (redisReaderFeed r b)"
  shows "if \<exists>v. fst g = Inr (Some v) then fst g' = fst g \<and> rd_norm (snd g') = rd_norm (redisReaderFeed (snd g) b)
    else fst g' = fst (redisReaderGetReply (redisReaderFeed (snd g) b)) \<and>
      rd_norm (snd g') = rd_norm (snd (redisReaderGetReply (redisReaderFeed (snd g) b)))"
proof -
  define n where "n = rd_start r"
  define l where "l = reader_loop n"
  have n: "rd_err n = None" "pos_ok n" "rd_task n \<noteq> []" "rest_of n = rest_of r" using assms by (simp_all add: n_def)
  have lf: "loop_feed n b" by (rule reader_loop_feed) (use n assms in simp_all)
  then have l: "reader_loop (redisReaderFeed n b) = reader_loop (redisReaderFeed l b)" "pos_ok l"
    by (simp_all add: loop_feed_def l_def)
  have g: "fst g = fst (get_start n)" "rd_norm (snd g) = rd_norm (snd (get_start n))"
    "fst g' = fst (get_start (redisReaderFeed n b))" "rd_norm (snd g') = rd_norm (snd (get_start (redisReaderFeed n b)))"
    using get_reply_start [of r] get_reply_start [of "redisReaderFeed r b"] by (simp_all add: g_def g'_def n_def start_feed)
  have ok: "pos_ok (snd g)" using get_reply_fields [of r] assms by (simp add: g_def)
  show ?thesis
  proof (cases "rd_err l")
    case (Some e)
    then have s: "get_start n = (Inl e, l)" "get_start (redisReaderFeed n b) = (Inl e, l)"
      using n l lf by (simp_all add: get_start_def l_def [symmetric] feed_error loop_feed_def)
    then have "rd_err (snd g) = Some e" using g(2) Some by (metis rd_norm_fields(2) snd_conv)
    then have "redisReaderGetReply (redisReaderFeed (snd g) b) = (Inl e, snd g)"
      by (simp add: feed_error redisReaderGetReply_def)
    then show ?thesis using g s by simp
  next
    case None
    show ?thesis
    proof (cases "rd_task l = []")
      case True
      then obtain v where v: "rd_reply l = Some v" using loop_reply [of n] None n by (auto simp: l_def)
      have s: "get_start n = (Inr (Some v), l\<lparr>rd_reply := None\<rparr>)"
        "get_start (redisReaderFeed n b) = (Inr (Some v), (redisReaderFeed l b)\<lparr>rd_reply := None\<rparr>)"
        using n l None True v by (simp_all add: get_start_def l_def [symmetric])
      have "rd_norm (redisReaderFeed (snd g) b) = rd_norm (redisReaderFeed (l\<lparr>rd_reply := None\<rparr>) b)"
        using g(2) s(1) ok l(2) by (intro norm_feed) (simp_all add: pos_ok_def)
      also have "redisReaderFeed (l\<lparr>rd_reply := None\<rparr>) b = (redisReaderFeed l b)\<lparr>rd_reply := None\<rparr>"
        by (simp add: redisReaderFeed_def)
      finally show ?thesis using g s by simp
    next
      case False
      then have s: "get_start n = (Inr None, l)" "get_start (redisReaderFeed n b) = get_start (redisReaderFeed l b)"
        using n l None by (simp_all add: get_start_def l_def [symmetric])
      have "rd_norm (redisReaderFeed (snd g) b) = rd_norm (redisReaderFeed l b)"
        using g(2) s(1) ok l(2) by (intro norm_feed) simp_all
      from get_reply_norm [OF this] get_reply_start [of "redisReaderFeed l b"] False
      show ?thesis using g s by (simp add: rd_start_def)
    qed
  qed
qed

lemma get_replies_norm:
  "rd_norm r = rd_norm s \<Longrightarrow> fst (get_replies r) = fst (get_replies s) \<and> rd_norm (snd (get_replies r)) = rd_norm (snd (get_replies s))"
proof (induction r arbitrary: s rule: get_replies.induct)
  case (1 r)
  obtain x r' where r: "redisReaderGetReply r = (x, r')" by (cases "redisReaderGetReply r")
  obtain y s' where s: "redisReaderGetReply s = (y, s')" by (cases "redisReaderGetReply s")
  have eq: "y = x" "rd_norm r' = rd_norm s'" using get_reply_norm [OF 1(3)] r s by simp_all
  show ?case
  proof (cases "\<exists>v. x = Inr (Some v)")
    case True
    then obtain v where "x = Inr (Some v)" by blast
    with r s eq 1(1) [of x r' "Some v" v s'] show ?thesis
      by (simp add: get_replies.simps [of r] get_replies.simps [of s])
  next
    case False
    then show ?thesis using r s eq
      by (auto simp: get_replies.simps [of r] get_replies.simps [of s] split: sum.split option.split)
  qed
qed

lemma get_replies_error: "rd_err r \<noteq> None \<Longrightarrow> get_replies r = ([], r)"
  by (subst get_replies.simps) (auto simp: redisReaderGetReply_def)

lemma get_replies_fields:
  "rd_err r = None \<Longrightarrow> pos_ok r \<Longrightarrow> length (rest_of r) < 2 ^ 31 \<Longrightarrow>
     pos_ok (snd (get_replies r)) \<and> length (rest_of (snd (get_replies r))) \<le> length (rest_of r)"
proof (induction r rule: get_replies.induct)
  case (1 r)
  obtain x r' where r: "redisReaderGetReply r = (x, r')" by (cases "redisReaderGetReply r")
  have f: "length (rest_of r') \<le> length (rest_of r)" "pos_ok r'"
    using get_reply_fields [OF 1(3-5)] r by simp_all
  show ?case
  proof (cases "\<exists>v. x = Inr (Some v)")
    case True
    then obtain v where v: "x = Inr (Some v)" by blast
    then have "rd_err r' = None" using get_reply_fields [OF 1(3-5)] r by simp
    with r v f 1(1) [of x r' "Some v" v] 1(5) show ?thesis by (simp add: get_replies.simps [of r])
  next
    case False
    then show ?thesis using r f by (auto simp: get_replies.simps [of r] split: sum.split option.split)
  qed
qed

lemma get_replies_feed:
  "rd_err r = None \<Longrightarrow> pos_ok r \<Longrightarrow> length (rest_of r @ b) < 2 ^ 31 \<Longrightarrow>
     fst (get_replies (redisReaderFeed r b)) =
       fst (get_replies r) @ fst (get_replies (redisReaderFeed (snd (get_replies r)) b)) \<and>
     rd_norm (snd (get_replies (redisReaderFeed r b))) =
       rd_norm (snd (get_replies (redisReaderFeed (snd (get_replies r)) b)))"
proof (induction r rule: get_replies.induct)
  case (1 r)
  obtain x r' where r: "redisReaderGetReply r = (x, r')" by (cases "redisReaderGetReply r")
  obtain y s' where s: "redisReaderGetReply (redisReaderFeed r b) = (y, s')" by (cases "redisReaderGetReply (redisReaderFeed r b)")
  have len: "length (rest_of r) < 2 ^ 31" using 1(5) by simp
  note feed = get_reply_feed [OF 1(3-5)] and fields = get_reply_fields [OF 1(3,4) len]
  show ?case
  proof (cases "\<exists>v. x = Inr (Some v)")
    case True
    then obtain v where v: "x = Inr (Some v)" by blast
    then have eq: "y = x" "rd_norm s' = rd_norm (redisReaderFeed r' b)" using feed r s by simp_all
    have f: "rd_err r' = None" "pos_ok r'" "length (rest_of r' @ b) < 2 ^ 31" using fields r v 1(5) by simp_all
    have "get_replies r = (v # fst (get_replies r'), snd (get_replies r'))"
      "get_replies (redisReaderFeed r b) = (v # fst (get_replies s'), snd (get_replies s'))"
      using r s v eq by (simp_all add: get_replies.simps [of r] get_replies.simps [of "redisReaderFeed r b"])
    then show ?thesis
      using 1(1) [of x r' "Some v" v] r v f get_replies_norm [OF eq(2)] by simp
  next
    case False
    have r': "get_replies r = ([], r')" using r False by (auto simp: get_replies.simps [of r] split: sum.split option.split)
    obtain z t' where t: "redisReaderGetReply (redisReaderFeed r' b) = (z, t')" by (cases "redisReaderGetReply (redisReaderFeed r' b)")
    have eq: "y = z" "rd_norm s' = rd_norm t'" using feed r s t False by simp_all
    show ?thesis using r' s t eq get_replies_norm [OF eq(2)]
      by (auto simp: get_replies.simps [of "redisReaderFeed r b"] get_replies.simps [of "redisReaderFeed r' b"]
          split: sum.split option.split)
  qed
qed

definition idle :: "redisReader \<Rightarrow> bool" where
  "idle r \<longleftrightarrow> fst (get_replies r) = [] \<and> rd_norm (snd (get_replies r)) = rd_norm r"

lemma idle_get_replies:
  assumes "rd_err r = None" "pos_ok r" "length (rest_of r) < 2 ^ 31"
  shows "idle (snd (get_replies r))"
proof -
  have "redisReaderFeed s [] = s" for s by (simp add: redisReaderFeed_def)
  then show ?thesis using get_replies_feed [of r "[]"] assms by (simp add: idle_def)
qed

text \<open>Adding the pieces one by one and adding them at once.\<close>

lemma read_stream_concat:
  "pos_ok r \<Longrightarrow> length (rest_of r @ concat bufs) < 2 ^ 31 \<Longrightarrow> idle r \<Longrightarrow>
     fst (read_stream r bufs) = fst (get_replies (redisReaderFeed r (concat bufs))) \<and>
     rd_norm (snd (read_stream r bufs)) = rd_norm (snd (get_replies (redisReaderFeed r (concat bufs))))"
proof (induction bufs arbitrary: r)
  case Nil
  have "redisReaderFeed r [] = r" by (simp add: redisReaderFeed_def)
  with Nil show ?case by (simp add: idle_def)
next
  case (Cons buf bufs)
  let ?f = "redisReaderFeed r buf"
  have split: "redisReaderFeed r (buf @ s) = redisReaderFeed ?f s" for s
    by (cases "rd_err r") (simp_all add: redisReaderFeed_def)
  obtain vs r' where g: "get_replies ?f = (vs, r')" by (cases "get_replies ?f")
  show ?case
  proof (cases "rd_err r")
    case None
    have f: "rd_err ?f = None" "pos_ok ?f" "rest_of ?f = rest_of r @ buf" "length (rest_of ?f) < 2 ^ 31"
      using None Cons.prems rest_of_feed [of r buf] by simp_all
    have r': "pos_ok r'" "length (rest_of r') \<le> length (rest_of ?f)"
      using get_replies_fields [OF f(1,2,4)] g by simp_all
    have "idle r'" using idle_get_replies [OF f(1,2,4)] g by simp
    then show ?thesis
      using Cons.IH [of r'] r' f Cons.prems(2) get_replies_feed [of ?f "concat bufs"] g
      by (simp add: split split_beta)
  next
    case (Some e)
    then have "redisReaderFeed r s = r" for s by (simp add: feed_error)
    moreover from Some have "get_replies r = ([], r)" by (simp add: get_replies_error)
    ultimately show ?thesis using Cons by (simp add: split_beta)
  qed
qed

lemma get_replies_all:
  "list_all resp_ok vs \<Longrightarrow> length (concat (map resp vs)) < 2 ^ 31 \<Longrightarrow>
     fst (get_replies (redisReaderFeed redisReaderCreate (concat (map resp vs)))) = vs \<and>
     rd_norm (snd (get_replies (redisReaderFeed redisReaderCreate (concat (map resp vs))))) = rd_norm redisReaderCreate"
proof (induction vs)
  case Nil
  have "redisReaderGetReply redisReaderCreate = (Inr None, redisReaderCreate)"
    by (simp add: redisReaderGetReply_def redisReaderCreate_def)
  moreover have "redisReaderFeed redisReaderCreate [] = redisReaderCreate"
    by (simp add: redisReaderFeed_def redisReaderCreate_def)
  ultimately show ?case by (simp add: get_replies.simps)
next
  case (Cons v vs)
  let ?t = "concat (map resp vs)"
  obtain r where r: "redisReaderGetReply (redisReaderFeed redisReaderCreate (resp v @ ?t)) = (Inr (Some v), r)"
    "rest_of r = ?t" "rd_err r = None" "rd_task r = []" "rd_reply r = None"
    using reader_reads [of v ?t] Cons.prems by auto
  have "rd_norm r = rd_norm (redisReaderFeed redisReaderCreate ?t)"
    by (rule rd_norm_trim) (use r in \<open>simp add: rd_trim_eq_iff redisReaderCreate_def redisReaderFeed_def rest_of_def\<close>)
  from get_replies_norm [OF this] Cons r show ?case
    by (simp add: get_replies.simps [of "redisReaderFeed redisReaderCreate (resp v @ ?t)"])
qed

section \<open>Properties\<close>



end
