(* ===== verification/Http_Stream.thy ===== *)
theory Http_Stream
  imports Http_Parser
begin

text \<open>
  What the HTTP parser keeps from byte to byte, and that the pieces in which the bytes of a
  connection arrive do not matter.
\<close>

section \<open>Marks\<close>

text \<open>
  The state and the marks after a list of instructions, \<^term>\<open>None\<close> when the list does not run to its
  end. A list is legal if it sets only marks that are not set, reports only text that is marked,
  and calls the other callbacks only when nothing is marked.
\<close>

fun track :: "instr list \<Rightarrow> state \<Rightarrow> mark set \<Rightarrow> (state \<times> mark set) option" where
  "track [] st ms = Some (st, ms)"
| "track (MARK m # is) st ms = track is st (insert m ms)"
| "track (CALLBACK m # is) st ms = track is st (ms - {m})"
| "track (GOTO st' # is) st ms = track is st' ms"
| "track (RETURN # is) st ms = None"
| "track (ERROR # is) st ms = None"
| "track (ABORT # is) st ms = None"
| "track (_ # is) st ms = track is st ms"

abbreviation url_marks :: "mark set" where
  "url_marks \<equiv> {fragment_mark, query_string_mark, path_mark, url_mark}"

fun legal :: "mark set \<Rightarrow> instr list \<Rightarrow> bool" where
  "legal ms [] = True"
| "legal ms (MARK m # is) \<longleftrightarrow> m \<notin> ms \<and> (ms = {} \<or> m \<in> url_marks \<and> ms \<subseteq> url_marks) \<and> legal (insert m ms) is"
| "legal ms (CALLBACK m # is) \<longleftrightarrow> m \<in> ms \<and> (ms = {m} \<or> ms \<subseteq> url_marks) \<and> legal (ms - {m}) is"
| "legal ms (CALLBACK2 n # is) \<longleftrightarrow> ms = {} \<and> legal ms is"
| "legal ms (BODY text # is) \<longleftrightarrow> ms = {} \<and> legal ms is"
| "legal ms (_ # is) \<longleftrightarrow> legal ms is"

definition marks_of :: "state \<Rightarrow> mark set" where
  "marks_of st =
     (if st = s_header_field then {header_field_mark}
      else if st = s_header_value then {header_value_mark}
      else if url_state st
      then insert url_mark (if st = s_req_fragment then {fragment_mark} else if st = s_req_query_string then {query_string_mark}
        else if st = s_req_path then {path_mark} else {})
      else {})"

lemma marks_of_marked: "m \<in> marks_of st \<longleftrightarrow> marked st m"
  by (cases m) (auto simp: marks_of_def url_state_def)

definition good :: "state \<Rightarrow> instr list \<Rightarrow> bool" where
  "good st is \<longleftrightarrow> legal (marks_of st) is \<and> (\<forall>st' ms. track is st (marks_of st) = Some (st', ms) \<longrightarrow> ms = marks_of st')"

lemmas instr_defs = check_or_error_def assert_or_abort_def next_digit_def start_req_method_assign_def req_method_def http_0_9_def
  url_end_def match_word_def header_almost_done_def finish_message_def headers_almost_done_def NEW_MESSAGE_def start_state_def

lemma good_name: "good s_header_field (header_name hs index ch c)"
  by (cases hs) (simp_all add: good_def instr_defs marks_of_def Let_def)

lemma good_value: "good s_header_value (header_text hs index ch c)"
  by (cases hs) (simp_all add: good_def instr_defs marks_of_def Let_def)

lemma good_value_first: "good s_header_value_start ([MARK header_value_mark, GOTO s_header_value, INDEX 0] @ value_first hs ch c)"
  by (cases hs) (simp_all add: good_def instr_defs marks_of_def Let_def url_state_def)

lemma good_method: "good s_req_method (req_method m index ch)"
  by (simp add: good_def instr_defs marks_of_def Let_def url_state_def split: option.split)

lemma good_step: "good st (parser_step p st hs index ch)"
proof -
  note good_defs = good_def instr_defs marks_of_def url_state_def Let_def
  consider "st = s_header_field" | "st = s_header_value" | "st = s_header_value_start" | "st = s_req_method"
    | "st \<notin> {s_header_field, s_header_value, s_header_value_start, s_req_method}" by blast
  then show ?thesis
  proof cases
    case 1
    then show ?thesis using good_name [of hs index ch "TOKEN ch"] by (auto simp: good_defs split: if_splits)
  next
    case 2
    then show ?thesis using good_value [of hs index ch "LOWER ch"] by (auto simp: good_defs split: if_splits)
  next
    case 3
    then show ?thesis using good_value_first [of hs ch "LOWER ch"] by (auto simp: good_defs split: if_splits)
  next
    case 4
    then show ?thesis using good_method by simp
  next
    case 5
    then show ?thesis by (cases st) (simp_all add: good_defs insert_commute insert_Diff_if)
  qed
qed

lemma good_next:
  assumes "next_step p st hs index ch cs = (k, is)"
  shows "good st is"
proof (cases "st \<in> {s_body_identity, s_body_identity_eof, s_chunk_data}")
  case True
  then show ?thesis using assms
    by (auto simp: next_step_def body_read_def Let_def good_def marks_of_def url_state_def finish_message_def NEW_MESSAGE_def
        start_state_def split: if_splits)
next
  case False
  then show ?thesis using assms good_step [of st p hs index ch] by (auto simp: next_step_def Let_def)
qed

abbreviation run_marks :: "'s run \<Rightarrow> mark set" where
  "run_marks r \<equiv> dom (r_marks r)"

lemma run_callback_Running: "run_callback pos res r = Running r' \<Longrightarrow> \<exists>s. r' = r\<lparr>r_user := s\<rparr>"
  by (auto simp: run_callback_def split: option.splits if_splits)

lemma track_exec:
  "exec_instrs cb pos is r = Running r' \<Longrightarrow> track is (r_state r) (run_marks r) = Some (r_state r', run_marks r')"
proof (induction "is" arbitrary: r)
  case (Cons i "is")
  then obtain r1 where 1: "exec_instr cb pos i r = Running r1" and 2: "exec_instrs cb pos is r1 = Running r'"
    by (auto split: outcome.splits)
  have "track (i # is) (r_state r) (run_marks r) = track is (r_state r1) (run_marks r1)"
    using 1 by (cases i) (auto simp: CALLBACK_NOCLEAR_def insert_absorb Diff_insert_absorb
        split: option.splits outcome.splits prod.splits dest!: run_callback_Running)
  then show ?case using Cons.IH [OF 2] by simp
qed simp

section \<open>Registers\<close>

text \<open>The parser and the local variables after a list of instructions.\<close>

type_synonym registers = "http_parser \<times> state \<times> header_states \<times> nat \<times> nat"

fun regs :: "instr list \<Rightarrow> registers \<Rightarrow> registers option" where
  "regs [] t = Some t"
| "regs (GOTO st' # is) (p, st, hs, i, n) = regs is (p, st', hs, i, n)"
| "regs (HEADER hs' # is) (p, st, hs, i, n) = regs is (p, st, hs', i, n)"
| "regs (INDEX i' # is) (p, st, hs, i, n) = regs is (p, st, hs, i', n)"
| "regs (NREAD n' # is) (p, st, hs, i, n) = regs is (p, st, hs, i, n')"
| "regs (SET f # is) (p, st, hs, i, n) = regs is (f p, st, hs, i, n)"
| "regs (RETURN # is) t = None"
| "regs (ERROR # is) t = None"
| "regs (ABORT # is) t = None"
| "regs (_ # is) t = regs is t"

definition run_regs :: "'s run \<Rightarrow> registers" where
  "run_regs r = (r_parser r, r_state r, r_header_state r, r_index r, r_nread r)"

lemma regs_exec: "exec_instrs cb pos is r = Running r' \<Longrightarrow> regs is (run_regs r) = Some (run_regs r')"
proof (induction "is" arbitrary: r)
  case (Cons i "is")
  then obtain r1 where 1: "exec_instr cb pos i r = Running r1" and 2: "exec_instrs cb pos is r1 = Running r'"
    by (auto split: outcome.splits)
  have "regs (i # is) (run_regs r) = regs is (run_regs r1)"
    using 1 by (cases i) (auto simp: run_regs_def CALLBACK_NOCLEAR_def
        split: option.splits outcome.splits prod.splits dest!: run_callback_Running)
  then show ?case using Cons.IH [OF 2] by simp
qed simp

text \<open>
  What holds between two bytes: the index fits the word that is being matched, the state of the
  header is one the next byte can deal with, and chunks are read only with the flag set.
\<close>

primrec name_state :: "header_states \<Rightarrow> nat \<Rightarrow> bool" where
  "name_state h_general i = True"
| "name_state h_C i = (i = 0)"
| "name_state h_CO i = (i = 1)"
| "name_state h_CON i = (i = 2)"
| "name_state h_matching_connection i = (i < 9)"
| "name_state h_matching_proxy_connection i = (i < 15)"
| "name_state h_matching_content_length i = (i < 13)"
| "name_state h_matching_transfer_encoding i = (i < 16)"
| "name_state h_matching_upgrade i = (i < 6)"
| "name_state h_connection i = True"
| "name_state h_content_length i = True"
| "name_state h_transfer_encoding i = True"
| "name_state h_upgrade i = True"
| "name_state h_matching_transfer_encoding_chunked i = False"
| "name_state h_matching_connection_keep_alive i = False"
| "name_state h_matching_connection_close i = False"
| "name_state h_transfer_encoding_chunked i = False"
| "name_state h_connection_keep_alive i = False"
| "name_state h_connection_close i = False"

primrec value_state :: "header_states \<Rightarrow> nat \<Rightarrow> bool" where
  "value_state h_general i = True"
| "value_state h_C i = False"
| "value_state h_CO i = False"
| "value_state h_CON i = False"
| "value_state h_matching_connection i = False"
| "value_state h_matching_proxy_connection i = False"
| "value_state h_matching_content_length i = False"
| "value_state h_matching_transfer_encoding i = False"
| "value_state h_matching_upgrade i = False"
| "value_state h_connection i = False"
| "value_state h_content_length i = True"
| "value_state h_transfer_encoding i = False"
| "value_state h_upgrade i = False"
| "value_state h_matching_transfer_encoding_chunked i = (i < 6)"
| "value_state h_matching_connection_keep_alive i = (i < 9)"
| "value_state h_matching_connection_close i = (i < 4)"
| "value_state h_transfer_encoding_chunked i = True"
| "value_state h_connection_keep_alive i = True"
| "value_state h_connection_close i = True"

definition chunk_state :: "state \<Rightarrow> bool" where
  "chunk_state st = (body_state st \<and> st \<noteq> s_body_identity \<and> st \<noteq> s_body_identity_eof)"

fun regs_ok :: "registers \<Rightarrow> bool" where
  "regs_ok (p, st, hs, i, n) \<longleftrightarrow>
     i \<le> 20 \<and> n \<le> HTTP_MAX_HEADER_SIZE \<and> (st = s_header_field \<longrightarrow> name_state hs i) \<and>
     (st = s_header_value \<longrightarrow> value_state hs i) \<and> (chunk_state st \<longrightarrow> p_chunked p)"

lemma regs_ok_name:
  "regs_ok (p, s_header_field, hs, i, n) \<Longrightarrow> regs (header_name hs i ch c) (p, s_header_field, hs, i, n) = Some t \<Longrightarrow> regs_ok t"
  by (cases hs) (auto simp: match_word_def Let_def chunk_state_def body_state_def split: if_splits)

lemma regs_ok_value:
  "regs_ok (p, s_header_value, hs, i, n) \<Longrightarrow> regs (header_text hs i ch c) (p, s_header_value, hs, i, n) = Some t \<Longrightarrow> regs_ok t"
  by (cases hs) (auto simp: match_word_def check_or_error_def Let_def chunk_state_def body_state_def split: if_splits)

lemma regs_ok_value_first:
  "n \<le> HTTP_MAX_HEADER_SIZE \<Longrightarrow> regs (value_first hs ch c) (p, s_header_value, hs, 0, n) = Some t \<Longrightarrow> regs_ok t"
  by (cases hs) (auto simp: check_or_error_def chunk_state_def body_state_def split: if_splits)

lemma length_method_string: "length (method_string m) \<le> 11"
  by (cases m) simp_all

lemma regs_ok_method:
  "i \<le> 20 \<Longrightarrow> n \<le> HTTP_MAX_HEADER_SIZE \<Longrightarrow> regs (req_method m i ch) (p, s_req_method, hs, i, n) = Some t \<Longrightarrow> regs_ok t"
  using length_method_string [of m]
  by (auto simp: req_method_def Let_def chunk_state_def body_state_def split: if_splits option.splits)

lemma header_first_ok: "name_state (header_first c) 0"
  by (simp add: header_first_def)

lemma regs_ok_step:
  assumes "regs_ok (p, st, hs, i, n)" "regs (parser_step p st hs i ch) (p, st, hs, i, n) = Some t"
  shows "regs_ok t"
proof -
  note ok_defs = instr_defs chunk_state_def body_state_def Let_def start_message_def clear_flags_def
  consider "st = s_header_field" | "st = s_header_value" | "st = s_header_value_start" | "st = s_req_method"
    | "st \<notin> {s_header_field, s_header_value, s_header_value_start, s_req_method}" by blast
  then show ?thesis
  proof cases
    case 1
    with assms regs_ok_name [of p hs i n ch "TOKEN ch" t] show ?thesis by (auto simp: ok_defs split: if_splits)
  next
    case 2
    with assms regs_ok_value [of p hs i n ch "LOWER ch" t] show ?thesis by (auto simp: ok_defs split: if_splits)
  next
    case 3
    with assms regs_ok_value_first [of n hs ch "LOWER ch" p t] show ?thesis by (auto simp: ok_defs split: if_splits)
  next
    case 4
    with assms regs_ok_method [of i n "p_method p" ch p hs t] show ?thesis by simp
  next
    case 5
    with assms show ?thesis
      by (cases st) (auto simp: ok_defs header_first_ok split: if_splits)
  qed
qed

lemma regs_ok_next:
  assumes "regs_ok (p, st, hs, i, n)" "next_step p st hs i ch cs = (k, is)" "regs is (p, st, hs, i, n) = Some t"
  shows "regs_ok t"
proof (cases "st \<in> {s_body_identity, s_body_identity_eof, s_chunk_data}")
  case True
  then show ?thesis using assms
    by (auto simp: next_step_def body_read_def Let_def instr_defs chunk_state_def body_state_def split: if_splits prod.splits)
next
  case False
  then show ?thesis using assms regs_ok_step [of p st hs i n ch t] by (auto simp: next_step_def Let_def)
qed

text \<open>The only step that can abort is the comparison of a method name behind its end.\<close>

lemma header_aborts: "name_state hs i \<Longrightarrow> ABORT \<notin> set (header_name hs i ch c)" "value_state hs i \<Longrightarrow> ABORT \<notin> set (header_text hs i ch c)"
  by (cases hs; simp add: match_word_def check_or_error_def Let_def)+

lemma value_first_no_abort: "ABORT \<notin> set (value_first hs ch c)"
  by (cases hs) (simp_all add: check_or_error_def)

lemma step_abort:
  assumes "regs_ok (p, st, hs, i, n)" "next_step p st hs i ch cs = (k, is)" "ABORT \<in> set is"
  shows "st = s_req_method \<and> i > length (method_string (p_method p))"
proof -
  note defs = instr_defs chunk_state_def body_state_def Let_def
  consider "st \<in> {s_body_identity, s_body_identity_eof, s_chunk_data}"
    | "st = s_header_field" | "st = s_header_value" | "st = s_header_value_start" | "st = s_req_method"
    | "st \<notin> {s_body_identity, s_body_identity_eof, s_chunk_data, s_header_field, s_header_value, s_header_value_start, s_req_method}"
    by blast
  then show ?thesis
  proof cases
    case 1
    with assms show ?thesis by (auto simp: next_step_def body_read_def defs split: if_splits prod.splits)
  next
    case 2
    with assms header_aborts(1) [of hs i] show ?thesis by (auto simp: next_step_def defs split: if_splits)
  next
    case 3
    with assms header_aborts(2) [of hs i] show ?thesis by (auto simp: next_step_def defs split: if_splits)
  next
    case 4
    with assms value_first_no_abort [of hs] show ?thesis by (auto simp: next_step_def defs split: if_splits)
  next
    case 5
    with assms show ?thesis by (auto simp: next_step_def defs split: if_splits option.splits)
  next
    case 6
    with assms show ?thesis by (cases st) (auto simp: next_step_def defs split: if_splits)
  qed
qed

section \<open>Runs\<close>

definition run_ok :: "'s run \<Rightarrow> bool" where
  "run_ok r \<longleftrightarrow> regs_ok (run_regs r) \<and> run_marks r = marks_of (r_state r)"

text \<open>The first part of an iteration: counting the bytes of the header.\<close>

definition count_header :: "'s run \<Rightarrow> 's run" where
  "count_header r = (if PARSING_HEADER (r_state r) (r_parser r) then r\<lparr>r_nread := r_nread r + 1\<rparr> else r)"

definition too_long :: "'s run \<Rightarrow> bool" where
  "too_long r \<longleftrightarrow> PARSING_HEADER (r_state r) (r_parser r) \<and> r_nread r > HTTP_MAX_HEADER_SIZE"

definition run_step :: "'s run \<Rightarrow> char \<Rightarrow> string \<Rightarrow> nat \<times> instr list" where
  "run_step r ch cs = next_step (r_parser r) (r_state r) (r_header_state r) (r_index r) ch cs"

lemma http_loop_Cons:
  "http_loop cb pos (ch # cs) r =
     (let r = count_header r in
      if too_long r then Failed pos r
      else let (k, is) = run_step r ch cs in
        (case exec_instrs cb (pos + k) is r of
           Running r \<Rightarrow> http_loop cb (pos + 1 + k) (drop k cs) (advance_marks (ch # take k cs) r)
         | res \<Rightarrow> res))"
  by (simp add: count_header_def too_long_def run_step_def Let_def)

declare http_loop.simps(2) [simp del]

lemma advance_marks_simps [simp]:
  "r_state (advance_marks d r) = r_state r" "r_parser (advance_marks d r) = r_parser r"
  "r_user (advance_marks d r) = r_user r" "run_regs (advance_marks d r) = run_regs r"
  "run_marks (advance_marks d r) = run_marks r"
  by (auto simp: advance_marks_def run_regs_def dom_def)

lemma count_header_simps [simp]:
  "r_state (count_header r) = r_state r" "r_parser (count_header r) = r_parser r" "r_marks (count_header r) = r_marks r"
  "r_user (count_header r) = r_user r" "r_header_state (count_header r) = r_header_state r" "r_index (count_header r) = r_index r"
  by (simp_all add: count_header_def)

lemma run_ok_count: "run_ok r \<Longrightarrow> \<not> too_long (count_header r) \<Longrightarrow> run_ok (count_header r)"
  by (auto simp: run_ok_def run_regs_def too_long_def count_header_def split: if_splits)

lemma run_ok_exec:
  assumes "run_ok r" "run_step r ch cs = (k, is)" "exec_instrs cb pos is r = Running r'"
  shows "run_ok r'"
proof -
  have "regs is (r_parser r, r_state r, r_header_state r, r_index r, r_nread r) = Some (run_regs r')"
    using regs_exec [OF assms(3)] by (simp only: run_regs_def [of r])
  moreover have "regs_ok (r_parser r, r_state r, r_header_state r, r_index r, r_nread r)"
    using assms(1) by (simp only: run_ok_def run_regs_def)
  ultimately have "regs_ok (run_regs r')" using regs_ok_next assms(2) unfolding run_step_def by blast
  moreover have "run_marks r' = marks_of (r_state r')"
    using track_exec [OF assms(3)] assms(1) good_next [OF assms(2) [unfolded run_step_def]] by (auto simp: run_ok_def good_def)
  ultimately show ?thesis by (simp add: run_ok_def)
qed

lemma run_ok_advance: "run_ok (advance_marks d r) = run_ok r"
  by (simp add: run_ok_def)

lemma run_ok_loop: "run_ok r \<Longrightarrow> http_loop cb pos d r = Running r' \<Longrightarrow> run_ok r'"
proof (induction d arbitrary: pos r rule: length_induct)
  case (1 d)
  show ?case
  proof (cases d)
    case (Cons ch cs)
    let ?r = "count_header r"
    obtain k "is" where st: "run_step ?r ch cs = (k, is)" by (cases "run_step ?r ch cs")
    have n: "\<not> too_long ?r" using "1.prems"(2) Cons by (auto simp: http_loop_Cons Let_def)
    then obtain r1 where r1: "exec_instrs cb (pos + k) is ?r = Running r1"
      "http_loop cb (pos + 1 + k) (drop k cs) (advance_marks (ch # take k cs) r1) = Running r'"
      using "1.prems"(2) Cons st by (auto simp: http_loop_Cons Let_def split: outcome.splits)
    have "run_ok (advance_marks (ch # take k cs) r1)"
      using run_ok_exec [OF run_ok_count [OF "1.prems"(1) n] st r1(1)] by (simp add: run_ok_advance)
    moreover have "length (drop k cs) < length d" using Cons by simp
    ultimately show ?thesis using "1.IH" r1(2) by blast
  qed (use 1 in simp)
qed

section \<open>Messages\<close>

text \<open>
  The callbacks that put the text of a message together, and what they collect. A complete
  message is kept with the fields of the parser that its reader may use.
\<close>

record message =
  m_url :: string
  m_path :: string
  m_query_string :: string
  m_fragment :: string
  m_headers :: "(string \<times> string) list"
  m_in_name :: bool
  m_body :: string

definition empty_message :: message where
  "empty_message = \<lparr>m_url = [], m_path = [], m_query_string = [], m_fragment = [], m_headers = [], m_in_name = False, m_body = []\<rparr>"

record recorder =
  rc_message :: message
  rc_done :: "(http_method \<times> nat \<times> nat \<times> bool \<times> bool \<times> message) list"

definition add_name :: "string \<Rightarrow> message \<Rightarrow> message" where
  "add_name text m =
     (if m_in_name m \<and> m_headers m \<noteq> []
      then m\<lparr>m_headers := butlast (m_headers m) @ [(fst (last (m_headers m)) @ text, snd (last (m_headers m)))]\<rparr>
      else m\<lparr>m_headers := m_headers m @ [(text, [])], m_in_name := True\<rparr>)"

definition add_value :: "string \<Rightarrow> message \<Rightarrow> message" where
  "add_value text m =
     (if m_headers m \<noteq> []
      then m\<lparr>m_headers := butlast (m_headers m) @ [(fst (last (m_headers m)), snd (last (m_headers m)) @ text)], m_in_name := False\<rparr>
      else m\<lparr>m_in_name := False\<rparr>)"

primrec add_text :: "mark \<Rightarrow> string \<Rightarrow> message \<Rightarrow> message" where
  "add_text header_field_mark text m = add_name text m"
| "add_text header_value_mark text m = add_value text m"
| "add_text fragment_mark text m = m\<lparr>m_fragment := m_fragment m @ text\<rparr>"
| "add_text query_string_mark text m = m\<lparr>m_query_string := m_query_string m @ text\<rparr>"
| "add_text path_mark text m = m\<lparr>m_path := m_path m @ text\<rparr>"
| "add_text url_mark text m = m\<lparr>m_url := m_url m @ text\<rparr>"

definition record_text :: "mark \<Rightarrow> http_parser \<Rightarrow> string \<Rightarrow> recorder \<Rightarrow> (int \<times> recorder) option" where
  "record_text k p text s = Some (0, s\<lparr>rc_message := add_text k text (rc_message s)\<rparr>)"

definition recording :: "recorder http_parser_settings" where
  "recording =
     \<lparr>on_message_begin = \<lambda>p s. Some (0, s\<lparr>rc_message := empty_message\<rparr>),
      on_path = record_text path_mark, on_query_string = record_text query_string_mark, on_url = record_text url_mark,
      on_fragment = record_text fragment_mark, on_header_field = record_text header_field_mark,
      on_header_value = record_text header_value_mark,
      on_body = \<lambda>p text s. Some (0, s\<lparr>rc_message := (rc_message s)\<lparr>m_body := m_body (rc_message s) @ text\<rparr>\<rparr>),
      on_message_complete = \<lambda>p s. Some (0, s\<lparr>rc_message := empty_message,
        rc_done := rc_done s @ [(p_method p, p_http_major p, p_http_minor p, p_upgrade p, http_should_keep_alive p, rc_message s)]\<rparr>)\<rparr>"

lemma on_mark_recording: "on_mark recording k p text s = Some (0, s\<lparr>rc_message := add_text k text (rc_message s)\<rparr>)"
  by (cases k) (simp_all add: recording_def record_text_def)

text \<open>The message with the text that is marked but not yet reported.\<close>

definition flush :: "recorder run \<Rightarrow> message" where
  "flush r = foldl (\<lambda>m k. case r_marks r k of None \<Rightarrow> m | Some text \<Rightarrow> add_text k text m) (rc_message (r_user r)) all_marks"

definition pending :: "recorder run \<Rightarrow> mark \<Rightarrow> string" where
  "pending r k = (case r_marks r k of None \<Rightarrow> [] | Some text \<Rightarrow> text)"

lemma flush_url:
  "run_marks r \<subseteq> url_marks \<Longrightarrow> flush r = (rc_message (r_user r))\<lparr>m_url := m_url (rc_message (r_user r)) @ pending r url_mark,
     m_path := m_path (rc_message (r_user r)) @ pending r path_mark,
     m_query_string := m_query_string (rc_message (r_user r)) @ pending r query_string_mark,
     m_fragment := m_fragment (rc_message (r_user r)) @ pending r fragment_mark\<rparr>"
proof -
  assume "run_marks r \<subseteq> url_marks"
  then have "r_marks r header_field_mark = None" "r_marks r header_value_mark = None" by (auto simp: dom_def)
  then show ?thesis by (simp add: flush_def all_marks_def pending_def split: option.split)
qed

lemma flush_empty: "run_marks r = {} \<Longrightarrow> flush r = rc_message (r_user r)"
  by (simp add: flush_def all_marks_def)

lemma flush_single: "run_marks r = {k} \<Longrightarrow> flush r = add_text k (pending r k) (rc_message (r_user r))"
proof -
  assume a: "run_marks r = {k}"
  then have "r_marks r k \<noteq> None" "\<And>k'. k' \<noteq> k \<Longrightarrow> r_marks r k' = None" by (auto simp: dom_def)
  then show ?thesis by (cases k) (auto simp: flush_def all_marks_def pending_def)
qed

section \<open>Equivalent runs\<close>

text \<open>
  Two runs are equivalent if they are in the same state and have collected the same message, of which
  they may have reported different parts.
\<close>

definition core :: "http_parser \<Rightarrow> http_parser" where
  "core p = p\<lparr>p_state := s_dead, p_header_state := h_general, p_index := 0, p_nread := 0\<rparr>"

definition sim :: "recorder run \<Rightarrow> recorder run \<Rightarrow> bool" where
  "sim r r' \<longleftrightarrow> core (r_parser r) = core (r_parser r') \<and> r_state r = r_state r' \<and> r_header_state r = r_header_state r' \<and>
     r_index r = r_index r' \<and> r_nread r = r_nread r' \<and> run_marks r = run_marks r' \<and>
     rc_done (r_user r) = rc_done (r_user r') \<and> flush r = flush r'"

lemma core_fields:
  assumes "core p = core q"
  shows "p_type p = p_type q \<and> p_chunked p = p_chunked q \<and> p_connection_keep_alive p = p_connection_keep_alive q \<and>
    p_connection_close p = p_connection_close q \<and> p_trailing p = p_trailing q \<and> p_upgrade_header p = p_upgrade_header q \<and>
    p_skipbody p = p_skipbody q \<and> p_content_length p = p_content_length q \<and> p_http_major p = p_http_major q \<and>
    p_http_minor p = p_http_minor q \<and> p_method p = p_method q \<and> p_upgrade p = p_upgrade q \<and> p_status_code p = p_status_code q"
  using assms by (cases p; cases q) (simp add: core_def)

lemma core_simps [simp]:
  "p_type (core p) = p_type p" "p_chunked (core p) = p_chunked p" "p_connection_keep_alive (core p) = p_connection_keep_alive p"
  "p_connection_close (core p) = p_connection_close p" "p_trailing (core p) = p_trailing p"
  "p_upgrade_header (core p) = p_upgrade_header p" "p_skipbody (core p) = p_skipbody p"
  "p_content_length (core p) = p_content_length p" "p_http_major (core p) = p_http_major p" "p_http_minor (core p) = p_http_minor p"
  "p_method (core p) = p_method p" "p_upgrade (core p) = p_upgrade p" "p_status_code (core p) = p_status_code p"
  "http_should_keep_alive (core p) = http_should_keep_alive p"
  by (simp_all add: core_def http_should_keep_alive_def)

lemma finish_message_core [simp]: "finish_message (core p) = finish_message p"
  by (simp add: finish_message_def NEW_MESSAGE_def start_state_def)

lemma headers_almost_done_core [simp]: "headers_almost_done (core p) ch = headers_almost_done p ch"
  by (simp add: headers_almost_done_def Let_def cong: if_cong)

lemma step_core [simp]: "parser_step (core p) st hs i ch = parser_step p st hs i ch"
  by (cases st) (simp_all add: next_digit_def cong: if_cong)

lemma next_step_core: "next_step (core p) st hs i ch cs = next_step p st hs i ch cs"
  by (simp add: next_step_def body_read_def cong: if_cong)

text \<open>An assignment to the parser does not depend on the saved local variables.\<close>

definition same_core :: "(http_parser \<Rightarrow> http_parser) \<Rightarrow> bool" where
  "same_core f \<longleftrightarrow> (\<forall>p. core (f p) = core (f (core p)))"

fun uniform :: "instr list \<Rightarrow> bool" where
  "uniform [] = True"
| "uniform (SET f # is) = (same_core f \<and> uniform is)"
| "uniform (_ # is) = uniform is"

lemma uniform_append [simp]: "uniform (xs @ ys) = (uniform xs \<and> uniform ys)"
  by (induction xs rule: uniform.induct) simp_all

lemma uniform_callbacks [simp]: "uniform (map CALLBACK ms)"
  by (induction ms) simp_all

lemma same_core_assign [simp]:
  "same_core (\<lambda>p. p\<lparr>p_type := t\<rparr>)" "same_core (\<lambda>p. p\<lparr>p_type := t, p_method := m\<rparr>)" "same_core (\<lambda>p. p\<lparr>p_method := m\<rparr>)"
  "same_core (put_major k)" "same_core (put_minor k)" "same_core (put_status k)"
  "same_core (\<lambda>p. p\<lparr>p_http_major := k, p_http_minor := l\<rparr>)" "same_core (\<lambda>p. p\<lparr>p_upgrade_header := b\<rparr>)"
  "same_core (\<lambda>p. p\<lparr>p_content_length := i\<rparr>)" "same_core (\<lambda>p. p\<lparr>p_content_length := p_content_length p - i\<rparr>)"
  "same_core (\<lambda>p. p\<lparr>p_content_length := to_int64 (to_int64 (p_content_length p * i) + j)\<rparr>)"
  "same_core (\<lambda>p. p\<lparr>p_connection_keep_alive := b\<rparr>)" "same_core (\<lambda>p. p\<lparr>p_connection_close := b\<rparr>)"
  "same_core (\<lambda>p. p\<lparr>p_chunked := b\<rparr>)" "same_core (\<lambda>p. p\<lparr>p_trailing := b\<rparr>)" "same_core (\<lambda>p. p\<lparr>p_upgrade := b\<rparr>)"
  "same_core start_message"
  by (simp_all add: same_core_def core_def start_message_def clear_flags_def)

lemma uniform_name [simp]: "uniform (header_name hs i ch c)"
  by (cases hs) (simp_all add: match_word_def Let_def)

lemma uniform_value [simp]: "uniform (header_text hs i ch c)"
  by (cases hs) (simp_all add: match_word_def check_or_error_def Let_def)

lemma uniform_value_first [simp]: "uniform (value_first hs ch c)"
  by (cases hs) (simp_all add: check_or_error_def)

lemma uniform_step [simp]: "uniform (parser_step p st hs i ch)"
  by (cases st) (simp_all add: instr_defs Let_def split: option.split)

lemma uniform_next: "next_step p st hs i ch cs = (k, is) \<Longrightarrow> uniform is"
  by (auto simp: next_step_def body_read_def Let_def finish_message_def split: if_splits)

lemma add_text_append: "add_text k (a @ b) m = add_text k b (add_text k a m)"
  by (cases k) (simp_all add: add_name_def add_value_def)

lemma add_text_Nil_url: "k \<in> url_marks \<Longrightarrow> add_text k [] m = m"
  by auto

lemma add_text_Nil_again: "add_text k [] (add_text k a m) = add_text k a m"
  using add_text_append [of k a "[]" m] by simp

definition mark_set :: "mark set \<Rightarrow> bool" where
  "mark_set ms \<longleftrightarrow> ms = {} \<or> (\<exists>k. ms = {k}) \<or> ms \<subseteq> url_marks"

lemma mark_set_marks_of: "mark_set (marks_of st)"
  by (simp add: mark_set_def marks_of_def)

definition extend :: "mark set \<Rightarrow> string \<Rightarrow> message \<Rightarrow> message" where
  "extend ms d m = foldl (\<lambda>m k. if k \<in> ms then add_text k d m else m) m all_marks"

lemma extend_simps: "extend {} d m = m" "extend {k} d m = add_text k d m"
  by (simp add: extend_def all_marks_def) (cases k; simp add: extend_def all_marks_def)

lemma pending_simps [simp]:
  "pending (advance_marks d r) k = (if k \<in> run_marks r then pending r k @ d else [])"
  "k \<notin> run_marks r \<Longrightarrow> pending r k = []"
  by (auto simp: pending_def advance_marks_def split: option.split)

lemma flush_advance:
  assumes "mark_set (run_marks r)"
  shows "flush (advance_marks d r) = extend (run_marks r) d (flush r)"
proof -
  consider "run_marks r = {}" | k where "run_marks r = {k}" | "run_marks r \<subseteq> url_marks" using assms by (auto simp: mark_set_def)
  then show ?thesis
  proof cases
    case 1
    then show ?thesis by (simp add: flush_empty extend_simps)
  next
    case (2 k)
    then show ?thesis using flush_single [of r k] flush_single [of "advance_marks d r" k]
      by (simp add: extend_simps add_text_append)
  next
    case 3
    then have "header_field_mark \<notin> run_marks r" "header_value_mark \<notin> run_marks r" by auto
    then show ?thesis using flush_url [OF 3] flush_url [of "advance_marks d r"] 3
      by (simp add: extend_def all_marks_def)
  qed
qed

lemma flush_MARK:
  assumes "m \<notin> run_marks r" "run_marks r = {} \<or> m \<in> url_marks \<and> run_marks r \<subseteq> url_marks"
  shows "flush (r\<lparr>r_marks := (r_marks r)(m \<mapsto> [])\<rparr>) = add_text m [] (flush r)"
proof (cases "run_marks r = {}")
  case True
  then have "r_marks r = Map.empty" by simp
  then show ?thesis using flush_single [of "r\<lparr>r_marks := (r_marks r)(m \<mapsto> [])\<rparr>" m] flush_empty [OF True]
    by (simp add: pending_def)
next
  case False
  then have m: "m \<in> url_marks" "run_marks r \<subseteq> url_marks" using assms(2) by auto
  then have "run_marks (r\<lparr>r_marks := (r_marks r)(m \<mapsto> [])\<rparr>) \<subseteq> url_marks" by simp
  from flush_url [OF this] flush_url [OF m(2)] show ?thesis
    using m(1) assms(1) add_text_Nil_url [OF m(1)] by (auto simp: pending_def domIff split: option.split)
qed

lemma flush_CALLBACK:
  assumes "r_marks r m = Some t" "run_marks r = {m} \<or> run_marks r \<subseteq> url_marks"
  shows "flush (r\<lparr>r_user := (r_user r)\<lparr>rc_message := add_text m t (rc_message (r_user r))\<rparr>, r_marks := (r_marks r)(m := None)\<rparr>) = flush r"
    (is "flush ?q = _")
proof (cases "run_marks r = {m}")
  case True
  moreover from this have "run_marks ?q = {}" by auto
  ultimately show ?thesis using flush_single [of r m] flush_empty [of ?q] assms(1) by (simp add: pending_def)
next
  case False
  then have u: "run_marks r \<subseteq> url_marks" "run_marks ?q \<subseteq> url_marks" using assms(2) by auto
  then have "m \<in> url_marks" using assms(1) by (auto simp: dom_def)
  then show ?thesis using flush_url [OF u(1)] flush_url [OF u(2)] assms(1)
    by (elim insertE) (simp_all add: pending_def)
qed

lemma CALLBACK_recording:
  "r_marks r m = Some t \<Longrightarrow> exec_instr recording pos (CALLBACK m) r =
     Running (r\<lparr>r_user := (r_user r)\<lparr>rc_message := add_text m t (rc_message (r_user r))\<rparr>, r_marks := (r_marks r)(m := None)\<rparr>)"
  by (simp add: CALLBACK_NOCLEAR_def run_callback_def on_mark_recording)

lemma core_assign:
  assumes "same_core f" "core p = core q"
  shows "core (f p) = core (f q)"
  using assms unfolding same_core_def by metis

lemma sim_user:
  assumes "sim r r'" "run_marks r = {}"
  shows "r_user r = r_user r'" "sim (r\<lparr>r_user := s\<rparr>) (r'\<lparr>r_user := s\<rparr>)"
proof -
  have e: "run_marks r' = {}" using assms unfolding sim_def by blast
  then have "rc_message (r_user r) = rc_message (r_user r')"
    using assms(1) flush_empty [OF e] flush_empty [OF assms(2)] unfolding sim_def by simp
  then show "r_user r = r_user r'" using assms(1) by (simp add: sim_def)
  have "flush (r\<lparr>r_user := s\<rparr>) = rc_message s" "flush (r'\<lparr>r_user := s\<rparr>) = rc_message s"
    using flush_empty [of "r\<lparr>r_user := s\<rparr>"] flush_empty [of "r'\<lparr>r_user := s\<rparr>"] assms(2) e by simp_all
  then show "sim (r\<lparr>r_user := s\<rparr>) (r'\<lparr>r_user := s\<rparr>)" using assms(1) by (simp add: sim_def)
qed

lemma sim_instr:
  assumes "sim r r'" "legal (run_marks r) (i # is)" "uniform (i # is)" "exec_instr recording pos i r = Running q"
  shows "\<exists>q'. exec_instr recording pos' i r' = Running q' \<and> sim q q' \<and> legal (run_marks q) is \<and> uniform is"
proof (cases i)
  case (MARK m)
  let ?q = "r\<lparr>r_marks := (r_marks r)(m \<mapsto> [])\<rparr>" and ?q' = "r'\<lparr>r_marks := (r_marks r')(m \<mapsto> [])\<rparr>"
  have m: "m \<notin> run_marks r" "run_marks r = {} \<or> m \<in> url_marks \<and> run_marks r \<subseteq> url_marks"
    using assms(2) unfolding MARK legal.simps by blast+
  have eq: "run_marks r' = run_marks r" "flush r' = flush r" using assms(1) unfolding sim_def by simp_all
  have "flush ?q = flush ?q'"
    using flush_MARK [OF m] flush_MARK [of m r', unfolded eq, OF m] by simp
  then have "sim ?q ?q'" using assms(1) by (simp add: sim_def)
  then show ?thesis using assms MARK by auto
next
  case (CALLBACK m)
  then have m: "m \<in> run_marks r" "run_marks r = {m} \<or> run_marks r \<subseteq> url_marks"
    using assms(2) unfolding CALLBACK legal.simps by blast+
  have eq: "run_marks r' = run_marks r" "flush r' = flush r" using assms(1) unfolding sim_def by simp_all
  obtain t t' where t: "r_marks r m = Some t" "r_marks r' m = Some t'" using m(1) eq(1) by (metis domD)
  let ?q = "\<lambda>r t. r\<lparr>r_user := (r_user r)\<lparr>rc_message := add_text m t (rc_message (r_user r))\<rparr>, r_marks := (r_marks r)(m := None)\<rparr>"
  have "flush (?q r t) = flush (?q r' t')"
    using flush_CALLBACK [OF t(1) m(2)] flush_CALLBACK [OF t(2), unfolded eq, OF m(2)] by simp
  then have "sim (?q r t) (?q r' t')" using assms(1) by (simp add: sim_def)
  then show ?thesis using assms CALLBACK CALLBACK_recording [OF t(1), of pos] CALLBACK_recording [OF t(2), of pos'] by auto
next
  case (CALLBACK2 n)
  then have e: "run_marks r = {}" using assms(2) unfolding CALLBACK2 legal.simps by blast
  obtain s where s: "on_notify recording n (r_parser r) (r_user r) = Some (0, s)" by (cases n) (simp_all add: recording_def)
  moreover have "on_notify recording n (r_parser r') (r_user r') = on_notify recording n (r_parser r) (r_user r)"
    using sim_user(1) [OF assms(1) e] core_fields [of "r_parser r" "r_parser r'"] assms(1)
    by (cases n) (simp_all add: recording_def http_should_keep_alive_def sim_def)
  ultimately have "exec_instr recording pos i r = Running (r\<lparr>r_user := s\<rparr>)" "exec_instr recording pos' i r' = Running (r'\<lparr>r_user := s\<rparr>)"
    using CALLBACK2 by (simp_all add: run_callback_def)
  then have "q = r\<lparr>r_user := s\<rparr>" "exec_instr recording pos' i r' = Running (r'\<lparr>r_user := s\<rparr>)" using assms(4) by simp_all
  moreover have "legal (run_marks (r\<lparr>r_user := s\<rparr>)) is" using assms(2) unfolding e CALLBACK2 by (simp add: e)
  ultimately show ?thesis using sim_user(2) [OF assms(1) e, of s] assms(3) unfolding CALLBACK2 by simp
next
  case (BODY t)
  then have e: "run_marks r = {}" using assms(2) unfolding BODY legal.simps by blast
  have "on_body recording (r_parser r') t (r_user r') = on_body recording (r_parser r) t (r_user r)"
    using sim_user(1) [OF assms(1) e] by (simp add: recording_def)
  moreover obtain s where "on_body recording (r_parser r) t (r_user r) = Some (0, s)" by (simp add: recording_def)
  ultimately have "exec_instr recording pos i r = Running (r\<lparr>r_user := s\<rparr>)" "exec_instr recording pos' i r' = Running (r'\<lparr>r_user := s\<rparr>)"
    using BODY by simp_all
  then have "q = r\<lparr>r_user := s\<rparr>" "exec_instr recording pos' i r' = Running (r'\<lparr>r_user := s\<rparr>)" using assms(4) by simp_all
  moreover have "legal (run_marks (r\<lparr>r_user := s\<rparr>)) is" using assms(2) unfolding e BODY by (simp add: e)
  ultimately show ?thesis using sim_user(2) [OF assms(1) e, of s] assms(3) unfolding BODY by simp
next
  case (SET f)
  have "sim (r\<lparr>r_parser := f (r_parser r)\<rparr>) (r'\<lparr>r_parser := f (r_parser r')\<rparr>)"
    using assms(1,3) SET core_assign [of f "r_parser r" "r_parser r'"] by (simp add: sim_def flush_def)
  then show ?thesis using assms SET by auto
qed (use assms in \<open>clarsimp simp: sim_def flush_def\<close>)+

end
