(* ===== verification/Http_Pieces.thy ===== *)
theory Http_Pieces
  imports Http_Stream
begin

text \<open>
  Requests arrive in pieces: parsing the pieces one after the other collects the same messages as
  parsing all bytes at once.
\<close>

section \<open>Equivalent runs stay equivalent\<close>

lemma sim_instrs:
  "sim r r' \<Longrightarrow> legal (run_marks r) is \<Longrightarrow> uniform is \<Longrightarrow> exec_instrs recording pos is r = Running q \<Longrightarrow>
     \<exists>q'. exec_instrs recording pos' is r' = Running q' \<and> sim q q'"
proof (induction "is" arbitrary: r r')
  case (Cons i "is")
  then obtain q1 where q1: "exec_instr recording pos i r = Running q1" "exec_instrs recording pos is q1 = Running q"
    by (auto split: outcome.splits)
  from sim_instr [OF Cons.prems(1-3) q1(1), of pos'] obtain q1' where
    "exec_instr recording pos' i r' = Running q1'" "sim q1 q1'" "legal (run_marks q1) is" "uniform is" by blast
  with Cons.IH [of q1 q1'] q1(2) show ?case by auto
qed simp

lemma sim_advance:
  assumes "sim r r'" "run_ok r"
  shows "sim (advance_marks d r) (advance_marks d r')"
proof -
  have "mark_set (run_marks r)" using assms(2) mark_set_marks_of by (simp add: run_ok_def)
  moreover have eq: "run_marks r' = run_marks r" "flush r' = flush r" using assms(1) by (simp_all add: sim_def)
  ultimately have "flush (advance_marks d r) = flush (advance_marks d r')"
    using flush_advance [of r d] flush_advance [of r' d] by (simp only: eq)
  moreover have "run_regs (advance_marks d r) = run_regs r" "run_regs (advance_marks d r') = run_regs r'" by simp_all
  ultimately show ?thesis using assms(1) by (simp add: sim_def run_regs_def)
qed

lemma sim_count: "sim r r' \<Longrightarrow> sim (count_header r) (count_header r')"
  using core_fields [of "r_parser r" "r_parser r'"]
  by (auto simp: sim_def count_header_def flush_def PARSING_HEADER_def)

lemma sim_too_long: "sim r r' \<Longrightarrow> too_long r = too_long r'"
  using core_fields [of "r_parser r" "r_parser r'"] by (auto simp: sim_def too_long_def PARSING_HEADER_def)

lemma sim_run_step: "sim r r' \<Longrightarrow> run_step r ch cs = run_step r' ch cs"
proof -
  assume s: "sim r r'"
  have "run_step r ch cs = next_step (core (r_parser r)) (r_state r) (r_header_state r) (r_index r) ch cs"
    by (simp only: run_step_def next_step_core)
  also have "\<dots> = next_step (core (r_parser r')) (r_state r') (r_header_state r') (r_index r') ch cs"
    using s by (simp only: sim_def)
  also have "\<dots> = run_step r' ch cs" by (simp only: run_step_def next_step_core)
  finally show ?thesis .
qed

lemma sim_loop:
  "sim r r' \<Longrightarrow> run_ok r \<Longrightarrow> http_loop recording pos d r = Running q \<Longrightarrow>
     \<exists>q'. http_loop recording pos' d r' = Running q' \<and> sim q q'"
proof (induction d arbitrary: pos pos' r r' rule: length_induct)
  case (1 d)
  show ?case
  proof (cases d)
    case Nil
    then show ?thesis using 1 by simp
  next
    case (Cons ch cs)
    let ?r = "count_header r" and ?r' = "count_header r'"
    have s: "sim ?r ?r'" by (rule sim_count [OF "1.prems"(1)])
    obtain k "is" where st: "run_step ?r ch cs = (k, is)" by (cases "run_step ?r ch cs")
    have n: "\<not> too_long ?r" using "1.prems"(3) Cons by (auto simp: http_loop_Cons Let_def)
    then obtain r1 where r1: "exec_instrs recording (pos + k) is ?r = Running r1"
      "http_loop recording (pos + 1 + k) (drop k cs) (advance_marks (ch # take k cs) r1) = Running q"
      using "1.prems"(3) Cons st by (auto simp: http_loop_Cons Let_def split: outcome.splits)
    have ok: "run_ok ?r" by (rule run_ok_count [OF "1.prems"(2) n])
    then have "legal (run_marks ?r) is" "uniform is"
      using good_next uniform_next st unfolding run_step_def run_ok_def good_def by metis+
    from sim_instrs [OF s this r1(1), of "pos' + k"] obtain r1' where
      r1': "exec_instrs recording (pos' + k) is ?r' = Running r1'" "sim r1 r1'" by blast
    have ok1: "run_ok r1" by (rule run_ok_exec [OF ok st r1(1)])
    have "length (drop k cs) < length d" using Cons by simp
    with "1.IH" sim_advance [OF r1'(2) ok1] ok1 r1(2) obtain q' where
      "http_loop recording (pos' + 1 + k) (drop k cs) (advance_marks (ch # take k cs) r1') = Running q'" "sim q q'"
      unfolding run_ok_advance [symmetric, of r1 "ch # take k cs"] by blast
    moreover have "run_step ?r' ch cs = (k, is)" "\<not> too_long ?r'"
      using sim_run_step [OF s] sim_too_long [OF s] st n by simp_all
    ultimately show ?thesis using Cons r1'(1) by (simp add: http_loop_Cons Let_def)
  qed
qed

section \<open>Between two calls\<close>

lemma end_callbacks_recording:
  "end_callbacks recording pos ks r = Running (r\<lparr>r_user := (r_user r)\<lparr>rc_message :=
     foldl (\<lambda>m k. case r_marks r k of None \<Rightarrow> m | Some text \<Rightarrow> add_text k text m) (rc_message (r_user r)) ks\<rparr>\<rparr>)"
  by (induction ks arbitrary: r) (auto simp: CALLBACK_NOCLEAR_def run_callback_def on_mark_recording split: option.split)

lemma end_callbacks_all:
  "end_callbacks recording pos all_marks r = Running (r\<lparr>r_user := (r_user r)\<lparr>rc_message := flush r\<rparr>\<rparr>)"
  by (simp add: end_callbacks_recording flush_def)

lemma execute_recording:
  "data \<noteq> [] \<Longrightarrow> http_loop recording 0 data (start_run p s) = Running r \<Longrightarrow>
     http_parser_execute recording p data s = Some (length data, save_run r, (r_user r)\<lparr>rc_message := flush r\<rparr>)"
  by (simp add: http_parser_execute_def end_callbacks_all save_run_def)

lemma flush_restart:
  assumes "run_ok r" "u = (r_user r)\<lparr>rc_message := flush r\<rparr>"
  shows "flush (start_run (save_run r) u) = flush r"
proof -
  let ?q = "start_run (save_run r) u"
  have m: "run_marks ?q = marks_of (r_state r)" by (auto simp: start_run_def save_run_def marks_of_marked split: if_splits)
  have r: "run_marks r = marks_of (r_state r)" using assms(1) by (simp add: run_ok_def)
  have u: "rc_message (r_user ?q) = flush r" using assms(2) by (simp add: start_run_def)
  have p: "pending ?q k = []" for k by (simp add: pending_def start_run_def)
  consider "run_marks ?q = {}" | k where "run_marks ?q = {k}" | "run_marks ?q \<subseteq> url_marks"
    using mark_set_marks_of [of "r_state r"] by (auto simp: mark_set_def m)
  then show ?thesis
  proof cases
    case 1
    then show ?thesis using flush_empty u by simp
  next
    case (2 k)
    then show ?thesis using flush_single [OF 2] flush_single [of r k] u p m r by (simp add: add_text_Nil_again)
  next
    case 3
    then show ?thesis using flush_url [OF 3] u p by simp
  qed
qed

lemma sim_restart:
  assumes "run_ok r" "u = (r_user r)\<lparr>rc_message := flush r\<rparr>"
  shows "sim r (start_run (save_run r) u)"
proof -
  have "r_index r \<le> 20" "r_nread r \<le> HTTP_MAX_HEADER_SIZE" using assms(1) by (simp_all add: run_ok_def run_regs_def)
  then have "r_index r mod 2 ^ 8 = r_index r" "r_nread r mod 2 ^ 32 = r_nread r" by (simp_all add: HTTP_MAX_HEADER_SIZE_def)
  moreover have "run_marks (start_run (save_run r) u) = run_marks r"
    using assms(1) by (auto simp: run_ok_def start_run_def save_run_def marks_of_marked split: if_splits)
  ultimately show ?thesis using flush_restart [OF assms] assms(2) by (simp add: sim_def start_run_def save_run_def core_def)
qed

text \<open>The parsers a call may start with: those the calls before left.\<close>

definition parser_ok :: "http_parser \<Rightarrow> bool" where
  "parser_ok p \<longleftrightarrow> regs_ok (p, p_state p, p_header_state p, p_index p, p_nread p)"

lemma run_ok_start: "parser_ok p \<Longrightarrow> run_ok (start_run p s)"
  by (auto simp: parser_ok_def run_ok_def run_regs_def start_run_def marks_of_marked split: if_splits)

lemma parser_ok_save: "run_ok r \<Longrightarrow> parser_ok (save_run r)"
proof -
  assume "run_ok r"
  then have ok: "regs_ok (r_parser r, r_state r, r_header_state r, r_index r, r_nread r)" by (simp add: run_ok_def run_regs_def)
  then have "r_index r mod 2 ^ 8 = r_index r" "r_nread r mod 2 ^ 32 = r_nread r" by (simp_all add: HTTP_MAX_HEADER_SIZE_def)
  then show ?thesis using ok by (simp add: parser_ok_def save_run_def)
qed

lemma parser_ok_init: "parser_ok (http_parser_init t)"
  by (cases t) (simp_all add: parser_ok_def http_parser_init_def HTTP_MAX_HEADER_SIZE_def chunk_state_def body_state_def)

lemma save_run_sim: "sim r r' \<Longrightarrow> save_run r = save_run r'"
proof -
  assume s: "sim r r'"
  then have "core (r_parser r) = core (r_parser r')" by (simp add: sim_def)
  from core_fields [OF this] s show ?thesis by (simp add: sim_def save_run_def)
qed

section \<open>Cutting the input\<close>

lemma run_step_local:
  "r_state r \<notin> {s_body_identity, s_body_identity_eof, s_chunk_data} \<Longrightarrow>
     run_step r ch cs = (0, parser_step (r_parser r) (r_state r) (r_header_state r) (r_index r) ch)"
  by (simp add: run_step_def next_step_def Let_def)

text \<open>The states that read a body: reading it in two pieces is the same as in one.\<close>

definition add_body :: "string \<Rightarrow> recorder run \<Rightarrow> recorder run" where
  "add_body t r = r\<lparr>r_user := (r_user r)\<lparr>rc_message := (rc_message (r_user r))\<lparr>m_body := m_body (rc_message (r_user r)) @ t\<rparr>\<rparr>\<rparr>"

definition eat :: "string \<Rightarrow> recorder run \<Rightarrow> recorder run" where
  "eat t r = (add_body t r)\<lparr>r_parser := (r_parser r)\<lparr>p_content_length := p_content_length (r_parser r) - int (length t)\<rparr>\<rparr>"

definition done_message :: "recorder run \<Rightarrow> recorder run" where
  "done_message r = r\<lparr>r_user := snd (the (on_message_complete recording (r_parser r) (r_user r))), r_state := NEW_MESSAGE (r_parser r)\<rparr>"

lemma eat_simps [simp]:
  "r_state (eat t r) = r_state r" "run_marks (eat t r) = run_marks r" "p_chunked (r_parser (eat t r)) = p_chunked (r_parser r)"
  "p_content_length (r_parser (eat t r)) = p_content_length (r_parser r) - int (length t)"
  "r_state (add_body t r) = r_state r" "run_marks (add_body t r) = run_marks r"
  by (simp_all add: eat_def add_body_def)

lemma eat_eat: "eat b (eat a r) = eat (a @ b) r" "add_body b (add_body a r) = add_body (a @ b) r"
  by (simp_all add: eat_def add_body_def)

lemma advance_none: "run_marks r = {} \<Longrightarrow> advance_marks d r = r"
  by (simp add: advance_marks_def)

lemma count_body: "body_state (r_state r) \<Longrightarrow> count_header r = r" "body_state (r_state r) \<Longrightarrow> \<not> too_long r"
  by (simp_all add: count_header_def too_long_def PARSING_HEADER_def)

lemma exec_body: "exec_instrs recording pos (BODY t # is) r = exec_instrs recording pos is (add_body t r)"
  by (simp add: recording_def add_body_def)

lemma loop_body_step:
  assumes "body_state (r_state r)" "run_step r ch cs = (k, is)" "exec_instrs recording (pos + k) is r = Running r1" "run_marks r1 = {}"
  shows "http_loop recording pos (ch # cs) r = http_loop recording (pos + 1 + k) (drop k cs) r1"
  using assms(2-4) count_body [OF assms(1)] by (simp add: http_loop_Cons advance_none)

lemma loop_identity:
  assumes "r_state r = s_body_identity" "run_marks r = {}" "0 < p_content_length (r_parser r)" "d \<noteq> []"
  shows "http_loop recording pos d r =
    (if p_content_length (r_parser r) \<le> int (length d)
     then let n = nat (p_content_length (r_parser r)) in http_loop recording (pos + n) (drop n d) (done_message (eat (take n d) r))
     else Running (eat d r))"
proof -
  obtain ch cs where d: "d = ch # cs" using assms(4) by (cases d) auto
  let ?cl = "p_content_length (r_parser r)"
  have b: "body_state (r_state r)" using assms(1) by (simp add: body_state_def)
  have m: "run_marks (done_message (eat t r)) = {}" for t using assms(2) by (simp add: done_message_def eat_def add_body_def)
  show ?thesis
  proof (cases "?cl \<le> int (length d)")
    case True
    then have "run_step r ch cs = (nat ?cl - 1, [BODY (take (nat ?cl) d), SET (\<lambda>p. p\<lparr>p_content_length := p_content_length p - ?cl\<rparr>),
        CALLBACK2 message_complete, GOTO (NEW_MESSAGE (r_parser r))])"
      using assms(1,3) d by (simp add: run_step_def next_step_def body_read_def Let_def finish_message_def min_def)
    moreover have "exec_instrs recording (pos + (nat ?cl - 1)) [BODY (take (nat ?cl) d), SET (\<lambda>p. p\<lparr>p_content_length := p_content_length p - ?cl\<rparr>),
        CALLBACK2 message_complete, GOTO (NEW_MESSAGE (r_parser r))] r = Running (done_message (eat (take (nat ?cl) d) r))"
      using True assms(3) unfolding exec_body
      by (simp add: recording_def done_message_def eat_def add_body_def run_callback_def NEW_MESSAGE_def start_state_def
          http_should_keep_alive_def min_def)
    ultimately have "http_loop recording pos d r =
        http_loop recording (pos + 1 + (nat ?cl - 1)) (drop (nat ?cl - 1) cs) (done_message (eat (take (nat ?cl) d) r))"
      unfolding d by (rule loop_body_step [OF b _ _ m])
    moreover have "drop (nat ?cl - 1) cs = drop (nat ?cl) d" using assms(3) d by (cases "nat ?cl") simp_all
    moreover have "pos + 1 + (nat ?cl - 1) = pos + nat ?cl" using assms(3) by simp
    ultimately show ?thesis using True by (simp only: Let_def if_True)
  next
    case False
    then have "run_step r ch cs = (length d - 1, [BODY d, SET (\<lambda>p. p\<lparr>p_content_length := p_content_length p - int (length d)\<rparr>)])"
      using assms(1,3) d by (simp add: run_step_def next_step_def body_read_def Let_def finish_message_def min_def)
    moreover have "exec_instrs recording (pos + (length d - 1)) [BODY d, SET (\<lambda>p. p\<lparr>p_content_length := p_content_length p - int (length d)\<rparr>)] r =
        Running (eat d r)"
      unfolding exec_body by (simp add: eat_def add_body_def)
    ultimately have "http_loop recording pos d r = http_loop recording (pos + 1 + (length d - 1)) (drop (length d - 1) cs) (eat d r)"
      unfolding d by (rule loop_body_step [OF b]) (simp add: assms(2))
    then show ?thesis using False d by simp
  qed
qed

lemma loop_chunk:
  assumes "r_state r = s_chunk_data" "run_marks r = {}" "p_chunked (r_parser r)" "0 < p_content_length (r_parser r)" "d \<noteq> []"
  shows "http_loop recording pos d r =
    (if p_content_length (r_parser r) \<le> int (length d)
     then let n = nat (p_content_length (r_parser r)) in
       http_loop recording (pos + n) (drop n d) ((eat (take n d) r)\<lparr>r_state := s_chunk_data_almost_done\<rparr>)
     else Running (eat d r))"
proof -
  obtain ch cs where d: "d = ch # cs" using assms(5) by (cases d) auto
  let ?cl = "p_content_length (r_parser r)"
  have b: "body_state (r_state r)" using assms(1) by (simp add: body_state_def)
  show ?thesis
  proof (cases "?cl \<le> int (length d)")
    case True
    then have "run_step r ch cs = (nat ?cl - 1, [BODY (take (nat ?cl) d), GOTO s_chunk_data_almost_done,
        SET (\<lambda>p. p\<lparr>p_content_length := p_content_length p - ?cl\<rparr>)])"
      using assms(1,3,4) d by (simp add: run_step_def next_step_def body_read_def Let_def min_def)
    moreover have "exec_instrs recording (pos + (nat ?cl - 1)) [BODY (take (nat ?cl) d), GOTO s_chunk_data_almost_done,
        SET (\<lambda>p. p\<lparr>p_content_length := p_content_length p - ?cl\<rparr>)] r =
        Running ((eat (take (nat ?cl) d) r)\<lparr>r_state := s_chunk_data_almost_done\<rparr>)"
      using True assms(4) unfolding exec_body by (simp add: eat_def add_body_def min_def)
    ultimately have "http_loop recording pos d r =
        http_loop recording (pos + 1 + (nat ?cl - 1)) (drop (nat ?cl - 1) cs) ((eat (take (nat ?cl) d) r)\<lparr>r_state := s_chunk_data_almost_done\<rparr>)"
      unfolding d by (rule loop_body_step [OF b]) (simp add: eat_def add_body_def assms(2))
    moreover have "drop (nat ?cl - 1) cs = drop (nat ?cl) d" using assms(4) d by (cases "nat ?cl") simp_all
    moreover have "pos + 1 + (nat ?cl - 1) = pos + nat ?cl" using assms(4) by simp
    ultimately show ?thesis using True by (simp only: Let_def if_True)
  next
    case False
    then have "run_step r ch cs = (length d - 1, [BODY d, SET (\<lambda>p. p\<lparr>p_content_length := p_content_length p - int (length d)\<rparr>)])"
      using assms(1,3,4) d by (simp add: run_step_def next_step_def body_read_def Let_def min_def)
    moreover have "exec_instrs recording (pos + (length d - 1)) [BODY d, SET (\<lambda>p. p\<lparr>p_content_length := p_content_length p - int (length d)\<rparr>)] r =
        Running (eat d r)"
      unfolding exec_body by (simp add: eat_def add_body_def)
    ultimately have "http_loop recording pos d r = http_loop recording (pos + 1 + (length d - 1)) (drop (length d - 1) cs) (eat d r)"
      unfolding d by (rule loop_body_step [OF b]) (simp add: assms(2))
    then show ?thesis using False d by simp
  qed
qed

lemma loop_eof:
  assumes "r_state r = s_body_identity_eof" "run_marks r = {}" "d \<noteq> []"
  shows "http_loop recording pos d r = Running (add_body d r)"
proof -
  obtain ch cs where d: "d = ch # cs" using assms(3) by (cases d) auto
  have b: "body_state (r_state r)" using assms(1) by (simp add: body_state_def)
  have "run_step r ch cs = (length d - 1, [BODY d])"
    using assms(1) d by (simp add: run_step_def next_step_def body_read_def Let_def)
  moreover have "exec_instrs recording (pos + (length d - 1)) [BODY d] r = Running (add_body d r)"
    unfolding exec_body by simp
  ultimately have "http_loop recording pos d r = http_loop recording (pos + 1 + (length d - 1)) (drop (length d - 1) cs) (add_body d r)"
    unfolding d by (rule loop_body_step [OF b]) (simp add: assms(2))
  then show ?thesis using d by simp
qed

definition cut_at :: "nat \<Rightarrow> string \<Rightarrow> string \<Rightarrow> recorder run \<Rightarrow> bool" where
  "cut_at pos a b r \<longleftrightarrow> http_loop recording pos (a @ b) r =
     (case http_loop recording pos a r of Running r1 \<Rightarrow> http_loop recording (pos + length a) b r1 | res \<Rightarrow> res)"

lemma cut_step:
  assumes "run_step (count_header r) ch (cs @ b) = (k, is)" "run_step (count_header r) ch cs = (k, is)" "k \<le> length cs"
    and "\<And>r1. exec_instrs recording (pos + k) is (count_header r) = Running r1 \<Longrightarrow>
      cut_at (pos + 1 + k) (drop k cs) b (advance_marks (ch # take k cs) r1)"
  shows "cut_at pos (ch # cs) b r"
proof (cases "too_long (count_header r)")
  case False
  have "pos + 1 + k + length (drop k cs) = pos + length (ch # cs)" using assms(3) by simp
  moreover have "drop k (cs @ b) = drop k cs @ b" "take k (cs @ b) = take k cs" using assms(3) by simp_all
  ultimately show ?thesis
    using False assms(1,2,4) by (cases "exec_instrs recording (pos + k) is (count_header r)") (auto simp: cut_at_def http_loop_Cons Let_def cong: outcome.case_cong)
qed (simp add: cut_at_def http_loop_Cons Let_def)

lemma cut_identity:
  assumes "r_state r = s_body_identity" "run_marks r = {}" "a \<noteq> []"
    and "\<And>n r1. 0 < n \<Longrightarrow> n \<le> length a \<Longrightarrow> r1 = done_message (eat (take n a) r) \<or> n = 1 \<and> r1 = r \<Longrightarrow> cut_at (pos + n) (drop n a) b r1"
  shows "cut_at pos a b r"
proof -
  let ?cl = "p_content_length (r_parser r)"
  obtain ch cs where a: "a = ch # cs" using assms(3) by (cases a) auto
  consider "?cl \<le> 0" | "0 < ?cl" "?cl \<le> int (length a)" | "0 < ?cl" "int (length a) < ?cl" by linarith
  then show ?thesis
  proof cases
    case 1
    have b: "body_state (r_state r)" using assms(1) by (simp add: body_state_def)
    have "run_step r ch x = (0, [])" for x using 1 assms(1) by (simp add: run_step_def next_step_def body_read_def Let_def)
    then have "http_loop recording pos (ch # x) r = http_loop recording (pos + 1 + 0) (drop 0 x) r" for x
      by (rule loop_body_step [OF b]) (simp_all add: assms(2))
    then show ?thesis using assms(4) [of 1 r] a by (simp add: cut_at_def cong: outcome.case_cong)
  next
    case 2
    let ?n = "nat ?cl"
    have n: "?n \<le> length a" "0 < ?n" using 2 by simp_all
    then have "drop ?n (a @ b) = drop ?n a @ b" "take ?n (a @ b) = take ?n a" by simp_all
    moreover have "pos + ?n + length (drop ?n a) = pos + length a" using n by simp
    moreover have "cut_at (pos + ?n) (drop ?n a) b (done_message (eat (take ?n a) r))" using assms(4) n by blast
    ultimately show ?thesis
      using loop_identity [OF assms(1,2) 2(1) assms(3), of pos] loop_identity [OF assms(1,2) 2(1), of "a @ b" pos] 2(2) assms(3)
      by (simp add: cut_at_def Let_def cong: outcome.case_cong)
  next
    case 3
    show ?thesis
    proof (cases "b = []")
      case False
      have e: "r_state (eat a r) = s_body_identity" "run_marks (eat a r) = {}" "0 < p_content_length (r_parser (eat a r))"
        using assms(1,2) 3 by simp_all
      have "nat (?cl - int (length a)) + length a = nat ?cl" using 3 by simp
      then have "take (nat ?cl) (a @ b) = a @ take (nat (?cl - int (length a))) b" "drop (nat ?cl) (a @ b) = drop (nat (?cl - int (length a))) b"
        "pos + length a + nat (?cl - int (length a)) = pos + nat ?cl" using 3 by (simp_all add: nat_diff_distrib)
      then show ?thesis
        using loop_identity [OF assms(1,2) 3(1) assms(3), of pos] loop_identity [OF assms(1,2) 3(1), of "a @ b" pos]
          loop_identity [OF e False, of "pos + length a"] 3(2) assms(3)
        by (simp add: cut_at_def Let_def eat_eat add.assoc cong: outcome.case_cong)
    qed (simp add: cut_at_def split: outcome.split)
  qed
qed

lemma cut_chunk:
  assumes "r_state r = s_chunk_data" "run_marks r = {}" "p_chunked (r_parser r)" "a \<noteq> []"
    and "\<And>n t. 0 < n \<Longrightarrow> n \<le> length a \<Longrightarrow> cut_at (pos + n) (drop n a) b ((eat t r)\<lparr>r_state := s_chunk_data_almost_done\<rparr>)"
    and "\<And>r1. r1 = r\<lparr>r_state := s_chunk_data_almost_done, r_parser := (r_parser r)\<lparr>p_content_length := 0\<rparr>\<rparr> \<Longrightarrow>
      cut_at (pos + 1) (tl a) b r1"
  shows "cut_at pos a b r"
proof -
  let ?cl = "p_content_length (r_parser r)"
  obtain ch cs where a: "a = ch # cs" using assms(4) by (cases a) auto
  consider "?cl \<le> 0" | "0 < ?cl" "?cl \<le> int (length a)" | "0 < ?cl" "int (length a) < ?cl" by linarith
  then show ?thesis
  proof cases
    case 1
    have b: "body_state (r_state r)" using assms(1) by (simp add: body_state_def)
    let ?r = "r\<lparr>r_state := s_chunk_data_almost_done, r_parser := (r_parser r)\<lparr>p_content_length := 0\<rparr>\<rparr>"
    have "run_step r ch x = (0, [GOTO s_chunk_data_almost_done, SET (\<lambda>p. p\<lparr>p_content_length := p_content_length p - ?cl\<rparr>)])" for x
      using 1 assms(1,3) by (simp add: run_step_def next_step_def body_read_def Let_def min_def)
    then have "http_loop recording pos (ch # x) r = http_loop recording (pos + 1 + 0) (drop 0 x) ?r" for x
      by (rule loop_body_step [OF b]) (simp_all add: assms(2))
    then show ?thesis using assms(6) [of ?r] a by (simp add: cut_at_def cong: outcome.case_cong)
  next
    case 2
    let ?n = "nat ?cl"
    have n: "?n \<le> length a" "0 < ?n" using 2 by simp_all
    then have "drop ?n (a @ b) = drop ?n a @ b" "take ?n (a @ b) = take ?n a" by simp_all
    moreover have "pos + ?n + length (drop ?n a) = pos + length a" using n by simp
    moreover have "cut_at (pos + ?n) (drop ?n a) b ((eat (take ?n a) r)\<lparr>r_state := s_chunk_data_almost_done\<rparr>)" using assms(5) n by blast
    ultimately show ?thesis
      using loop_chunk [OF assms(1-3) 2(1) assms(4), of pos] loop_chunk [OF assms(1-3) 2(1), of "a @ b" pos] 2(2) assms(4)
      by (simp add: cut_at_def Let_def cong: outcome.case_cong)
  next
    case 3
    show ?thesis
    proof (cases "b = []")
      case False
      have e: "r_state (eat a r) = s_chunk_data" "run_marks (eat a r) = {}" "p_chunked (r_parser (eat a r))"
        "0 < p_content_length (r_parser (eat a r))"
        using assms(1-3) 3 by simp_all
      have "nat (?cl - int (length a)) + length a = nat ?cl" using 3 by simp
      then have "take (nat ?cl) (a @ b) = a @ take (nat (?cl - int (length a))) b" "drop (nat ?cl) (a @ b) = drop (nat (?cl - int (length a))) b"
        "pos + length a + nat (?cl - int (length a)) = pos + nat ?cl" using 3 by (simp_all add: nat_diff_distrib)
      then show ?thesis
        using loop_chunk [OF assms(1-3) 3(1) assms(4), of pos] loop_chunk [OF assms(1-3) 3(1), of "a @ b" pos]
          loop_chunk [OF e False, of "pos + length a"] 3(2) assms(4)
        by (simp add: cut_at_def Let_def eat_eat add.assoc cong: outcome.case_cong)
    qed (simp add: cut_at_def split: outcome.split)
  qed
qed

lemma cut_eof:
  assumes "r_state r = s_body_identity_eof" "run_marks r = {}" "a \<noteq> []"
  shows "cut_at pos a b r"
proof (cases "b = []")
  case False
  have "r_state (add_body a r) = s_body_identity_eof" "run_marks (add_body a r) = {}" using assms by simp_all
  from loop_eof [OF this False] loop_eof [OF assms] loop_eof [OF assms(1,2), of "a @ b"] assms(3)
  show ?thesis by (simp add: cut_at_def eat_eat)
qed (simp add: cut_at_def split: outcome.split)

text \<open>A state that reads no header and no chunk asks nothing of the registers but the bounds.\<close>

lemma run_ok_body:
  assumes "run_ok r" "body_state (r_state r)"
  shows "run_ok (done_message (eat t r))"
    and "p_chunked (r_parser r) \<Longrightarrow> run_ok ((eat t r)\<lparr>r_state := s_chunk_data_almost_done\<rparr>)"
    and "p_chunked (r_parser r) \<Longrightarrow> run_ok (r\<lparr>r_state := s_chunk_data_almost_done, r_parser := (r_parser r)\<lparr>p_content_length := i\<rparr>\<rparr>)"
proof -
  have m: "run_marks r = {}" using assms unfolding run_ok_def body_state_def marks_of_def url_state_def by auto
  have b: "r_index r \<le> 20" "r_nread r \<le> HTTP_MAX_HEADER_SIZE" using assms(1) by (simp_all add: run_ok_def run_regs_def)
  have n: "NEW_MESSAGE p \<in> {s_start_req, s_start_res, s_dead}" for p by (simp add: NEW_MESSAGE_def start_state_def)
  have "marks_of st = {} \<and> \<not> chunk_state st \<and> st \<noteq> s_header_field \<and> st \<noteq> s_header_value" if "st \<in> {s_start_req, s_start_res, s_dead}" for st
    using that by (auto simp: marks_of_def url_state_def chunk_state_def body_state_def)
  from this [OF n] show "run_ok (done_message (eat t r))"
    using m b by (simp add: run_ok_def run_regs_def done_message_def eat_def add_body_def)
  have c: "marks_of s_chunk_data_almost_done = {}" by (simp add: marks_of_def url_state_def)
  show "p_chunked (r_parser r) \<Longrightarrow> run_ok ((eat t r)\<lparr>r_state := s_chunk_data_almost_done\<rparr>)"
    using m b c by (simp add: run_ok_def run_regs_def eat_def add_body_def)
  show "p_chunked (r_parser r) \<Longrightarrow> run_ok (r\<lparr>r_state := s_chunk_data_almost_done, r_parser := (r_parser r)\<lparr>p_content_length := i\<rparr>\<rparr>)"
    using m b c by (simp add: run_ok_def run_regs_def)
qed

lemma cut_all: "run_ok r \<Longrightarrow> cut_at pos a b r"
proof (induction a arbitrary: pos r rule: length_induct)
  case (1 a)
  have IH: "cut_at pos a' b r" if "length a' < length a" "run_ok r" for a' pos r using "1.IH" that by blast
  have m: "run_marks r = marks_of (r_state r)" using "1.prems" by (simp add: run_ok_def)
  show ?case
  proof (cases a)
    case Nil
    then show ?thesis by (simp add: cut_at_def)
  next
    case (Cons ch cs)
    then have a: "a \<noteq> []" by simp
    consider "r_state r = s_body_identity" | "r_state r = s_body_identity_eof" | "r_state r = s_chunk_data"
      | "r_state r \<notin> {s_body_identity, s_body_identity_eof, s_chunk_data}" by blast
    then show ?thesis
    proof cases
      case 1
      then have e: "run_marks r = {}" "body_state (r_state r)" using m by (simp_all add: marks_of_def url_state_def body_state_def)
      show ?thesis
      proof (rule cut_identity [OF 1 e(1) a])
        fix n r1
        assume n: "0 < n" "n \<le> length a" and "r1 = done_message (eat (take n a) r) \<or> n = 1 \<and> r1 = r"
        then have "run_ok r1" using run_ok_body(1) [OF "1.prems" e(2)] "1.prems" by blast
        then show "cut_at (pos + n) (drop n a) b r1" using n a by (intro IH) simp_all
      qed
    next
      case 2
      then have "run_marks r = {}" using m by (simp add: marks_of_def url_state_def)
      then show ?thesis by (rule cut_eof [OF 2 _ a])
    next
      case 3
      then have e: "run_marks r = {}" "body_state (r_state r)" using m by (simp_all add: marks_of_def url_state_def body_state_def)
      have c: "p_chunked (r_parser r)" using "1.prems" 3 by (simp add: run_ok_def run_regs_def chunk_state_def body_state_def)
      show ?thesis
        by (rule cut_chunk [OF 3 e(1) c a]; rule IH)
          (use a run_ok_body(2,3) [OF "1.prems" e(2) c] in simp_all)
    next
      case 4
      then have s: "run_step (count_header r) ch x = (0, parser_step (r_parser r) (r_state r) (r_header_state r) (r_index r) ch)" for x
        by (simp add: run_step_local)
      show ?thesis unfolding Cons
      proof (cases "too_long (count_header r)")
        case False
        show "cut_at pos (ch # cs) b r"
        proof (rule cut_step [OF s s])
          fix r1
          assume "exec_instrs recording (pos + 0) (parser_step (r_parser r) (r_state r) (r_header_state r) (r_index r) ch) (count_header r) = Running r1"
          from run_ok_exec [OF run_ok_count [OF "1.prems" False] s this]
          show "cut_at (pos + 1 + 0) (drop 0 cs) b (advance_marks (ch # take 0 cs) r1)"
            using Cons by (intro IH) (simp_all add: run_ok_advance)
        qed simp
      qed (simp add: cut_at_def http_loop_Cons Let_def)
    qed
  qed
qed

section \<open>Calls\<close>

text \<open>Callbacks that never stop the parser.\<close>

definition quiet :: "'s http_parser_settings \<Rightarrow> bool" where
  "quiet cb \<longleftrightarrow> (\<forall>m p t s. \<exists>s'. on_mark cb m p t s = Some (0, s')) \<and> (\<forall>n p s. \<exists>s'. on_notify cb n p s = Some (0, s')) \<and>
     (\<forall>p t s. \<exists>ret s'. on_body cb p t s = Some (ret, s'))"

lemma quiet_recording: "quiet recording"
  unfolding quiet_def
proof (intro conjI allI)
  show "\<exists>s'. on_notify recording n p s = Some (0, s')" for n p s by (cases n) (simp_all add: recording_def)
qed (simp_all add: on_mark_recording, simp add: recording_def)

lemma next_step_length: "next_step p st hs i ch cs = (k, is) \<Longrightarrow> k \<le> length cs"
  by (auto simp: next_step_def body_read_def Let_def min_def split: if_splits)

lemma exec_instr_pos: "exec_instr cb pos i r = Returned n r' \<or> exec_instr cb pos i r = Failed n r' \<Longrightarrow> n = pos"
  by (cases i) (auto simp: CALLBACK_NOCLEAR_def run_callback_def split: option.splits if_splits outcome.splits prod.splits)

lemma exec_instrs_pos: "exec_instrs cb pos is r = Returned n r' \<or> exec_instrs cb pos is r = Failed n r' \<Longrightarrow> n = pos"
proof (induction "is" arbitrary: r)
  case (Cons i "is")
  then show ?case using exec_instr_pos [of cb pos i r n r'] by (cases "exec_instr cb pos i r") auto
qed simp

lemma loop_pos: "http_loop cb pos d r = Returned n r' \<or> http_loop cb pos d r = Failed n r' \<Longrightarrow> n < pos + length d"
proof (induction d arbitrary: pos r rule: length_induct)
  case (1 d)
  show ?case
  proof (cases d)
    case (Cons ch cs)
    obtain k "is" where st: "run_step (count_header r) ch cs = (k, is)" by (cases "run_step (count_header r) ch cs")
    then have k: "k \<le> length cs" unfolding run_step_def by (rule next_step_length)
    show ?thesis
    proof (cases "exec_instrs cb (pos + k) is (count_header r)")
      case (Running r1)
      let ?l = "http_loop cb (pos + 1 + k) (drop k cs) (advance_marks (ch # take k cs) r1)"
      have "length (drop k cs) < length d" using Cons by simp
      then have "?l = Returned n r' \<or> ?l = Failed n r' \<Longrightarrow> n < pos + 1 + k + length (drop k cs)" using "1.IH" by blast
      moreover have "n = pos \<or> ?l = Returned n r' \<or> ?l = Failed n r'"
        using "1.prems" Running Cons st by (simp add: http_loop_Cons Let_def split: if_splits)
      ultimately have "n < pos + 1 + k + length (drop k cs) \<or> n = pos" by blast
      then show ?thesis using k Cons by auto
    qed (use "1.prems" Cons st k exec_instrs_pos [of cb "pos + k" "is" "count_header r" n r'] in
        \<open>auto simp: http_loop_Cons Let_def split: if_splits\<close>)
  qed (use 1 in simp)
qed

lemma end_callbacks_quiet: "quiet cb \<Longrightarrow> \<exists>u. end_callbacks cb pos ks r = Running (r\<lparr>r_user := u\<rparr>)"
proof (induction ks arbitrary: r)
  case Nil
  then show ?case by (intro exI [of _ "r_user r"]) simp
next
  case (Cons k ks)
  have "\<exists>u. CALLBACK_NOCLEAR cb pos k r = Running (r\<lparr>r_user := u\<rparr>)"
  proof (cases "r_marks r k")
    case None
    then show ?thesis by (intro exI [of _ "r_user r"]) (simp add: CALLBACK_NOCLEAR_def)
  next
    case (Some t)
    moreover obtain s' where "on_mark cb k (r_parser r) t (r_user r) = Some (0, s')" using Cons.prems unfolding quiet_def by blast
    ultimately show ?thesis by (intro exI [of _ s']) (simp add: CALLBACK_NOCLEAR_def run_callback_def)
  qed
  then obtain u where "CALLBACK_NOCLEAR cb pos k r = Running (r\<lparr>r_user := u\<rparr>)" by blast
  with Cons.IH [OF Cons.prems, of "r\<lparr>r_user := u\<rparr>"] show ?case by auto
qed

text \<open>A call that reads all of its input has run through the loop and has saved its state.\<close>

lemma execute_whole:
  assumes "quiet cb" "data \<noteq> []" "http_parser_execute cb p data s = Some (length data, p', s')"
  shows "\<exists>r. http_loop cb 0 data (start_run p s) = Running r \<and> p' = save_run r"
proof (cases "http_loop cb 0 data (start_run p s)")
  case (Running r)
  moreover obtain u where "end_callbacks cb (length data) all_marks r = Running (r\<lparr>r_user := u\<rparr>)"
    using end_callbacks_quiet [OF assms(1)] by blast
  ultimately show ?thesis using assms(2,3) by (auto simp: http_parser_execute_def save_run_def)
qed (use assms(2,3) loop_pos [of cb 0 data "start_run p s"] in \<open>auto simp: http_parser_execute_def\<close>)

lemma execute_cut:
  assumes "parser_ok p" "a \<noteq> []" "b \<noteq> []" "http_parser_execute recording p (a @ b) s = Some (length (a @ b), p', s')"
  shows "\<exists>p1 s1. http_parser_execute recording p a s = Some (length a, p1, s1) \<and> parser_ok p1 \<and>
    http_parser_execute recording p1 b s1 = Some (length b, p', s')"
proof -
  obtain q where q: "http_loop recording 0 (a @ b) (start_run p s) = Running q"
    using execute_whole [OF quiet_recording _ assms(4)] assms(2) by auto
  have ok: "run_ok (start_run p s)" by (rule run_ok_start [OF assms(1)])
  from cut_all [OF ok, of 0 a b] q obtain r where
    r: "http_loop recording 0 a (start_run p s) = Running r" "http_loop recording (0 + length a) b r = Running q"
    by (auto simp: cut_at_def split: outcome.splits)
  have okr: "run_ok r" by (rule run_ok_loop [OF ok r(1)])
  define u where "u = (r_user r)\<lparr>rc_message := flush r\<rparr>"
  have s: "sim r (start_run (save_run r) u)" by (rule sim_restart [OF okr u_def])
  from sim_loop [OF s okr r(2), of 0] obtain q' where
    q': "http_loop recording 0 b (start_run (save_run r) u) = Running q'" "sim q q'" by blast
  have "http_parser_execute recording p a s = Some (length a, save_run r, u)"
    using execute_recording [OF assms(2) r(1)] by (simp add: u_def)
  moreover have "http_parser_execute recording (save_run r) b u = Some (length b, save_run q', (r_user q')\<lparr>rc_message := flush q'\<rparr>)"
    by (rule execute_recording [OF assms(3) q'(1)])
  moreover have "save_run q' = p'" "(r_user q')\<lparr>rc_message := flush q'\<rparr> = s'"
    using execute_recording [of "a @ b", OF _ q] assms(2,4) save_run_sim [OF q'(2)] q'(2) by (simp_all add: sim_def)
  ultimately show ?thesis using parser_ok_save [OF okr] by blast
qed

text \<open>One call after the other, as long as each reads all of its piece.\<close>

fun http_feed :: "'s http_parser_settings \<Rightarrow> http_parser \<Rightarrow> string list \<Rightarrow> 's \<Rightarrow> (http_parser \<times> 's) option" where
  "http_feed cb p [] s = Some (p, s)"
| "http_feed cb p (d # ds) s =
     (case http_parser_execute cb p d s of
        Some (n, p, s) \<Rightarrow> if n = length d then http_feed cb p ds s else None
      | None \<Rightarrow> None)"

lemma feed_pieces:
  "parser_ok p \<Longrightarrow> ds \<noteq> [] \<Longrightarrow> [] \<notin> set ds \<Longrightarrow>
     http_parser_execute recording p (concat ds) s = Some (length (concat ds), p', s') \<Longrightarrow> http_feed recording p ds s = Some (p', s')"
proof (induction ds arbitrary: p s)
  case (Cons d ds)
  show ?case
  proof (cases "ds = []")
    case False
    then obtain p1 s1 where 1: "http_parser_execute recording p d s = Some (length d, p1, s1)" "parser_ok p1"
      "http_parser_execute recording p1 (concat ds) s1 = Some (length (concat ds), p', s')"
      using execute_cut [OF Cons.prems(1), of d "concat ds" s p' s'] Cons.prems(3,4) by (cases ds) auto
    then show ?thesis using Cons.IH [OF 1(2) False _ 1(3)] Cons.prems(3) by simp
  qed (use Cons.prems in simp)
qed simp

text \<open>How a call can abort.\<close>

lemma exec_abort:
  assumes "quiet cb" "exec_instrs cb pos is r = Aborted"
  shows "ABORT \<in> set is"
  using assms(2)
proof (induction "is" arbitrary: r)
  case (Cons i "is")
  have "exec_instr cb pos i r \<noteq> Aborted" if "i \<noteq> ABORT"
  proof (cases i)
    case (CALLBACK m)
    then show ?thesis using end_callbacks_quiet [OF assms(1), of pos "[m]" r]
      by (cases "CALLBACK_NOCLEAR cb pos m r") auto
  next
    case (CALLBACK2 n)
    obtain s' where "on_notify cb n (r_parser r) (r_user r) = Some (0, s')" using assms(1) unfolding quiet_def by blast
    with CALLBACK2 show ?thesis by (simp add: run_callback_def)
  next
    case (BODY t)
    obtain ret s' where "on_body cb (r_parser r) t (r_user r) = Some (ret, s')" using assms(1) unfolding quiet_def by blast
    with BODY show ?thesis by simp
  qed (use that in simp_all)
  then show ?case using Cons by (cases "exec_instr cb pos i r") auto
qed simp

definition overrun :: "'s run \<Rightarrow> bool" where
  "overrun r \<longleftrightarrow> r_state r = s_req_method \<and> r_index r > length (method_string (p_method (r_parser r)))"

text \<open>A step that does not use up its input does not depend on what it leaves.\<close>

lemma next_step_prefix:
  assumes "next_step p st hs i ch cs = (k, is)" "k < length cs"
  shows "next_step p st hs i ch (take k cs @ x) = (k, is)"
proof (cases "st = s_body_identity \<or> st = s_chunk_data \<and> p_chunked p")
  case True
  let ?cl = "p_content_length p" and ?d = "ch # take k cs @ x"
  have "?cl \<le> 0 \<or> 0 < ?cl \<and> ?cl \<le> int (length cs) \<and> k = nat ?cl - 1"
    using assms True by (auto simp: next_step_def body_read_def Let_def min_def split: if_splits)
  then have eqs: "min (int (length (ch # cs))) ?cl = ?cl" "min (int (length ?d)) ?cl = ?cl" "take (nat ?cl) ?d = take (nat ?cl) (ch # cs)"
    using assms(2) by (auto simp: take_Cons' min_def)
  from True assms(1) show ?thesis unfolding next_step_def body_read_def Let_def eqs by (elim disjE) simp_all
next
  case False
  moreover have "st \<noteq> s_body_identity_eof" using assms by (auto simp: next_step_def body_read_def Let_def)
  ultimately show ?thesis using assms(1) by (auto simp: next_step_def Let_def)
qed

lemma loop_abort:
  "quiet cb \<Longrightarrow> run_ok r \<Longrightarrow> http_loop cb pos d r = Aborted \<Longrightarrow>
     \<exists>a b r'. d = a @ b \<and> b \<noteq> [] \<and> http_loop cb pos a r = Running r' \<and> overrun r'"
proof (induction d arbitrary: pos r rule: length_induct)
  case (1 d)
  show ?case
  proof (cases d)
    case (Cons ch cs)
    let ?r = "count_header r"
    obtain k "is" where st: "run_step ?r ch cs = (k, is)" by (cases "run_step ?r ch cs")
    have n: "\<not> too_long ?r" using "1.prems"(3) Cons by (auto simp: http_loop_Cons Let_def)
    have ok: "run_ok ?r" by (rule run_ok_count [OF "1.prems"(2) n])
    show ?thesis
    proof (cases "exec_instrs cb (pos + k) is ?r")
      case Aborted
      then have "ABORT \<in> set is" by (rule exec_abort [OF "1.prems"(1)])
      with step_abort st ok have "r_state ?r = s_req_method \<and> r_index ?r > length (method_string (p_method (r_parser ?r)))"
        unfolding run_step_def run_ok_def run_regs_def by blast
      then show ?thesis using Cons by (intro exI [of _ "[]"] exI [of _ d] exI [of _ r]) (simp add: overrun_def)
    next
      case (Running r1)
      let ?r1 = "advance_marks (ch # take k cs) r1"
      have "http_loop cb (pos + 1 + k) (drop k cs) ?r1 = Aborted"
        using "1.prems"(3) Cons st n Running by (simp add: http_loop_Cons Let_def)
      moreover have "run_ok ?r1" using run_ok_exec [OF ok st Running] by (simp add: run_ok_advance)
      moreover have "length (drop k cs) < length d" using Cons by simp
      ultimately obtain a b r' where ab: "drop k cs = a @ b" "b \<noteq> []" "http_loop cb (pos + 1 + k) a ?r1 = Running r'" "overrun r'"
        using "1.IH" "1.prems"(1) by blast
      then have k: "k < length cs" by (cases "k < length cs") auto
      have "run_step ?r ch (take k cs @ a) = (k, is)" using next_step_prefix st k unfolding run_step_def by blast
      then have "http_loop cb pos (ch # take k cs @ a) r = Running r'" using k n Running ab(3) by (simp add: http_loop_Cons Let_def)
      moreover have "d = (ch # take k cs @ a) @ b" using ab(1) Cons append_take_drop_id [of k cs] by simp
      ultimately show ?thesis using ab(2,4) by blast
    qed (use "1.prems"(3) Cons st n in \<open>simp_all add: http_loop_Cons Let_def\<close>)
  qed (use 1 in simp)
qed

section \<open>Content length\<close>

lemma to_int64_step: "to_int64 (to_int64 (to_int64 n * 10) + d) = to_int64 (n * 10 + d)"
proof -
  have "to_int64 x mod 2 ^ 64 = x mod 2 ^ 64" for x :: int
  proof -
    have "to_int64 x mod 2 ^ 64 = ((x + 2 ^ 63) - 2 ^ 63) mod 2 ^ 64" unfolding to_int64_def by (rule mod_diff_left_eq)
    then show ?thesis by simp
  qed
  note m = this
  have c: "to_int64 x = to_int64 y" if "x mod 2 ^ 64 = y mod 2 ^ 64" for x y
  proof -
    have "(x + 2 ^ 63) mod 2 ^ 64 = (y + 2 ^ 63) mod 2 ^ 64" using that by (rule mod_add_cong) simp
    then show ?thesis by (simp add: to_int64_def)
  qed
  show ?thesis
  proof (rule c)
    have "(to_int64 (to_int64 n * 10) + d) mod 2 ^ 64 = (to_int64 n * 10 + d) mod 2 ^ 64" using m by (rule mod_add_cong) simp
    also have "\<dots> = (n * 10 + d) mod 2 ^ 64" by (rule mod_add_cong [OF mod_mult_cong [OF m refl] refl])
    finally show "(to_int64 (to_int64 n * 10) + d) mod 2 ^ 64 = (n * 10 + d) mod 2 ^ 64" .
  qed
qed

lemma digit_no_break: "isdigit c \<Longrightarrow> c \<noteq> CR \<and> c \<noteq> LF \<and> c \<noteq> CHR '' ''"
  by (auto simp: isdigit_def code_def)

lemma content_length_digits:
  assumes "\<forall>c \<in> set t. isdigit c" "r_state r = s_header_value" "r_header_state r = h_content_length"
    "p_content_length (r_parser r) = to_int64 n" "r_nread r + length t \<le> HTTP_MAX_HEADER_SIZE"
  shows "\<exists>r'. http_loop cb pos t r = Running r' \<and> r_state r' = s_header_value \<and>
    p_content_length (r_parser r') = to_int64 (foldl (\<lambda>n c. n * 10 + int (digit_of c)) n t)"
  using assms
proof (induction t arbitrary: pos r n)
  case (Cons c t)
  let ?r = "count_header r" and ?cl = "to_int64 (to_int64 (to_int64 n * 10) + int (digit_of c))"
  have c: "isdigit c" "c \<noteq> CR" "c \<noteq> LF" "c \<noteq> CHR '' ''" using Cons.prems(1) digit_no_break by auto
  let ?q = "advance_marks [c] (?r\<lparr>r_parser := (r_parser r)\<lparr>p_content_length := ?cl\<rparr>\<rparr>)"
  have "\<not> too_long ?r" using Cons.prems(2,5) by (simp add: too_long_def count_header_def)
  then have l: "http_loop cb pos (c # t) r = http_loop cb (pos + 1) t ?q"
    using c Cons.prems(2-4) by (simp add: http_loop_Cons run_step_local check_or_error_def)
  have "r_nread ?q \<le> r_nread r + 1" by (simp add: advance_marks_def count_header_def)
  then show ?case unfolding l using Cons.prems Cons.IH [of ?q "n * 10 + int (digit_of c)" "pos + 1"]
    by (simp add: to_int64_step) (simp add: advance_marks_def)
qed simp

lemma foldl_digits_of: "foldl (\<lambda>n c. n * 10 + int (digit_of c)) (int n) t = int (foldl (\<lambda>n c. 10 * n + (code c - 48)) n t)"
proof (induction t arbitrary: n)
  case (Cons c t)
  have "int n * 10 + int (digit_of c) = int (10 * n + (code c - 48))" by (simp add: digit_of_def)
  then show ?case using Cons.IH [of "10 * n + (code c - 48)"] by (simp only: foldl.simps)
qed simp

lemma to_int64_small: "- (2 ^ 63) \<le> i \<Longrightarrow> i < 2 ^ 63 \<Longrightarrow> to_int64 i = i"
  by (simp add: to_int64_def)

section \<open>A request\<close>

text \<open>What evaluates the parser on a given input.\<close>

definition no_messages :: recorder where
  "no_messages = \<lparr>rc_message = empty_message, rc_done = []\<rparr>"

lemmas parse_defs = start_run_def http_parser_init_def http_loop_Cons run_step_def next_step_def count_header_def too_long_def
  PARSING_HEADER_def body_state_def HTTP_MAX_HEADER_SIZE_def recording_def start_message_def clear_flags_def run_callback_def
  check_or_error_def start_req_method_assign_def req_method_def advance_marks_def next_method_def code_def at_c_def url_letter_def
  normal_url_char_def url_end_def CALLBACK_NOCLEAR_def record_text_def digit_of_def isdigit_def next_digit_def no_messages_def
  empty_message_def header_first_def header_almost_done_def headers_almost_done_def finish_message_def NEW_MESSAGE_def
  http_should_keep_alive_def start_state_def LOWER_def add_name_def add_value_def flush_def all_marks_def match_word_def

lemma TOKEN_chars: "TOKEN CHR ''H'' = CHR ''h''" "TOKEN CHR ''o'' = CHR ''o''" "TOKEN CHR ''s'' = CHR ''s''" "TOKEN CHR ''t'' = CHR ''t''"
  "TOKEN CHR '':'' = NUL"
  by code_simp+

lemma request_parsed:
  "\<exists>p'. http_parser_execute recording (http_parser_init HTTP_REQUEST) (''GET /a HTTP/1.1'' @ CRLF @ ''Host: b'' @ CRLF @ CRLF) no_messages =
     Some (length (''GET /a HTTP/1.1'' @ CRLF @ ''Host: b'' @ CRLF @ CRLF), p', no_messages\<lparr>rc_done := [(HTTP_GET, 1, 1, False, True,
       empty_message\<lparr>m_url := ''/a'', m_path := ''/a'', m_headers := [(''Host'', ''b'')]\<rparr>)]\<rparr>)"
proof -
  have "\<exists>r. http_loop recording 0 (''GET /a HTTP/1.1'' @ CRLF @ ''Host: b'' @ CRLF @ CRLF) (start_run (http_parser_init HTTP_REQUEST) no_messages) = Running r \<and>
    (r_user r)\<lparr>rc_message := flush r\<rparr> = no_messages\<lparr>rc_done := [(HTTP_GET, 1, 1, False, True,
       empty_message\<lparr>m_url := ''/a'', m_path := ''/a'', m_headers := [(''Host'', ''b'')]\<rparr>)]\<rparr>"
    by (simp add: parse_defs TOKEN_chars)
  then obtain r where "http_loop recording 0 (''GET /a HTTP/1.1'' @ CRLF @ ''Host: b'' @ CRLF @ CRLF) (start_run (http_parser_init HTTP_REQUEST) no_messages) = Running r"
    "(r_user r)\<lparr>rc_message := flush r\<rparr> = no_messages\<lparr>rc_done := [(HTTP_GET, 1, 1, False, True,
       empty_message\<lparr>m_url := ''/a'', m_path := ''/a'', m_headers := [(''Host'', ''b'')]\<rparr>)]\<rparr>" by blast
  from execute_recording [OF _ this(1)] this(2) show ?thesis by simp
qed

section \<open>Properties\<close>





text \<open>
  C36: The content length of a request is the number its header has, wrapped around at 64 bits: nothing
  checks it for an overflow.
\<close>

theorem content_length_value:
  assumes "\<forall>c \<in> set t. isdigit c" "t \<noteq> []" "r_state r = s_header_value_start" "r_header_state r = h_content_length"
    "r_nread r + length t \<le> HTTP_MAX_HEADER_SIZE"
  shows "\<exists>r'. http_loop cb pos t r = Running r' \<and> p_content_length (r_parser r') = to_int64 (int (read_digits t))"
proof -
  obtain c u where t: "t = c # u" using assms(2) by (cases t) auto
  let ?r = "count_header r"
  let ?q = "advance_marks [c] (?r\<lparr>r_marks := (r_marks r)(header_value_mark \<mapsto> []), r_state := s_header_value, r_index := 0,
    r_parser := (r_parser r)\<lparr>p_content_length := int (digit_of c)\<rparr>\<rparr>)"
  have c: "isdigit c" "c \<noteq> CR" "c \<noteq> LF" "c \<noteq> CHR '' ''" using assms(1) t digit_no_break by auto
  then have d: "digit_of c < 10" by (auto simp: isdigit_def digit_of_def)
  have "\<not> too_long ?r" using assms(3,5) t by (simp add: too_long_def count_header_def)
  then have l: "http_loop cb pos t r = http_loop cb (pos + 1) u ?q"
    using c assms(3,4) t by (simp add: http_loop_Cons run_step_local check_or_error_def)
  have q: "\<forall>c \<in> set u. isdigit c" "r_state ?q = s_header_value" "r_header_state ?q = h_content_length"
    "p_content_length (r_parser ?q) = to_int64 (int (digit_of c))" "r_nread ?q + length u \<le> HTTP_MAX_HEADER_SIZE"
    using assms t d to_int64_small [of "int (digit_of c)"] by (simp_all add: advance_marks_def count_header_def)
  have "foldl (\<lambda>n c. n * 10 + int (digit_of c)) (int (digit_of c)) u = int (read_digits t)"
    using foldl_digits_of [of "digit_of c" u] by (simp add: t read_digits_def digit_of_def)
  then show ?thesis unfolding l using content_length_digits [OF q, of cb "pos + 1"] by auto
qed

theorem content_length_value_witness:
  "\<exists>r'. http_loop recording 0 ''18446744073709551617''
     ((start_run (http_parser_init HTTP_REQUEST) no_messages)\<lparr>r_state := s_header_value_start, r_header_state := h_content_length\<rparr>) = Running r' \<and>
     p_content_length (r_parser r') = 1"
proof -
  let ?t = "''18446744073709551617''"
  have "\<forall>c \<in> set ?t. isdigit c" "read_digits ?t = 18446744073709551617" by (simp_all add: isdigit_def read_digits_def code_def)
  then show ?thesis
    using content_length_value [of ?t "(start_run (http_parser_init HTTP_REQUEST) no_messages)\<lparr>r_state := s_header_value_start,
      r_header_state := h_content_length\<rparr>" recording 0]
    by (simp add: start_run_def http_parser_init_def HTTP_MAX_HEADER_SIZE_def to_int64_def)
qed


end
