(* ===== verification/Spec2Isabelle.thy ===== *)
theory Spec2Isabelle
  imports Cmd_Url Format_Raw Format_Custom Format_Msgpack Sha1 Reader_Stream Http_Pieces
begin

text \<open>
  Verification of webdis, an HTTP interface to Redis. File names are relative to \<open>src/src\<close>.

  \<^bold>\<open>The program.\<close> A worker thread reads the bytes of a client's connection and hands them to the HTTP
  parser (\<open>http-parser/http_parser.c\<close>), whose callbacks (\<open>client.c\<close>) collect path, headers and body.
  A complete request becomes a command (\<open>cmd.c\<close>): the URL is cut and decoded, the access rules of the
  configuration (\<open>acl.c\<close>, \<open>conf.c\<close>) are consulted, and the command goes out on a connection of the
  pool (\<open>pool.c\<close>) through hiredis (\<open>hiredis\<close>). The reply comes back through the protocol reader of
  hiredis and is printed by the function of the format that the URL asked for (\<open>formats\<close>) into an
  HTTP response (\<open>http.c\<close>), or into a frame for a WebSocket client (\<open>websocket.c\<close>). JSON is the
  work of jansson (\<open>jansson/src\<close>), ETags are MD5 sums (\<open>md5\<close>), WebSocket handshakes use SHA-1
  (\<open>sha1\<close>) and base64 (\<open>b64\<close>).

  \<^bold>\<open>Conventions.\<close> Theory \<open>C_Lib\<close> is the prelude: bytes, C strings, the functions of the C library that
  the sources call, printing and reading of numbers. A buffer with its size is a \<^typ>\<open>string\<close>.
  Integers are unbounded in the model with the casts of the source written out (\<open>to_int32\<close>,
  \<open>to_int64\<close>, \<open>mod 2 ^ w\<close>), words where the code works on bits. A result of \<^const>\<open>None\<close> at the
  outermost type \<open>world option\<close> is behaviour that C leaves undefined or a failed assertion:
  a theorem that a function returns \<^const>\<open>Some\<close> shows that it has none.

  \<^bold>\<open>State.\<close> Theory \<open>World\<close> has the objects of one worker thread: stores for clients, commands,
  responses, WebSocket states and Redis contexts, addressed by pointers, the list of registered
  events, and the trace of what was written to sockets, to Redis and to the log. What the
  environment decides (how much a \<open>write\<close> takes, whether an allocation succeeds, whether a connection
  is made) is read from lists in the state, so every behaviour of the environment is covered.

  \<^bold>\<open>Parts.\<close>

  \<^item> \<open>Http_Parser\<close>: the HTTP parser. A case of the switch of \<open>http_parser_execute\<close> is a list of
    instructions, which the macros of the source are; \<open>http_loop\<close> is the loop over the bytes.
    \<open>Http_Stream\<close> has what the parser keeps from byte to byte, \<open>Http_Pieces\<close> the theorems:
    the cuts of the input do not matter, the invariant of the parser and that no assertion fails,
    the wrap-around of the content length, and the method names that are read behind their end.

  \<^item> \<open>Client\<close>, \<open>Http\<close>: the callbacks of the parser on \<open>struct http_client\<close>; responses from the header
    array to the socket. Fragments of headers, bodies and URLs are joined; a response reads back as
    its status, headers and body; an error is answered by one response.

  \<^item> \<open>Conf\<close>, \<open>Acl\<close>: the configuration, and the decision whether a client may run a command, with the
    exact meaning of networks and credentials in the rules.

  \<^item> \<open>Cmd\<close>, \<open>Cmd_Url\<close>, \<open>Pool\<close>: the life of a command, \<open>cmd_run\<close>, the pool, and what of \<open>hiredis/async.c\<close>
    registers callbacks and runs them when a connection goes away. The URL of a command is sent as
    this command, and nothing is sent that the rules do not permit.

  \<^item> \<open>Reader\<close>, \<open>Reader_Stream\<close>: the protocol reader and the formatting of commands. Commands read
    back, and a stream of replies is read whatever the cuts of the network.

  \<^item> \<open>Jansson\<close>, \<open>Json_Load\<close>, with the lemmas in \<open>Json_Text\<close>, \<open>Json_Wf\<close>, \<open>Json_Round_Trip\<close>: UTF-8, values,
    objects, printer and reader of JSON. What is printed is read back, what is read is well formed,
    and reading always ends.

  \<^item> \<open>Format_Common\<close>, \<open>Format_Raw\<close>, \<open>Format_Custom\<close>, \<open>Format_Json\<close>, \<open>Format_Msgpack\<close>: the output formats and the
    messages of WebSocket clients. Raw and JSON output read back as the reply, MessagePack output
    is one complete object. The bytes that a call of the msgpack-c library writes are a parameter.

  \<^item> \<open>Ws_Frame\<close>: reading and writing of WebSocket frames.

  \<^item> \<open>Base64\<close>, \<open>Md5\<close>, \<open>Sha1\<close>, over \<open>Hash_Blocks\<close>: the encodings. Feeding data in pieces gives the same
    as feeding it at once.

  \<^bold>\<open>Interfaces.\<close> The locales are \<open>stream_encoder\<close> (base64), \<open>streaming_hash\<close> (MD5, SHA-1), \<open>fragments\<close>
  (the callbacks that collect a text), \<open>keyed_store\<close> (the objects of jansson) and \<open>silent_disconnect\<close>
  (what \<open>cmd.c\<close> relies on when hiredis drops a connection). Each is interpreted on the functions of
  the model, and the theorems use the facts of the interpretation.

  \<^bold>\<open>Bounds and fuel.\<close> Loops are recursive functions with a termination proof. Fuel has only the
  recursion of the JSON reader, \<open>2 * st_size + 3\<close> for a stream of \<open>st_size\<close> bytes, since a value is
  at least one byte and every level reads its bracket; that it is enough is part of
  \<open>json_loads_returns\<close>. A callback that frees a command whose connection goes away, which runs
  callbacks again, is nested at most \<open>CALLBACK_DEPTH\<close> (8) times; a command is freed once and a
  deeper nesting, which no theorem relies on, is \<^const>\<open>None\<close>.

  \<^bold>\<open>Not modelled.\<close> The rest of \<open>websocket.c\<close> (handshake and event handlers), \<open>worker.c\<close>,
  \<open>server.c\<close> and \<open>webdis.c\<close>, which set up threads, pipes, signals and the event loop of libevent, and
  \<open>http_client_read\<close> and \<open>http_client_execute\<close>, which their handlers call; the log file of \<open>slog.c\<close>
  and its timer; sockets, memory pools and dynamic strings of hiredis (\<open>net.c\<close>, \<open>sds.c\<close>, the buckets
  of \<open>dict.c\<close>) and the dispatch of replies to callbacks; of jansson the buckets of \<open>hashtable.c\<close>,
  whose objects are association lists in the order of insertion, reference counts, and
  \<open>pack_unpack.c\<close>, which webdis does not call. Conversions between decimals and floating
  point numbers (\<open>strtod\<close>, \<open>printf\<close>) are not: a real is the text it is written as.
\<close>

end
